(* ===== verification/Prelude.thy ===== *)
theory Prelude
  imports Main "HOL-Library.Word" "HOL-Library.Multiset"
begin

text \<open>
  Shared vocabulary of the development: the machine integers of the C++ sources, the
  error values its operations end in, and the generic facts on words, bits and lists
  that the component theories use.

  \<^item> \<open>u8\<close>, \<open>u32\<close>, \<open>u64\<close> are \<open>uint8_t\<close>, \<open>uint32_t\<close>, \<open>uint64_t\<close>; arithmetic on them wraps.
  \<^item> \<open>UINT64_MAX\<close> and \<open>UINT32_MAX\<close> are the values the code uses as markers.
  \<^item> Where a quantity is bounded far below its width by the code's own checks it is a
    \<open>nat\<close>, and the component says so.
\<close>

unbundle bit_operations_syntax

type_synonym u8 = "8 word"
type_synonym u16 = "16 word"
type_synonym u32 = "32 word"
type_synonym u64 = "64 word"

abbreviation UINT8_MAX :: u8 where
  "UINT8_MAX \<equiv> -1"

abbreviation UINT32_MAX :: u32 where
  "UINT32_MAX \<equiv> -1"

abbreviation UINT64_MAX :: u64 where
  "UINT64_MAX \<equiv> -1"

text \<open>What an operation of the sources ends in when it does not return: an exception
  (\<open>std::invalid_argument\<close>, \<open>std::runtime_error\<close>, \<open>std::out_of_range\<close>), a failed \<open>assert\<close>, or undefined
  behaviour from reading a vector outside its bounds.\<close>

datatype failure = Invalid_argument string | Runtime_error string | Out_of_range string
  | Assert_failed string | Out_of_bounds string

type_synonym 'a outcome = "failure + 'a"

section \<open>Bits of words\<close>

text \<open>A shifted one, \<open>(uint64_t)1 << n\<close>, is \<open>push_bit n 1\<close> in the definitions and \<open>2 ^ n\<close> after
  simplification, which is the form these facts take.\<close>

lemma drop_bit_and_one_iff_bit:
  fixes w :: "'a::len word"
  shows "(drop_bit n w AND 1 \<noteq> 0) = bit w n"
  by (simp add: and_one_eq odd_iff_mod_2_eq_one bit_iff_odd_drop_bit flip: odd_iff_mod_2_eq_one)

lemma and_single_bit_eq_0_iff:
  fixes w :: "'a::len word"
  assumes "n < LENGTH('a)"
  shows "(w AND 2 ^ n = 0) \<longleftrightarrow> \<not> bit w n"
  using assms by (auto simp: bit_eq_iff [where 'a = "'a word"] bit_and_iff bit_exp_iff)

lemma bit_or_single_iff:
  fixes w :: "'a::len word"
  assumes "n < LENGTH('a)"
  shows "bit (w OR 2 ^ n) i \<longleftrightarrow> bit w i \<or> i = n"
  using assms by (auto simp: bit_or_iff bit_exp_iff)

lemma bit_and_not_single_iff:
  fixes w :: "'a::len word"
  assumes "n < LENGTH('a)"
  shows "bit (w AND NOT (2 ^ n)) i \<longleftrightarrow> bit w i \<and> i \<noteq> n"
  using assms by (auto simp: bit_and_iff bit_not_iff bit_exp_iff dest: bit_imp_le_length)

lemma word_xor_left_cancel:
  fixes a :: "'a::len word"
  shows "a XOR b = a XOR c \<longleftrightarrow> b = c"
proof
  assume "a XOR b = a XOR c"
  then have "a XOR (a XOR b) = a XOR (a XOR c)" by simp
  then show "b = c" by (simp flip: xor.assoc)
qed simp

lemma bit_shifted_add_iff:
  fixes v c :: "'a::len word"
  assumes "take_bit n c = c"
  shows "bit (push_bit n v + c) i \<longleftrightarrow> (if i < n then bit c i else i < LENGTH('a) \<and> bit v (i - n))"
proof -
  have c: "bit c j \<Longrightarrow> j < n" for j
    using assms by (metis bit_take_bit_iff)
  have "push_bit n v AND c = 0"
    by (rule bit_word_eqI) (auto simp: bit_and_iff bit_push_bit_iff dest: c)
  then have "push_bit n v + c = push_bit n v OR c"
    by (rule disjunctive_add_eq_or)
  then show ?thesis
    by (auto simp: bit_or_iff bit_push_bit_iff dest: c)
qed

lemma word_eq_minus_one_iff:
  fixes w :: "'a::len word"
  shows "w = -1 \<longleftrightarrow> (\<forall>i<LENGTH('a). bit w i)"
  by (auto simp: bit_eq_iff [where 'a = "'a word"])

lemma bit_mask_word_iff:
  fixes n :: nat
  assumes "n < LENGTH('a)"
  shows "bit (2 ^ n - 1 :: 'a::len word) i \<longleftrightarrow> i < n"
proof -
  have "(2 ^ n - 1 :: 'a word) = mask n"
    by (simp add: mask_eq_exp_minus_1)
  then show ?thesis
    using assms by (auto simp: bit_mask_iff)
qed

lemma or_low_bits_eq_add:
  fixes a i :: nat
  assumes "i < 2 ^ n"
  shows "(a * 2 ^ n) OR i = a * 2 ^ n + i"
proof -
  have "bit (a * 2 ^ n) k \<Longrightarrow> bit i k \<Longrightarrow> False" for k
  proof -
    assume a: "bit (a * 2 ^ n) k" and i: "bit i k"
    from a have "n \<le> k"
      by (simp add: bit_push_bit_iff flip: push_bit_eq_mult)
    moreover from assms have "take_bit n i = i"
      by (simp add: take_bit_nat_eq_self_iff)
    then have "bit (take_bit n i) k"
      using i by simp
    then have "k < n"
      by (simp add: bit_take_bit_iff)
    ultimately show False
      by simp
  qed
  then have "(a * 2 ^ n) AND i = 0"
    by (intro bit_eqI) (auto simp: bit_and_iff)
  then show ?thesis
    by (rule disjunctive_add_eq_or [symmetric])
qed

lemma of_nat_neq_UINT64_MAX:
  assumes "n < 2 ^ 64 - 1"
  shows "of_nat n \<noteq> UINT64_MAX"
proof
  assume "of_nat n = UINT64_MAX"
  then have "unat (of_nat n :: u64) = 2 ^ 64 - 1"
    by (simp add: unsigned_minus_1_eq_mask mask_eq_exp_minus_1)
  with assms show False
    by (simp add: unat_of_nat)
qed

section \<open>Lists\<close>

lemma nth_list_update_if:
  "j < length xs \<Longrightarrow> xs[i := v] ! j = (if i = j then v else xs ! j)"
  by simp

text \<open>\<open>std::vector::operator[]\<close>: reading outside the vector is undefined behaviour, here \<open>None\<close>.\<close>

definition vec_at :: "'a list \<Rightarrow> nat \<Rightarrow> 'a option" where
  "vec_at xs i = (if i < length xs then Some (xs ! i) else None)"

lemma vec_at_eq_Some [simp]: "vec_at xs i = Some x \<longleftrightarrow> i < length xs \<and> xs ! i = x"
  by (simp add: vec_at_def)

lemma vec_at_eq_None [simp]: "vec_at xs i = None \<longleftrightarrow> length xs \<le> i"
  by (simp add: vec_at_def)

text \<open>\<open>std::sort\<close> with a comparison; equivalent elements keep their order, which the standard allows.\<close>

fun insert_by :: "('a \<Rightarrow> 'a \<Rightarrow> bool) \<Rightarrow> 'a \<Rightarrow> 'a list \<Rightarrow> 'a list" where
  "insert_by lt x [] = [x]"
| "insert_by lt x (y # ys) = (if lt y x then y # insert_by lt x ys else x # y # ys)"

definition sort_by :: "('a \<Rightarrow> 'a \<Rightarrow> bool) \<Rightarrow> 'a list \<Rightarrow> 'a list" where
  "sort_by lt xs = foldr (insert_by lt) xs []"

lemma insert_by_mset: "mset (insert_by lt x ys) = add_mset x (mset ys)"
  by (induction ys) auto

lemma sort_by_mset [simp]: "mset (sort_by lt xs) = mset xs"
  by (induction xs) (auto simp: sort_by_def insert_by_mset)

lemma sort_by_set [simp]: "set (sort_by lt xs) = set xs"
  by (metis sort_by_mset set_mset_mset)

lemma sort_by_length [simp]: "length (sort_by lt xs) = length xs"
  by (metis sort_by_mset size_mset)

lemma insert_by_set [simp]: "set (insert_by lt x ys) = insert x (set ys)"
  by (metis insert_by_mset set_mset_add_mset_insert set_mset_mset)

lemma insert_by_sorted:
  assumes "\<And>a b c. \<not> lt b a \<Longrightarrow> \<not> lt c b \<Longrightarrow> \<not> lt c a" "\<And>a b. lt a b \<Longrightarrow> \<not> lt b a"
    and "sorted_wrt (\<lambda>a b. \<not> lt b a) ys"
  shows "sorted_wrt (\<lambda>a b. \<not> lt b a) (insert_by lt x ys)"
  using assms(3)
proof (induction ys)
  case (Cons y ys)
  show ?case
  proof (cases "lt y x")
    case True
    then show ?thesis
      using Cons assms(2) by simp
  next
    case False
    then have "\<not> lt z x" if "z \<in> set ys" for z
      using that Cons.prems assms(1) [of y x z] by simp
    with False Cons.prems show ?thesis by simp
  qed
qed simp

lemma sort_by_sorted:
  assumes "\<And>a b c. \<not> lt b a \<Longrightarrow> \<not> lt c b \<Longrightarrow> \<not> lt c a" "\<And>a b. lt a b \<Longrightarrow> \<not> lt b a"
  shows "sorted_wrt (\<lambda>a b. \<not> lt b a) (sort_by lt xs)"
proof (induction xs)
  case (Cons x xs)
  then show ?case
    using insert_by_sorted [OF assms, where ys = "sort_by lt xs"] by (simp add: sort_by_def)
qed (simp add: sort_by_def)

lemma map_option_bind_Some [simp]:
  "map_option f (Option.bind x (\<lambda>p. Some (g p))) = map_option (\<lambda>p. f (g p)) x"
  by (cases x) simp_all

lemma map_option_bind: "map_option f (Option.bind x g) = Option.bind x (\<lambda>p. map_option f (g p))"
  by (cases x) simp_all

section \<open>Ranges of numbers\<close>

lemma ex_range_split:
  fixes s m e :: nat
  assumes "s \<le> m" "m \<le> e"
  shows "(\<exists>i. s \<le> i \<and> i < e \<and> P i) \<longleftrightarrow>
    (\<exists>i. s \<le> i \<and> i < m \<and> P i) \<or> (\<exists>i. m \<le> i \<and> i < e \<and> P i)"
  using assms by (meson leI le_trans less_le_trans)

lemma ex_single_range: "(\<exists>i. (s::nat) \<le> i \<and> i < s + 1 \<and> P i) \<longleftrightarrow> P s"
  by (auto simp: le_less_Suc_eq)

end
