(* ===== verification/Block_Pool.thy ===== *)
theory Block_Pool
  imports Prelude
begin

text \<open>
  The interface between the block allocator and its clients (the blockstore and
  \<open>vitastor-disk\<close>): which laws of \<open>get\<close>, \<open>set\<close> and \<open>find_free\<close> a client relies on. The abstract
  state is the set of blocks in use. The allocator's theory proves the laws for the code's model;
  the resize tool's theory uses them.
\<close>

locale block_pool =
  fixes invar :: "'s \<Rightarrow> bool"
    and used :: "'s \<Rightarrow> nat set"
    and capacity :: "'s \<Rightarrow> nat"
    and get :: "'s \<Rightarrow> nat \<Rightarrow> bool"
    and mark :: "'s \<Rightarrow> nat \<Rightarrow> bool \<Rightarrow> 's"
    and find_free :: "'s \<Rightarrow> u64"
  assumes used_bounded: "invar s \<Longrightarrow> used s \<subseteq> {..<capacity s}"
    and capacity_bound: "invar s \<Longrightarrow> capacity s < 2 ^ 31"
    and get_used: "invar s \<Longrightarrow> get s x \<longleftrightarrow> x \<in> used s"
    and mark_invar: "invar s \<Longrightarrow> invar (mark s x v)"
    and mark_capacity: "invar s \<Longrightarrow> capacity (mark s x v) = capacity s"
    and mark_used: "invar s \<Longrightarrow> x < capacity s \<Longrightarrow>
      used (mark s x v) = (if v then insert x (used s) else used s - {x})"
    and find_free_some: "invar s \<Longrightarrow> x < capacity s \<Longrightarrow> x \<notin> used s \<Longrightarrow>
      find_free s = of_nat (LEAST x. x \<notin> used s)"
    and find_free_full: "invar s \<Longrightarrow> 64 \<le> capacity s \<Longrightarrow> used s = {..<capacity s} \<Longrightarrow>
      find_free s = UINT64_MAX"
begin

lemma used_finite: "invar s \<Longrightarrow> finite (used s)"
  using used_bounded finite_subset by blast

lemma least_free:
  assumes "invar s" "x < capacity s" "x \<notin> used s"
  shows "(LEAST x. x \<notin> used s) \<notin> used s" and "(LEAST x. x \<notin> used s) < capacity s"
proof -
  show "(LEAST x. x \<notin> used s) \<notin> used s"
    using assms(3) by (rule LeastI)
  have "(LEAST x. x \<notin> used s) \<le> x"
    using assms(3) by (rule Least_le)
  with assms(2) show "(LEAST x. x \<notin> used s) < capacity s" by simp
qed

text \<open>What a client may conclude from the value of \<open>find_free\<close>: the marker means that nothing is
  left, any other value is an unused block below the capacity.\<close>

lemma find_free_result:
  assumes "invar s" "64 \<le> capacity s"
  shows "find_free s = UINT64_MAX \<longleftrightarrow> used s = {..<capacity s}"
    and "find_free s \<noteq> UINT64_MAX \<Longrightarrow> unat (find_free s) \<notin> used s \<and> unat (find_free s) < capacity s"
proof -
  have some: "unat (find_free s) = (LEAST x. x \<notin> used s) \<and> find_free s \<noteq> UINT64_MAX"
    if "x < capacity s" "x \<notin> used s" for x
  proof -
    let ?l = "LEAST x. x \<notin> used s"
    have "?l < 2 ^ 31"
      using least_free(2) [OF assms(1) that] capacity_bound [OF assms(1)] by simp
    then have "unat (of_nat ?l :: u64) = ?l"
      by (simp add: unat_of_nat)
    moreover have "of_nat ?l \<noteq> UINT64_MAX"
      using \<open>?l < 2 ^ 31\<close> by (intro of_nat_neq_UINT64_MAX) simp
    ultimately show ?thesis
      using find_free_some [OF assms(1) that] by simp
  qed
  show iff: "find_free s = UINT64_MAX \<longleftrightarrow> used s = {..<capacity s}"
    using some find_free_full [OF assms] used_bounded [OF assms(1)] by blast
  assume "find_free s \<noteq> UINT64_MAX"
  then obtain x where "x < capacity s" "x \<notin> used s"
    using iff used_bounded [OF assms(1)] by blast
  then show "unat (find_free s) \<notin> used s \<and> unat (find_free s) < capacity s"
    using some least_free [OF assms(1)] by metis
qed

end

end
