(* ===== verification/Allocator.thy ===== *)
theory Allocator
  imports Block_Pool
begin

text \<open>
  The hierarchical bitmap allocator of data blocks (\<open>src/src/util/allocator.cpp\<close>).

  A tree of 64-bit words is stored level by level in one array \<open>mask\<close>: level \<open>k\<close> has
  \<open>64 ^ k\<close> words and starts at word \<open>1 + 64 + \<dots> + 64 ^ (k - 1)\<close>; the last level has one bit
  per block and only as many words as there are blocks. A bit of an inner word is set when the
  word below it is full. Block numbers, sizes and array positions are \<open>nat\<close>: the constructor
  refuses \<open>blocks \<ge> 2 ^ 31\<close>, so no sum or product of them reaches \<open>2 ^ 64\<close>. Mask words and the
  free counter are \<open>u64\<close>.
\<close>

section \<open>The model\<close>

record allocator =
  al_total :: nat
  al_size :: nat
  al_free :: u64
  al_last_one_mask :: u64
  al_mask :: "u64 list"

text \<open>The loop \<open>while (p2 * 64 < size) { offset += p2; p2 = p2 * 64; }\<close> shared by the
  constructor, \<open>get\<close> and \<open>set\<close>. It is always entered with \<open>p2 = 1\<close>; the guard \<open>0 < p2\<close> only
  makes the recursion well-founded.\<close>

function al_levels :: "nat \<Rightarrow> nat \<Rightarrow> nat \<Rightarrow> nat \<times> nat" where
  "al_levels sz p2 offset =
     (if 0 < p2 \<and> p2 * 64 < sz then al_levels sz (p2 * 64) (offset + p2) else (p2, offset))"
  by pat_completeness auto
termination
  by (relation "measure (\<lambda>(sz, p2, offset). sz - p2)") auto

definition allocator_new :: "nat \<Rightarrow> allocator outcome" where
  "allocator_new blocks =
     (if blocks \<ge> 0x80000000 \<or> blocks \<le> 1 then Inl (Invalid_argument ''blocks'')
      else
        let (p2, total) = al_levels blocks 1 0;
            total = total + (blocks + 63) div 64
        in Inr \<lparr>al_total = total, al_size = blocks, al_free = of_nat blocks,
                al_last_one_mask = (if blocks mod 64 = 0 then UINT64_MAX
                                    else push_bit (blocks mod 64) 1 - 1),
                al_mask = replicate total 0\<rparr>)"

definition allocator_get :: "allocator \<Rightarrow> nat \<Rightarrow> bool" where
  "allocator_get a addr =
     (if addr \<ge> al_size a then False
      else
        let (p2, offset) = al_levels (al_size a) 1 0
        in drop_bit (addr mod 64) (al_mask a ! (offset + addr div 64)) AND 1 \<noteq> 0)"

text \<open>One iteration of the \<open>while (1)\<close> loop of \<open>set\<close>, and the loop: it climbs from the last
  level to the root, so \<open>p2\<close> shrinks with every iteration.\<close>

function allocator_set_loop :: "bool \<Rightarrow> nat \<Rightarrow> nat \<Rightarrow> nat \<Rightarrow> bool \<Rightarrow> allocator \<Rightarrow> allocator" where
  "allocator_set_loop val p2 offset cur_addr is_last a =
     (let last = offset + cur_addr div 64;
          b = cur_addr mod 64;
          w = al_mask a ! last
      in if (drop_bit b w AND 1 \<noteq> 0) \<noteq> val
         then
           let a = (if is_last
                    then a\<lparr>al_free := al_free a + (if val then -1 else 1)\<rparr> else a);
               w' = (if val then w OR push_bit b 1 else w AND NOT (push_bit b 1));
               a = a\<lparr>al_mask := (al_mask a)[last := w']\<rparr>
           in if val \<and> w' \<noteq> (if \<not> is_last \<or> cur_addr div 64 < al_size a div 64
                              then UINT64_MAX else al_last_one_mask a)
              then a
              else if p2 > 1
              then allocator_set_loop val (p2 div 64) (offset - p2 div 64) (cur_addr div 64) False a
              else a
         else a)"
  by pat_completeness auto
termination
  by (relation "measure (\<lambda>(val, p2, offset, cur_addr, is_last, a). p2)") auto

definition allocator_set :: "allocator \<Rightarrow> nat \<Rightarrow> bool \<Rightarrow> allocator" where
  "allocator_set a addr val =
     (if addr \<ge> al_size a then a
      else
        let (p2, offset) = al_levels (al_size a) 1 0
        in allocator_set_loop val p2 offset addr True a)"

text \<open>\<open>for (i = 0, f = 1; i < 64; i++, f <<= 1) if (!(m & f)) break;\<close>\<close>

function find_clear_bit :: "u64 \<Rightarrow> nat \<Rightarrow> u64 \<Rightarrow> nat" where
  "find_clear_bit m i f =
     (if i < 64 then (if m AND f = 0 then i else find_clear_bit m (i + 1) (push_bit 1 f)) else i)"
  by pat_completeness auto
termination
  by (relation "measure (\<lambda>(m, i, f). 64 - i)") auto

function find_free_loop :: "allocator \<Rightarrow> nat \<Rightarrow> nat \<Rightarrow> nat \<Rightarrow> u64" where
  "find_free_loop a p2 offset addr =
     (if 0 < p2 \<and> p2 < al_size a
      then
        if offset + addr \<ge> al_total a then UINT64_MAX
        else
          let i = find_clear_bit (al_mask a ! (offset + addr)) 0 1
          in if i = 64 then UINT64_MAX
             else find_free_loop a (p2 * 64) (offset + p2) ((addr * 64) OR i)
      else of_nat addr)"
  by pat_completeness auto
termination
  by (relation "measure (\<lambda>(a, p2, offset, addr). al_size a - p2)") auto

definition allocator_find_free :: "allocator \<Rightarrow> u64" where
  "allocator_find_free a = find_free_loop a 1 0 0"

definition get_free_count :: "allocator \<Rightarrow> u64" where
  "get_free_count a = al_free a"

declare al_levels.simps [simp del] allocator_set_loop.simps [simp del]
  find_clear_bit.simps [simp del] find_free_loop.simps [simp del]


section \<open>Levels of the tree\<close>

primrec lev_off :: "nat \<Rightarrow> nat" where
  "lev_off 0 = 0"
| "lev_off (Suc k) = lev_off k + 64 ^ k"

definition al_depth :: "nat \<Rightarrow> nat" where
  "al_depth sz = (LEAST d. sz \<le> 64 ^ Suc d)"

definition lev_words :: "nat \<Rightarrow> nat \<Rightarrow> nat" where
  "lev_words sz k = (if k = al_depth sz then (sz + 63) div 64 else 64 ^ k)"

lemma al_depth_covers: "sz \<le> 64 * 64 ^ al_depth sz"
proof -
  have "sz < 64 ^ sz"
    by (rule power_gt_expt) simp
  then have "sz \<le> 64 ^ Suc sz"
    by simp
  then have "sz \<le> 64 ^ Suc (al_depth sz)"
    unfolding al_depth_def by (rule LeastI)
  then show ?thesis by simp
qed

lemma below_depth: "k < al_depth sz \<Longrightarrow> 64 * 64 ^ k < sz"
  unfolding al_depth_def using not_less_Least by fastforce

lemma above_depth: "al_depth sz < k \<Longrightarrow> sz \<le> 64 ^ k"
proof -
  assume "al_depth sz < k"
  then have "(64::nat) ^ Suc (al_depth sz) \<le> 64 ^ k"
    by (intro power_increasing) auto
  with al_depth_covers [of sz] show ?thesis by simp
qed

lemma lev_off_mono: "k < k' \<Longrightarrow> lev_off k + 64 ^ k \<le> lev_off k'"
  by (induction k') (auto simp: less_Suc_eq)

lemma lev_words_le: "lev_words sz k \<le> 64 ^ k"
  using al_depth_covers [of sz] by (auto simp: lev_words_def)

lemma al_levels_from: "k \<le> al_depth sz \<Longrightarrow>
  al_levels sz (64 ^ k) (lev_off k) = (64 ^ al_depth sz, lev_off (al_depth sz))"
proof (induction "al_depth sz - k" arbitrary: k)
  case 0
  then have "k = al_depth sz" by simp
  then show ?case
    using al_depth_covers [of sz] by (subst al_levels.simps) (simp add: mult.commute)
next
  case (Suc n)
  then have k: "k < al_depth sz" by simp
  then have "al_levels sz (64 ^ Suc k) (lev_off (Suc k))
    = (64 ^ al_depth sz, lev_off (al_depth sz))"
    using Suc.hyps(1) [of "Suc k"] Suc.hyps(2) by simp
  with below_depth [OF k] show ?case
    by (subst al_levels.simps) (simp add: mult.commute)
qed

lemma al_levels_eq: "al_levels sz 1 0 = (64 ^ al_depth sz, lev_off (al_depth sz))"
  using al_levels_from [of 0 sz] by simp

lemma al_levels_eq_Suc: "al_levels sz (Suc 0) 0 = (64 ^ al_depth sz, lev_off (al_depth sz))"
  using al_levels_eq by simp

text \<open>Word \<open>j\<close> of level \<open>k\<close>, and when it counts as full.\<close>

definition al_word :: "allocator \<Rightarrow> nat \<Rightarrow> nat \<Rightarrow> u64" where
  "al_word a k j = al_mask a ! (lev_off k + j)"

definition al_full :: "allocator \<Rightarrow> nat \<Rightarrow> nat \<Rightarrow> bool" where
  "al_full a k j \<longleftrightarrow>
     al_word a k j = (if k < al_depth (al_size a) \<or> j < al_size a div 64
                      then UINT64_MAX else al_last_one_mask a)"

abbreviation al_bit :: "allocator \<Rightarrow> nat \<Rightarrow> nat \<Rightarrow> bool" where
  "al_bit a k c \<equiv> bit (al_word a k (c div 64)) (c mod 64)"

text \<open>Bit \<open>c\<close> of inner level \<open>k\<close> tells whether word \<open>c\<close> of the level below exists and is full.\<close>

definition al_link :: "allocator \<Rightarrow> nat \<Rightarrow> nat \<Rightarrow> bool" where
  "al_link a k c \<longleftrightarrow>
     (k < al_depth (al_size a) \<and> c < 64 ^ Suc k \<longrightarrow>
        al_bit a k c = (c < lev_words (al_size a) (Suc k) \<and> al_full a (Suc k) c))"

definition al_shape :: "allocator \<Rightarrow> bool" where
  "al_shape a \<longleftrightarrow>
     2 \<le> al_size a \<and> al_size a < 2 ^ 31 \<and>
     al_total a = lev_off (al_depth (al_size a)) + (al_size a + 63) div 64 \<and>
     length (al_mask a) = al_total a \<and>
     al_last_one_mask a = (if al_size a mod 64 = 0 then UINT64_MAX
                           else push_bit (al_size a mod 64) 1 - 1)"

text \<open>The set of blocks marked as used.\<close>

definition al_used :: "allocator \<Rightarrow> nat set" where
  "al_used a = {addr. addr < al_size a \<and> al_bit a (al_depth (al_size a)) addr}"

definition al_tail_clear :: "allocator \<Rightarrow> bool" where
  "al_tail_clear a \<longleftrightarrow>
     (\<forall>c. al_size a \<le> c \<and> c < 64 * ((al_size a + 63) div 64) \<longrightarrow>
        \<not> al_bit a (al_depth (al_size a)) c)"

definition allocator_inv :: "allocator \<Rightarrow> bool" where
  "allocator_inv a \<longleftrightarrow>
     al_shape a \<and> al_tail_clear a \<and> (\<forall>k c. al_link a k c) \<and>
     al_free a = of_nat (al_size a - card (al_used a))"

section \<open>Reading the array\<close>

lemma lev_pos_in_range:
  assumes "al_shape a" "k \<le> al_depth (al_size a)" "j < lev_words (al_size a) k"
  shows "lev_off k + j < length (al_mask a)"
proof (cases "k = al_depth (al_size a)")
  case True
  with assms show ?thesis by (simp add: al_shape_def lev_words_def)
next
  case False
  with assms have "lev_off k + 64 ^ k \<le> lev_off (al_depth (al_size a))" "j < 64 ^ k"
    using lev_off_mono [of k] by (auto simp: lev_words_def)
  with assms show ?thesis by (simp add: al_shape_def)
qed

lemma lev_pos_inj:
  assumes "j < 64 ^ k" "j' < 64 ^ k'" "lev_off k + j = lev_off k' + j'"
  shows "k = k' \<and> j = j'"
proof -
  have "\<not> k < k'" "\<not> k' < k"
    using lev_off_mono [of k k'] lev_off_mono [of k' k] assms by auto
  then show ?thesis using assms by auto
qed

lemma al_word_update:
  assumes "al_shape a" "k \<le> al_depth (al_size a)" "j < lev_words (al_size a) k" "j' < 64 ^ k'"
  shows "al_word (a\<lparr>al_mask := (al_mask a)[lev_off k + j := w]\<rparr>) k' j'
       = (if k' = k \<and> j' = j then w else al_word a k' j')"
proof -
  have "j < 64 ^ k"
    using assms(3) lev_words_le [of "al_size a" k] by simp
  then have "lev_off k + j = lev_off k' + j' \<longleftrightarrow> k' = k \<and> j' = j"
    using lev_pos_inj [of j k j' k'] assms(4) by auto
  then show ?thesis
    using lev_pos_in_range [OF assms(1-3)] by (auto simp: al_word_def nth_list_update)
qed

lemma c_div_lt: "c < 64 * (n::nat) \<Longrightarrow> c div 64 < n"
  by (simp add: less_mult_imp_div_less mult.commute)

lemma addr_in_lev:
  assumes "addr < sz"
  shows "addr div 64 < lev_words sz (al_depth sz)"
  using assms by (auto simp: lev_words_def intro: c_div_lt)

theorem allocator_get_iff:
  "allocator_get a addr \<longleftrightarrow> addr \<in> al_used a"
  by (auto simp: allocator_get_def al_levels_eq_Suc al_used_def al_word_def drop_bit_and_one_iff_bit)

text \<open>A full word has every bit of an existing child or block set.\<close>

lemma full_bit:
  assumes "al_shape a" "al_full a k (c div 64)" "k < al_depth (al_size a) \<or> c < al_size a"
  shows "al_bit a k c"
proof (cases "k < al_depth (al_size a) \<or> c div 64 < al_size a div 64")
  case True
  with assms show ?thesis by (auto simp: al_full_def)
next
  case False
  with assms(3) have c: "c < al_size a" "\<not> c div 64 < al_size a div 64" by auto
  then have d: "c div 64 = al_size a div 64"
    using div_le_mono [of c "al_size a" 64] by simp
  with c(1) have "c mod 64 < al_size a mod 64"
    using div_mult_mod_eq [of c 64] div_mult_mod_eq [of "al_size a" 64] by linarith
  with assms False d show ?thesis
    by (auto simp: al_full_def al_shape_def bit_mask_word_iff split: if_splits)
qed

section \<open>Construction\<close>

lemma allocator_new_ok: "2 \<le> n \<Longrightarrow> n < 2 ^ 31 \<Longrightarrow> \<exists>a. allocator_new n = Inr a"
  by (simp add: allocator_new_def al_levels_eq_Suc Let_def)

lemma allocator_new_shape:
  "allocator_new n = Inr a \<Longrightarrow> al_shape a \<and> al_size a = n"
  by (auto simp: allocator_new_def al_levels_eq_Suc al_shape_def Let_def split: if_splits)

lemma allocator_new_word:
  assumes "allocator_new n = Inr a" "k \<le> al_depth n" "j < lev_words n k"
  shows "al_word a k j = 0"
proof -
  from assms allocator_new_shape [OF assms(1)] have "lev_off k + j < length (al_mask a)"
    by (auto intro: lev_pos_in_range)
  with assms(1) show ?thesis
    by (auto simp: allocator_new_def al_levels_eq_Suc al_word_def Let_def split: if_splits)
qed

lemma word_zero_not_full:
  assumes "al_shape a" "al_word a k c = 0" "c < lev_words (al_size a) k" "k \<le> al_depth (al_size a)"
  shows "\<not> al_full a k c"
proof
  assume "al_full a k c"
  moreover from assms(3,4) have "k < al_depth (al_size a) \<or> 64 * c < al_size a"
    by (auto simp: lev_words_def split: if_splits)
  ultimately have "al_bit a k (64 * c)"
    using full_bit [OF assms(1), of k "64 * c"] by simp
  with assms(2) show False by simp
qed

lemma lev_word_index:
  assumes "k < al_depth sz" "c < 64 ^ Suc k"
  shows "c div 64 < lev_words sz k"
  using assms by (auto simp: lev_words_def intro: c_div_lt)

lemma allocator_new_inv:
  assumes "allocator_new n = Inr a"
  shows "allocator_inv a \<and> al_size a = n \<and> al_used a = {}"
proof -
  note sh = allocator_new_shape [OF assms]
  note zero = allocator_new_word [OF assms]
  have used: "al_used a = {}"
    using sh zero addr_in_lev by (auto simp: al_used_def)
  have "al_link a k c" for k c
  proof -
    have "\<not> al_bit a k c \<and> \<not> (c < lev_words n (Suc k) \<and> al_full a (Suc k) c)"
      if "k < al_depth n" "c < 64 ^ Suc k"
      using that sh zero [of "Suc k" c] zero [of k "c div 64"] lev_word_index [OF that]
        word_zero_not_full [of a "Suc k" c] by auto
    with sh show ?thesis by (auto simp: al_link_def)
  qed
  moreover have "al_tail_clear a"
    using sh zero by (auto simp: al_tail_clear_def lev_words_def dest!: c_div_lt)
  moreover have "al_free a = of_nat n"
    using assms by (auto simp: allocator_new_def Let_def split: if_splits prod.splits)
  ultimately show ?thesis
    using sh used by (simp add: allocator_inv_def)
qed

section \<open>Setting and clearing a block\<close>

lemma al_shape_cong:
  "al_size a' = al_size a \<Longrightarrow> al_total a' = al_total a \<Longrightarrow> length (al_mask a') = length (al_mask a)
   \<Longrightarrow> al_last_one_mask a' = al_last_one_mask a \<Longrightarrow> al_shape a' = al_shape a"
  by (simp add: al_shape_def)

text \<open>The state after one iteration at bit \<open>c\<close> of level \<open>k\<close> that changes the bit.\<close>

definition set_step :: "bool \<Rightarrow> nat \<Rightarrow> nat \<Rightarrow> allocator \<Rightarrow> allocator" where
  "set_step val k c a =
     a\<lparr>al_free := al_free a + (if k = al_depth (al_size a) then if val then -1 else 1 else 0),
       al_mask := (al_mask a)[lev_off k + c div 64 :=
         (if val then al_word a k (c div 64) OR push_bit (c mod 64) 1
          else al_word a k (c div 64) AND NOT (push_bit (c mod 64) 1))]\<rparr>"

lemma set_step_simps [simp]:
  "al_size (set_step val k c a) = al_size a"
  "al_total (set_step val k c a) = al_total a"
  "al_last_one_mask (set_step val k c a) = al_last_one_mask a"
  "length (al_mask (set_step val k c a)) = length (al_mask a)"
  by (simp_all add: set_step_def)

lemma set_step_free:
  "al_free (set_step val k c a) =
     al_free a + (if k = al_depth (al_size a) then if val then -1 else 1 else 0)"
  by (simp add: set_step_def)

lemma set_step_shape [simp]: "al_shape (set_step val k c a) = al_shape a"
  by (rule al_shape_cong) simp_all

definition in_level :: "allocator \<Rightarrow> nat \<Rightarrow> nat \<Rightarrow> bool" where
  "in_level a k c \<longleftrightarrow> k \<le> al_depth (al_size a) \<and>
     (if k = al_depth (al_size a) then c < al_size a else c < lev_words (al_size a) (Suc k))"

lemma in_level_word: "in_level a k c \<Longrightarrow> c div 64 < lev_words (al_size a) k"
  using addr_in_lev [of c "al_size a"] lev_words_le [of "al_size a" "Suc k"]
  by (auto simp: in_level_def lev_words_def [of _ k] intro: c_div_lt split: if_splits)

lemma in_level_up:
  assumes "in_level a (Suc k) c"
  shows "in_level a k (c div 64)"
  using in_level_word [OF assms] assms by (auto simp: in_level_def)

lemma in_level_lt: "in_level a k c \<Longrightarrow> c < 64 ^ Suc k"
  using al_depth_covers [of "al_size a"] lev_words_le [of "al_size a" "Suc k"]
  by (auto simp: in_level_def split: if_splits)

lemma set_step_word:
  assumes "al_shape a" "in_level a k c" "j < 64 ^ k'" "(k', j) \<noteq> (k, c div 64)"
  shows "al_word (set_step val k c a) k' j = al_word a k' j"
proof -
  have "lev_off k + c div 64 \<noteq> lev_off k' + j"
    using lev_pos_inj [of "c div 64" k j k'] assms in_level_lt [OF assms(2)] by (auto intro: c_div_lt)
  then show ?thesis
    by (auto simp: set_step_def al_word_def)
qed

lemma set_step_bit:
  assumes "al_shape a" "in_level a k c" "c' < 64 ^ Suc k"
  shows "al_bit (set_step val k c a) k c' = (if c' = c then val else al_bit a k c')"
proof (cases "c' div 64 = c div 64")
  case False
  then have "c' \<noteq> c" by auto
  with False show ?thesis
    using set_step_word [OF assms(1,2), of "c' div 64" k val] assms(3) by (auto intro: c_div_lt)
next
  case True
  have "lev_off k + c div 64 < length (al_mask a)"
    using lev_pos_in_range [OF assms(1), of k] in_level_word [OF assms(2)] assms(2)
    by (simp add: in_level_def)
  then have w: "al_word (set_step val k c a) k (c div 64)
      = (if val then al_word a k (c div 64) OR 2 ^ (c mod 64)
         else al_word a k (c div 64) AND NOT (2 ^ (c mod 64)))"
    by (simp add: set_step_def al_word_def)
  have "c' mod 64 = c mod 64 \<longleftrightarrow> c' = c"
    using True by (metis div_mult_mod_eq)
  with True w show ?thesis
    by (auto simp: bit_or_single_iff bit_and_not_single_iff)
qed

lemma set_step_full_other:
  assumes "al_shape a" "in_level a k c" "j < 64 ^ k'" "(k', j) \<noteq> (k, c div 64)"
  shows "al_full (set_step val k c a) k' j = al_full a k' j"
  using set_step_word [OF assms] by (simp add: al_full_def)

lemma set_step_not_full:
  assumes "al_shape a" "in_level a k c"
  shows "\<not> al_bit a k c \<Longrightarrow> \<not> al_full a k (c div 64)"
    and "\<not> al_full (set_step False k c a) k (c div 64)"
proof -
  have r: "k < al_depth (al_size a) \<or> c < al_size a"
    using assms(2) by (auto simp: in_level_def split: if_splits)
  show "\<not> al_bit a k c \<Longrightarrow> \<not> al_full a k (c div 64)"
    using full_bit [OF assms(1)] r by blast
  show "\<not> al_full (set_step False k c a) k (c div 64)"
    using full_bit [of "set_step False k c a" k c] r assms set_step_bit [OF assms, of c False]
      in_level_lt [OF assms(2)] by auto
qed

text \<open>One iteration repairs the link of the bit it writes and can only break the link of the
  bit above it.\<close>

lemma set_step_link:
  assumes "al_shape a" "in_level a k c"
    and links: "\<And>k' c'. (k', c') \<noteq> (k, c) \<Longrightarrow> al_link a k' c'"
    and below: "k < al_depth (al_size a) \<Longrightarrow> al_full a (Suc k) c = val"
    and other: "Suc k' \<noteq> k \<or> c' \<noteq> c div 64"
  shows "al_link (set_step val k c a) k' c'"
proof -
  have "al_bit (set_step val k c a) k' c'
      = (c' < lev_words (al_size a) (Suc k') \<and> al_full (set_step val k c a) (Suc k') c')"
    if kc: "k' < al_depth (al_size a)" "c' < 64 ^ Suc k'"
  proof -
    have full: "al_full (set_step val k c a) (Suc k') c' = al_full a (Suc k') c'"
      using set_step_full_other [OF assms(1,2) kc(2)] other by auto
    show ?thesis
    proof (cases "k' = k")
      case True
      then show ?thesis
        using set_step_bit [OF assms(1,2), of c' val] full below links [of k c'] kc assms(2)
        by (auto simp: al_link_def in_level_def)
    next
      case False
      then show ?thesis
        using set_step_word [OF assms(1,2), of "c' div 64" k' val] full links [of k' c'] kc
        by (auto simp: al_link_def intro: c_div_lt)
    qed
  qed
  then show ?thesis by (simp add: al_link_def)
qed

lemma set_step_eq:
  "set_step val k c a =
     (let a' = (if k = al_depth (al_size a)
                then a\<lparr>al_free := al_free a + (if val then -1 else 1)\<rparr> else a);
          w = al_mask a' ! (lev_off k + c div 64)
      in a'\<lparr>al_mask := (al_mask a')[lev_off k + c div 64 :=
           (if val then w OR push_bit (c mod 64) 1 else w AND NOT (push_bit (c mod 64) 1))]\<rparr>)"
  by (simp add: set_step_def al_word_def Let_def)

lemma set_step_new_word:
  assumes "al_shape a" "in_level a k c"
  shows "al_word (set_step val k c a) k (c div 64) =
    (if val then al_word a k (c div 64) OR push_bit (c mod 64) 1
     else al_word a k (c div 64) AND NOT (push_bit (c mod 64) 1))"
proof -
  have "lev_off k + c div 64 < length (al_mask a)"
    using lev_pos_in_range [OF assms(1), of k] in_level_word [OF assms(2)] assms(2)
    by (simp add: in_level_def)
  then show ?thesis
    by (simp add: set_step_def al_word_def)
qed

lemma set_loop_unfold:
  assumes "al_shape a" "in_level a k c"
  shows "allocator_set_loop val (64 ^ k) (lev_off k) c (k = al_depth (al_size a)) a =
    (if al_bit a k c = val then a
     else if val \<and> \<not> al_full (set_step val k c a) k (c div 64) then set_step val k c a
     else case k of 0 \<Rightarrow> set_step val k c a
       | Suc k' \<Rightarrow> allocator_set_loop val (64 ^ k') (lev_off k') (c div 64) False
                   (set_step val k c a))"
proof -
  have "k < al_depth (al_size a) \<longleftrightarrow> k \<noteq> al_depth (al_size a)"
    using assms(2) by (auto simp: in_level_def)
  then have full: "al_full (set_step val k c a) k (c div 64) \<longleftrightarrow>
      (if val then al_word a k (c div 64) OR push_bit (c mod 64) 1
       else al_word a k (c div 64) AND NOT (push_bit (c mod 64) 1)) =
      (if k \<noteq> al_depth (al_size a) \<or> c div 64 < al_size a div 64
       then UINT64_MAX else al_last_one_mask a)"
    unfolding al_full_def set_step_new_word [OF assms] by simp
  have lv: "64 ^ Suc k' div 64 = (64::nat) ^ k'" "lev_off (Suc k') - 64 ^ k' = lev_off k'"
    "Suc 0 < 64 ^ Suc k'" for k'
    using one_less_power [of "64::nat" "Suc k'"] by simp_all
  obtain il where il: "(k = al_depth (al_size a)) = il" by blast
  show ?thesis
    unfolding allocator_set_loop.simps [of val "64 ^ k"] full
    unfolding set_step_eq Let_def al_word_def drop_bit_and_one_iff_bit il
    by (cases k; cases val; cases il; cases "bit (al_mask a ! (lev_off k + c div 64)) (c mod 64)";
        cases "c div 64 < al_size a div 64")
      (simp_all add: lv del: power_Suc lev_off.simps(2) push_bit_of_1)
qed

lemma set_loop_cases:
  fixes val :: bool
  assumes "al_shape a" "in_level a k c"
  obtains (same) "al_bit a k c = val"
      "allocator_set_loop val (64 ^ k) (lev_off k) c (k = al_depth (al_size a)) a = a"
    | (stop) "al_bit a k c \<noteq> val" "k = 0 \<or> (val \<and> \<not> al_full (set_step val k c a) k (c div 64))"
      "allocator_set_loop val (64 ^ k) (lev_off k) c (k = al_depth (al_size a)) a = set_step val k c a"
    | (up) k' where "al_bit a k c \<noteq> val" "k = Suc k'" "al_full (set_step val k c a) k (c div 64) = val"
      "allocator_set_loop val (64 ^ k) (lev_off k) c (k = al_depth (al_size a)) a =
       allocator_set_loop val (64 ^ k') (lev_off k') (c div 64)
         (k' = al_depth (al_size (set_step val k c a))) (set_step val k c a)"
      "in_level (set_step val k c a) k' (c div 64)"
proof -
  note unf = set_loop_unfold [OF assms, of val]
  show thesis
  proof (cases "al_bit a k c = val")
    case True
    with unf show thesis by (intro same) auto
  next
    case False
    show thesis
    proof (cases "k = 0 \<or> (val \<and> \<not> al_full (set_step val k c a) k (c div 64))")
      case True
      with False unf show thesis by (intro stop) auto
    next
      case up': False
      then obtain k' where k': "k = Suc k'" by (cases k) auto
      have "in_level (set_step val k c a) k' (c div 64)"
        using in_level_up [of a k' c] assms(2) k' by (simp add: in_level_def)
      moreover have "k' \<noteq> al_depth (al_size a)"
        using assms(2) k' by (auto simp: in_level_def)
      moreover have "al_full (set_step val k c a) k (c div 64) = val"
        using up' set_step_not_full(2) [OF assms] by (cases val) auto
      ultimately show thesis
        using False up' k' unf by (intro up [of k']) (auto)
    qed
  qed
qed

lemma set_loop_frame:
  fixes val :: bool
  assumes "al_shape a" "in_level a k c"
  defines "a' \<equiv> allocator_set_loop val (64 ^ k) (lev_off k) c (k = al_depth (al_size a)) a"
  shows "al_shape a' \<and> al_size a' = al_size a \<and>
    al_free a' = al_free a + (if k = al_depth (al_size a) \<and> al_bit a k c \<noteq> val
                              then if val then -1 else 1 else 0) \<and>
    (\<forall>k' j. k < k' \<and> j < 64 ^ k' \<longrightarrow> al_word a' k' j = al_word a k' j) \<and>
    (\<forall>c' < 64 ^ Suc k. al_bit a' k c' = (if c' = c then val else al_bit a k c'))"
  using assms(1,2) unfolding a'_def
proof (induction k arbitrary: a c rule: less_induct)
  case (less k)
  note bits = set_step_bit [OF less.prems, of _ val]
  note words = set_step_word [OF less.prems, of _ _ val]
  from less.prems show ?case
  proof (cases rule: set_loop_cases [where val = val])
    case same
    then show ?thesis using less.prems by simp
  next
    case stop
    then show ?thesis using less.prems bits words by (simp add: set_step_free)
  next
    case (up k')
    let ?r = "allocator_set_loop val (64 ^ k') (lev_off k') (c div 64)
         (k' = al_depth (al_size (set_step val k c a))) (set_step val k c a)"
    have IH: "al_shape ?r" "al_size ?r = al_size a" "al_free ?r = al_free (set_step val k c a)"
      "\<And>k'' j. k' < k'' \<Longrightarrow> j < 64 ^ k'' \<Longrightarrow> al_word ?r k'' j = al_word (set_step val k c a) k'' j"
      using less.IH [of k' "set_step val k c a" "c div 64"] up less.prems
      by (auto simp: in_level_def)
    have "al_word ?r k'' j = al_word a k'' j" if "k < k''" "j < 64 ^ k''" for k'' j
      using IH(4) [of k'' j] words [of j k''] that up by simp
    moreover have "al_bit ?r k c' = al_bit (set_step val k c a) k c'" if "c' < 64 ^ Suc k" for c'
      using IH(4) [of k "c' div 64"] that up by (simp add: c_div_lt)
    ultimately show ?thesis
      unfolding up(4) using IH(1-3) up(1) bits by (simp add: set_step_free)
  qed
qed

lemma set_loop_links:
  fixes val :: bool
  assumes "al_shape a" "in_level a k c"
    and "\<And>k' c'. (k', c') \<noteq> (k, c) \<Longrightarrow> al_link a k' c'"
    and "k < al_depth (al_size a) \<Longrightarrow> al_full a (Suc k) c = val"
  shows "al_link (allocator_set_loop val (64 ^ k) (lev_off k) c (k = al_depth (al_size a)) a) k' c'"
  using assms
proof (induction k arbitrary: a c rule: less_induct)
  case (less k)
  have others: "al_link (set_step val k c a) k'' c''" if "Suc k'' \<noteq> k \<or> c'' \<noteq> c div 64" for k'' c''
    using set_step_link [OF less.prems that] .
  from less.prems(1,2) show ?case
  proof (cases rule: set_loop_cases [where val = val])
    case same
    then have "al_link a k c"
      using less.prems by (auto simp: al_link_def in_level_def split: if_splits)
    then show ?thesis
      unfolding same(2) using less.prems(3) by (cases "(k', c') = (k, c)") auto
  next
    case stop
    have "al_link (set_step val k c a) k'' (c div 64)" if "k = Suc k''" for k''
    proof -
      have kd: "k'' < al_depth (al_size a)" "c div 64 < 64 ^ Suc k''"
        using less.prems(2) in_level_lt [OF less.prems(2)] that
        by (auto simp: in_level_def intro: c_div_lt)
      have nf: "val" "\<not> al_full (set_step val k c a) k (c div 64)" "\<not> al_bit a k c"
        using stop that by auto
      have "\<not> al_bit a k'' (c div 64)"
        using less.prems(3) [of k'' "c div 64"] set_step_not_full(1) [OF less.prems(1,2) nf(3)] that kd
        by (auto simp: al_link_def)
      then show ?thesis
        using nf kd that set_step_word [OF less.prems(1,2), of "c div 64 div 64" k'' val]
        by (auto simp: al_link_def c_div_lt)
    qed
    with others show ?thesis
      unfolding stop(3) by (cases "Suc k' \<noteq> k \<or> c' \<noteq> c div 64") auto
  next
    case (up k'')
    show ?thesis
      unfolding up(4)
    proof (rule less.IH)
      show "al_link (set_step val k c a) k1 c1" if "(k1, c1) \<noteq> (k'', c div 64)" for k1 c1
        using others that up(2) by auto
    qed (use up less.prems in auto)
  qed
qed

lemma al_used_subset: "al_used a \<subseteq> {..<al_size a}"
  by (auto simp: al_used_def)

lemma al_used_finite [simp]: "finite (al_used a)"
  using al_used_subset finite_subset by blast

lemma al_used_card_le: "card (al_used a) \<le> al_size a"
  using card_mono [OF _ al_used_subset [of a]] by simp

lemma allocator_set_used:
  assumes "al_shape a" "addr < al_size a"
  shows "al_size (allocator_set a addr val) = al_size a"
    and "al_used (allocator_set a addr val)
       = (if val then insert addr (al_used a) else al_used a - {addr})"
    and "al_free (allocator_set a addr val) = al_free a +
       (if (addr \<in> al_used a) \<noteq> val then if val then -1 else 1 else 0)"
    and "al_tail_clear a \<Longrightarrow> al_tail_clear (allocator_set a addr val)"
    and "al_shape (allocator_set a addr val)"
proof -
  have il: "in_level a (al_depth (al_size a)) addr"
    using assms by (simp add: in_level_def)
  have eq: "allocator_set a addr val = allocator_set_loop val (64 ^ al_depth (al_size a))
      (lev_off (al_depth (al_size a))) addr (al_depth (al_size a) = al_depth (al_size a)) a"
    using assms(2) by (simp add: allocator_set_def al_levels_eq_Suc)
  note fr = set_loop_frame [OF assms(1) il, of val, folded eq]
  have cover: "c < 64 ^ Suc (al_depth (al_size a))" if "c < 64 * ((al_size a + 63) div 64)" for c
    using that lev_words_le [of "al_size a" "al_depth (al_size a)"] by (simp add: lev_words_def)
  have cover': "c < 64 ^ Suc (al_depth (al_size a))" if "c < al_size a" for c
    using that by (intro cover) simp
  have b: "al_bit (allocator_set a addr val) (al_depth (al_size a)) c
      = (if c = addr then val else al_bit a (al_depth (al_size a)) c)" if "c < al_size a" for c
    using fr cover' [OF that] by blast
  show "al_size (allocator_set a addr val) = al_size a" "al_shape (allocator_set a addr val)"
    using fr by auto
  show "al_used (allocator_set a addr val)
       = (if val then insert addr (al_used a) else al_used a - {addr})"
    using b fr by (auto simp: al_used_def assms(2) split: if_splits)
  show "al_free (allocator_set a addr val) = al_free a +
       (if (addr \<in> al_used a) \<noteq> val then if val then -1 else 1 else 0)"
    using fr assms(2) by (simp add: al_used_def)
  show "al_tail_clear (allocator_set a addr val)" if "al_tail_clear a"
    using that fr cover assms(2) by (auto simp: al_tail_clear_def)
qed

lemma allocator_set_links:
  assumes "al_shape a" "addr < al_size a" "\<And>k c. al_link a k c"
  shows "al_link (allocator_set a addr val) k c"
proof -
  have "in_level a (al_depth (al_size a)) addr"
    using assms by (simp add: in_level_def)
  then show ?thesis
    using set_loop_links [OF assms(1), of "al_depth (al_size a)" addr val k c] assms
    by (simp add: allocator_set_def al_levels_eq_Suc)
qed

lemma allocator_set_inv:
  assumes "allocator_inv a"
  shows "allocator_inv (allocator_set a addr val)"
proof (cases "addr < al_size a")
  case False
  with assms show ?thesis by (simp add: allocator_set_def)
next
  case True
  have sh: "al_shape a" "al_tail_clear a" "\<And>k c. al_link a k c"
    and free: "al_free a = of_nat (al_size a - card (al_used a))"
    using assms by (auto simp: allocator_inv_def)
  note su = allocator_set_used [OF sh(1) True]
  let ?n = "al_size a" and ?u = "card (al_used a)"
  have "al_free (allocator_set a addr val)
      = of_nat (al_size a - card (al_used (allocator_set a addr val)))"
  proof (cases "(addr \<in> al_used a) = val")
    case True
    then have "al_used (allocator_set a addr val) = al_used a"
      using su(2) by auto
    with True su(3) free show ?thesis by simp
  next
    case False
    show ?thesis
    proof (cases val)
      case True
      with False have "insert addr (al_used a) \<subseteq> {..<?n}" "addr \<notin> al_used a"
        using \<open>addr < al_size a\<close> al_used_subset by auto
      then have "Suc ?u \<le> ?n"
        using card_mono [of "{..<?n}" "insert addr (al_used a)"] by simp
      then have "?n - ?u = Suc (?n - Suc ?u)" by simp
      then have "of_nat (?n - ?u) - 1 = (of_nat (?n - Suc ?u) :: u64)"
        by (simp only: of_nat_Suc) simp
      with True False su free \<open>addr \<notin> al_used a\<close> show ?thesis by simp
    next
      case v: False
      with False have "addr \<in> al_used a" by simp
      moreover from this have "?u > 0"
        by (auto simp: card_gt_0_iff)
      ultimately have "?n - (?u - 1) = Suc (?n - ?u)"
        using al_used_card_le [of a] by simp
      with v False su free \<open>addr \<in> al_used a\<close> show ?thesis
        by (simp add: add.commute)
    qed
  qed
  with su sh allocator_set_links [OF sh(1) True sh(3)] show ?thesis
    by (simp add: allocator_inv_def)
qed
section \<open>Finding a free block\<close>

lemma find_clear_bit_from:
  assumes "i \<le> 64" "\<And>j. j < i \<Longrightarrow> bit m j"
  shows "find_clear_bit m i (2 ^ i) \<le> 64 \<and>
    (\<forall>j < find_clear_bit m i (2 ^ i). bit m j) \<and>
    (find_clear_bit m i (2 ^ i) < 64 \<longrightarrow> \<not> bit m (find_clear_bit m i (2 ^ i)))"
  using assms
proof (induction "64 - i" arbitrary: i)
  case 0
  then show ?case by (subst (1 2 3 4) find_clear_bit.simps) auto
next
  case (Suc n)
  then have i: "i < 64" by simp
  have b: "(m AND 2 ^ i = 0) \<longleftrightarrow> \<not> bit m i"
    using and_single_bit_eq_0_iff [of i m] i by simp
  have sh: "push_bit 1 (2 ^ i) = (2 ^ Suc i :: u64)"
    by (simp add: push_bit_eq_mult)
  have r: "find_clear_bit m i (2 ^ i) =
      (if \<not> bit m i then i else find_clear_bit m (Suc i) (2 ^ Suc i))"
    using i b sh by (subst find_clear_bit.simps) (simp add: mult.commute)
  show ?case
  proof (cases "bit m i")
    case False
    with r i Suc.prems show ?thesis by simp
  next
    case True
    have "\<And>j. j < Suc i \<Longrightarrow> bit m j"
      using Suc.prems(2) True less_Suc_eq by auto
    with Suc.hyps(1) [of "Suc i"] Suc.hyps(2) i True r show ?thesis by simp
  qed
qed

lemmas find_clear_bit_spec = find_clear_bit_from [of 0, simplified]

text \<open>All blocks under word \<open>j\<close> of level \<open>k\<close> are used when the word is full.\<close>

lemma full_all_used:
  assumes "allocator_inv a" "k \<le> al_depth (al_size a)" "al_full a k j" "j < lev_words (al_size a) k"
    and "x < al_size a" "x div 64 ^ (Suc (al_depth (al_size a)) - k) = j"
  shows "x \<in> al_used a"
  using assms(2-4,6)
proof (induction "al_depth (al_size a) - k" arbitrary: k j)
  case 0
  then have k: "k = al_depth (al_size a)" by simp
  with 0 have "j = x div 64" by simp
  with 0 k show ?case
    using full_bit [of a k x] assms(1,5) by (auto simp: allocator_inv_def al_used_def)
next
  case (Suc n)
  let ?d = "al_depth (al_size a)" and ?c = "x div 64 ^ (Suc (al_depth (al_size a)) - Suc k)"
  have kd: "k < ?d" using Suc.hyps(2) by simp
  then have e: "Suc ?d - k = Suc (Suc ?d - Suc k)" by simp
  have c: "?c div 64 = j"
    using Suc.prems(4) unfolding e by (simp add: div_mult2_eq [symmetric] mult.commute)
  have lim: "?c < 64 ^ Suc k"
  proof -
    have "x < 64 ^ (Suc k + (Suc ?d - Suc k))"
      using assms(5) al_depth_covers [of "al_size a"] kd by simp
    then show ?thesis
      by (metis less_mult_imp_div_less power_add)
  qed
  have "al_bit a k ?c"
    using full_bit [of a k ?c] assms(1) Suc.prems(2) c kd by (auto simp: allocator_inv_def)
  then have "?c < lev_words (al_size a) (Suc k) \<and> al_full a (Suc k) ?c"
    using assms(1) kd lim by (auto simp: allocator_inv_def al_link_def)
  then show ?case
    using Suc.hyps kd by (intro Suc.hyps(1) [of "Suc k" ?c]) auto
qed

lemma all_used_full:
  assumes "allocator_inv a" "\<And>x. x < al_size a \<Longrightarrow> x \<in> al_used a"
    "j < lev_words (al_size a) (al_depth (al_size a))"
  shows "al_full a (al_depth (al_size a)) j"
proof -
  let ?d = "al_depth (al_size a)" and ?n = "al_size a"
  have j: "64 * j < ?n" "64 * j + 63 < 64 * ((?n + 63) div 64)"
    using assms(3) by (auto simp: lev_words_def)
  have bits: "bit (al_word a ?d j) i \<longleftrightarrow> 64 * j + i < ?n" if "i < 64" for i
  proof -
    have "(64 * j + i) div 64 = j" "(64 * j + i) mod 64 = i"
      using that by auto
    moreover have "\<not> al_bit a ?d (64 * j + i)" if "\<not> 64 * j + i < ?n"
    proof -
      have "?n \<le> 64 * j + i \<and> 64 * j + i < 64 * ((?n + 63) div 64)"
        using that j \<open>i < 64\<close> by simp
      then show ?thesis
        using assms(1) unfolding allocator_inv_def al_tail_clear_def by blast
    qed
    ultimately show ?thesis
      using assms(2) [of "64 * j + i"] by (cases "64 * j + i < ?n") (auto simp: al_used_def)
  qed
  show ?thesis
  proof (cases "j < ?n div 64")
    case True
    then have "64 * j + i < ?n" if "i < 64" for i
      using that by linarith
    with bits True show ?thesis
      by (simp add: al_full_def word_eq_minus_one_iff)
  next
    case False
    with j have "j = ?n div 64"
      by linarith
    moreover from this have "?n mod 64 \<noteq> 0"
      using j(1) div_mult_mod_eq [of ?n 64] by linarith
    ultimately have "64 * j + i < ?n \<longleftrightarrow> i < ?n mod 64" for i
      using div_mult_mod_eq [of ?n 64] by linarith
    with bits False \<open>?n mod 64 \<noteq> 0\<close> assms(1) show ?thesis
      by (auto simp: al_full_def allocator_inv_def al_shape_def bit_mask_word_iff
          intro!: bit_word_eqI)
  qed
qed
text \<open>The loop invariant of \<open>find_free\<close> on entering level \<open>k\<close> at word \<open>c\<close>: every block before
  the subtree of \<open>c\<close> is used and, below the root, the word \<open>c\<close> is absent or not full.\<close>

definition ff_inv :: "allocator \<Rightarrow> nat \<Rightarrow> nat \<Rightarrow> bool" where
  "ff_inv a k c \<longleftrightarrow>
     c < 64 ^ k \<and> k \<le> Suc (al_depth (al_size a)) \<and>
     (\<forall>x < al_size a. x div 64 ^ (Suc (al_depth (al_size a)) - k) < c \<longrightarrow> x \<in> al_used a) \<and>
     (0 < k \<and> k \<le> al_depth (al_size a) \<longrightarrow> \<not> (c < lev_words (al_size a) k \<and> al_full a k c)) \<and>
     (k = Suc (al_depth (al_size a)) \<longrightarrow> c \<notin> al_used a)"

lemma allocator_inv_link: "allocator_inv a \<Longrightarrow> al_link a k c"
  by (simp add: allocator_inv_def)

lemma find_free_loop_exit:
  assumes "al_shape a" "k = Suc (al_depth (al_size a))"
  shows "find_free_loop a (64 ^ k) (lev_off k) c = of_nat c"
  using assms above_depth [of "al_size a" k] by (subst find_free_loop.simps) simp

lemma find_free_loop_step:
  assumes "al_shape a" "k \<le> al_depth (al_size a)" "c < 64 ^ k"
  shows "find_free_loop a (64 ^ k) (lev_off k) c =
    (if c < lev_words (al_size a) k \<and> find_clear_bit (al_word a k c) 0 1 < 64
     then find_free_loop a (64 ^ Suc k) (lev_off (Suc k)) (64 * c + find_clear_bit (al_word a k c) 0 1)
     else UINT64_MAX)"
proof -
  let ?n = "al_size a" and ?d = "al_depth (al_size a)" and ?i = "find_clear_bit (al_word a k c) 0 1"
  have "64 ^ k < ?n"
  proof (cases "k = 0")
    case True
    with assms(1) show ?thesis by (simp add: al_shape_def)
  next
    case False
    then have "64 * 64 ^ (k - 1) < ?n"
      using assms(2) by (intro below_depth) simp
    with False show ?thesis by (simp flip: power_Suc)
  qed
  moreover have "al_total a \<le> lev_off k + c \<longleftrightarrow> \<not> c < lev_words ?n k"
    using assms lev_off_mono [of k ?d] by (auto simp: al_shape_def lev_words_def)
  moreover have "?i \<le> 64"
    using find_clear_bit_spec by simp
  moreover have "c * 64 OR ?i = 64 * c + ?i" if "?i < 64"
    using or_low_bits_eq_add [of ?i 6 c] that by (simp add: mult.commute)
  ultimately show ?thesis
    by (subst find_free_loop.simps) (auto simp: Let_def al_word_def mult.commute)
qed

lemma ff_inv_step:
  assumes inv: "allocator_inv a" and ff: "ff_inv a k c" and k: "k \<le> al_depth (al_size a)"
    and c: "c < lev_words (al_size a) k" and i: "find_clear_bit (al_word a k c) 0 1 = i" "i < 64"
  shows "ff_inv a (Suc k) (64 * c + i)"
proof -
  let ?n = "al_size a" and ?d = "al_depth (al_size a)"
  have bits: "\<And>j. j < i \<Longrightarrow> bit (al_word a k c) j" "\<not> bit (al_word a k c) i"
    using find_clear_bit_spec [of "al_word a k c"] i by auto
  have lim: "64 * c + i < 64 ^ Suc k"
    using ff i(2) by (simp add: ff_inv_def)
  have prev: "x \<in> al_used a" if "x < ?n" "x div 64 ^ (Suc ?d - Suc k) < 64 * c + i" for x
  proof -
    let ?y = "x div 64 ^ (Suc ?d - Suc k)"
    have up: "x div 64 ^ (Suc ?d - k) = ?y div 64"
      using k by (simp add: Suc_diff_le div_mult2_eq [symmetric] mult.commute)
    show ?thesis
    proof (cases "?y div 64 < c")
      case True
      with ff that(1) up show ?thesis by (simp add: ff_inv_def)
    next
      case False
      with that(2) i(2) have y: "?y div 64 = c" "?y mod 64 < i"
        using div_mult_mod_eq [of ?y 64] by linarith+
      then have b: "al_bit a k ?y" using bits by simp
      show ?thesis
      proof (cases "k = ?d")
        case True
        with b that(1) show ?thesis by (simp add: al_used_def)
      next
        case False
        with k that(2) lim b inv have "?y < lev_words ?n (Suc k) \<and> al_full a (Suc k) ?y"
          by (auto simp: allocator_inv_def al_link_def)
        with False k show ?thesis
          using full_all_used [OF inv, of "Suc k" ?y x] that(1) by simp
      qed
    qed
  qed
  have "\<not> (64 * c + i < lev_words ?n (Suc k) \<and> al_full a (Suc k) (64 * c + i))" if "Suc k \<le> ?d"
    using allocator_inv_link [OF inv, of k "64 * c + i"] bits(2) lim that i(2)
    by (auto simp: al_link_def)
  moreover have "64 * c + i \<notin> al_used a" if "k = ?d"
    using bits(2) i(2) that by (simp add: al_used_def)
  ultimately show ?thesis
    using lim prev k by (auto simp: ff_inv_def)
qed
text \<open>A word that is not full, or the root of an allocator with a free block, has a clear bit.\<close>

lemma ff_word_has_clear:
  assumes inv: "allocator_inv a" and ff: "ff_inv a k c" and k: "k \<le> al_depth (al_size a)"
    and c: "c < lev_words (al_size a) k" and x: "x < al_size a" "x \<notin> al_used a"
  shows "find_clear_bit (al_word a k c) 0 1 < 64"
proof (rule ccontr)
  let ?n = "al_size a" and ?d = "al_depth (al_size a)"
  assume "\<not> find_clear_bit (al_word a k c) 0 1 < 64"
  then have all: "\<And>j. j < 64 \<Longrightarrow> bit (al_word a k c) j"
    using find_clear_bit_spec [of "al_word a k c"] by auto
  have full: "al_full a k c"
  proof (cases "k < ?d \<or> c < ?n div 64")
    case True
    with all show ?thesis by (simp add: al_full_def word_eq_minus_one_iff)
  next
    case False
    with k c have kd: "k = ?d" "\<not> c < ?n div 64" "c < (?n + 63) div 64"
      by (auto simp: lev_words_def)
    then have "?n \<le> 64 * c + 63 \<and> 64 * c + 63 < 64 * ((?n + 63) div 64)"
      by linarith
    then have "\<not> al_bit a ?d (64 * c + 63)"
      using inv unfolding allocator_inv_def al_tail_clear_def by blast
    with all [of 63] kd(1) show ?thesis by simp
  qed
  with ff c k have "k = 0" by (auto simp: ff_inv_def)
  with ff have "c = 0" by (simp add: ff_inv_def)
  moreover have "x div 64 ^ Suc ?d = 0"
    using x(1) al_depth_covers [of ?n] by simp
  ultimately have "x \<in> al_used a"
    using full_all_used [OF inv k full c x(1)] \<open>k = 0\<close> by simp
  with x(2) show False by simp
qed

lemma find_free_loop_least:
  assumes "allocator_inv a" "ff_inv a k c" "x < al_size a" "x \<notin> al_used a"
  shows "find_free_loop a (64 ^ k) (lev_off k) c = of_nat (LEAST x. x \<notin> al_used a)"
  using assms(2)
proof (induction "Suc (al_depth (al_size a)) - k" arbitrary: k c)
  case 0
  then have k: "k = Suc (al_depth (al_size a))" by (simp add: ff_inv_def)
  have "(LEAST x. x \<notin> al_used a) = c"
  proof (rule Least_equality)
    show "c \<notin> al_used a" using 0 k by (simp add: ff_inv_def)
    fix y assume y: "y \<notin> al_used a"
    show "c \<le> y"
    proof (rule ccontr)
      assume "\<not> c \<le> y"
      then have "y < c" by simp
      moreover have "\<not> c > al_size a"
        using assms(3,4) 0 k by (auto simp: ff_inv_def)
      ultimately show False
        using 0 k y by (auto simp: ff_inv_def)
    qed
  qed
  with k show ?case
    using find_free_loop_exit [of a k c] assms(1) by (simp add: allocator_inv_def)
next
  case (Suc n)
  let ?n = "al_size a" and ?d = "al_depth (al_size a)"
  have k: "k \<le> ?d" using Suc.hyps(2) by simp
  have "c < lev_words ?n k"
  proof (rule ccontr)
    assume "\<not> c < lev_words ?n k"
    with Suc.prems k have "k = ?d" "x div 64 < c"
      using assms(3) by (auto simp: ff_inv_def lev_words_def split: if_splits)
    with Suc.prems assms(3,4) show False by (auto simp: ff_inv_def)
  qed
  moreover from this have "find_clear_bit (al_word a k c) 0 1 < 64"
    using ff_word_has_clear [OF assms(1) Suc.prems k] assms(3,4) by blast
  ultimately show ?case
    using find_free_loop_step [of a k c] assms(1) Suc.prems k
      Suc.hyps(1) [OF _ ff_inv_step [OF assms(1) Suc.prems k]] Suc.hyps(2)
    by (simp add: allocator_inv_def ff_inv_def)
qed

lemma ff_inv_root: "ff_inv a 0 0"
  by (simp add: ff_inv_def)

lemma find_free_least:
  assumes "allocator_inv a" "x < al_size a" "x \<notin> al_used a"
  shows "allocator_find_free a = of_nat (LEAST x. x \<notin> al_used a)"
  using find_free_loop_least [OF assms(1) ff_inv_root assms(2,3)]
  by (simp add: allocator_find_free_def)

lemma find_free_loop_none:
  assumes "allocator_inv a" "ff_inv a k c" "0 < al_depth (al_size a)" "k \<le> al_depth (al_size a)"
    and all: "\<And>x. x < al_size a \<Longrightarrow> x \<in> al_used a"
  shows "find_free_loop a (64 ^ k) (lev_off k) c = UINT64_MAX"
  using assms(2,4)
proof (induction "al_depth (al_size a) - k" arbitrary: k c)
  case 0
  then have k: "k = al_depth (al_size a)" by simp
  then have "\<not> c < lev_words (al_size a) k"
    using all_used_full [OF assms(1) all] 0 assms(3) by (auto simp: ff_inv_def)
  with k 0 show ?case
    using find_free_loop_step [of a k c] assms(1) by (simp add: allocator_inv_def ff_inv_def)
next
  case (Suc n)
  let ?i = "find_clear_bit (al_word a k c) 0 1"
  have "find_free_loop a (64 ^ Suc k) (lev_off (Suc k)) (64 * c + ?i) = UINT64_MAX"
    if "c < lev_words (al_size a) k" "?i < 64"
    using Suc.hyps(1) [of "Suc k" "64 * c + ?i"] Suc.hyps(2)
      ff_inv_step [OF assms(1) Suc.prems that(1) refl that(2)] by simp
  moreover have "c < 64 ^ k" "al_shape a"
    using Suc.prems(1) assms(1) by (auto simp: ff_inv_def allocator_inv_def)
  ultimately show ?case
    using find_free_loop_step [of a k c] Suc.prems(2) by simp
qed

lemma al_depth_0_iff: "al_depth n = 0 \<longleftrightarrow> n \<le> 64"
  using al_depth_covers [of n] below_depth [of 0 n] by (cases "al_depth n") auto

lemma find_free_none:
  assumes "allocator_inv a" and all: "\<And>x. x < al_size a \<Longrightarrow> x \<in> al_used a"
  shows "allocator_find_free a = (if al_size a < 64 then of_nat (al_size a) else UINT64_MAX)"
proof (cases "al_depth (al_size a) = 0")
  case False
  then have "\<not> al_size a \<le> 64" by (simp add: al_depth_0_iff)
  with False show ?thesis
    using find_free_loop_none [OF assms(1) ff_inv_root] all by (simp add: allocator_find_free_def)
next
  case True
  let ?n = "al_size a"
  have n: "?n \<le> 64" "2 \<le> ?n" "al_shape a"
    using True assms(1) by (auto simp: al_depth_0_iff allocator_inv_def al_shape_def)
  then have one: "lev_words ?n 0 = 1" "0 < lev_words ?n (al_depth ?n)"
    using True by (auto simp: lev_words_def)
  have "al_full a 0 0"
    using all_used_full [OF assms one(2)] True by simp
  then have w: "bit (al_word a 0 0) i \<longleftrightarrow> i < ?n" if "i < 64" for i
    using that n True by (auto simp: al_full_def al_shape_def bit_mask_word_iff split: if_splits)
  let ?i = "find_clear_bit (al_word a 0 0) 0 1"
  have i: "?i \<le> 64" "\<forall>j < ?i. bit (al_word a 0 0) j" "?i < 64 \<longrightarrow> \<not> bit (al_word a 0 0) ?i"
    using find_clear_bit_spec by auto
  have "?i = ?n"
  proof (rule antisym)
    show "?n \<le> ?i"
      using i(3) w [of ?i] n(1) by (cases "?i < 64") auto
    show "?i \<le> ?n"
    proof (rule ccontr)
      assume "\<not> ?i \<le> ?n"
      with i(1,2) have "bit (al_word a 0 0) ?n" "?n < 64" by auto
      with w show False by simp
    qed
  qed
  then show ?thesis
    using find_free_loop_step [of a 0 0] find_free_loop_exit [of a 1 ?n] n True one
    by (auto simp: allocator_find_free_def)
qed

section \<open>The allocator implements a pool of blocks\<close>

interpretation data_alloc: block_pool allocator_inv al_used al_size allocator_get allocator_set
  allocator_find_free
proof unfold_locales
  fix s x v
  assume inv: "allocator_inv s"
  then have sh: "al_shape s" by (simp add: allocator_inv_def)
  show "al_used s \<subseteq> {..<al_size s}"
    by (rule al_used_subset)
  show "al_size s < 2 ^ 31"
    using sh by (simp add: al_shape_def)
  show "allocator_get s x \<longleftrightarrow> x \<in> al_used s"
    by (rule allocator_get_iff)
  show "allocator_inv (allocator_set s x v)"
    using inv by (rule allocator_set_inv)
  show "al_size (allocator_set s x v) = al_size s"
    using allocator_set_used(1) [OF sh] by (cases "x < al_size s") (auto simp: allocator_set_def)
  show "al_used (allocator_set s x v) = (if v then insert x (al_used s) else al_used s - {x})"
    if "x < al_size s"
    using allocator_set_used(2) [OF sh that] .
  show "allocator_find_free s = of_nat (LEAST x. x \<notin> al_used s)"
    if "x < al_size s" "x \<notin> al_used s"
    using find_free_least [OF inv that] .
  show "allocator_find_free s = UINT64_MAX" if "64 \<le> al_size s" "al_used s = {..<al_size s}"
    using find_free_none [OF inv] that by simp
qed

section \<open>Properties\<close>

text \<open>C12: \<open>find_free\<close> returns the lowest free block whenever one exists. When every block is used
  it returns \<open>UINT64_MAX\<close>, except that an allocator of fewer than 64 blocks returns its own size,
  a block number one past the end.\<close>

theorem allocator_find_free_spec:
  assumes "allocator_inv a"
  shows "allocator_find_free a =
    (if al_used a \<noteq> {..<al_size a} then of_nat (LEAST x. x \<notin> al_used a)
     else if al_size a < 64 then of_nat (al_size a) else UINT64_MAX)"
proof (cases "al_used a = {..<al_size a}")
  case True
  then show ?thesis
    using find_free_none [OF assms] by simp
next
  case False
  then obtain x where "x < al_size a" "x \<notin> al_used a"
    using al_used_subset [of a] by blast
  with False show ?thesis
    using find_free_least [OF assms] by simp
qed

theorem allocator_find_free_spec_witness:
  "\<exists>a. allocator_new 100 = Inr a \<and> allocator_find_free (allocator_set a 0 True) = 1"
proof -
  obtain a where a: "allocator_new 100 = Inr a"
    using allocator_new_ok [of 100] by auto
  note new = allocator_new_inv [OF a]
  have inv: "allocator_inv (allocator_set a 0 True)"
    using new by (simp add: allocator_set_inv)
  have used: "al_used (allocator_set a 0 True) = {0}" "al_size (allocator_set a 0 True) = 100"
    using new data_alloc.mark_used [of a 0 True] data_alloc.mark_capacity [of a 0 True] by auto
  have "(LEAST x. x \<notin> {0::nat}) = 1"
    by (rule Least_equality) auto
  moreover have "(1::nat) \<in> {..<100}" "(1::nat) \<notin> {0}" by simp_all
  then have "{0} \<noteq> {..<100::nat}" by blast
  ultimately have "allocator_find_free (allocator_set a 0 True) = 1"
    unfolding allocator_find_free_spec [OF inv] used by simp
  with a show ?thesis by blast
qed

text \<open>C13: \<open>set\<close> on a block in range marks or unmarks exactly that block, keeps the summary levels of
  the tree consistent with the block level, and keeps the free counter equal to the number of
  blocks not in use; \<open>get\<close> then reads the new value.\<close>

theorem allocator_set_refines:
  assumes "allocator_inv a" "addr < al_size a"
  shows "allocator_inv (allocator_set a addr val) \<and>
    al_used (allocator_set a addr val) = (if val then insert addr (al_used a) else al_used a - {addr}) \<and>
    allocator_get (allocator_set a addr val) x = (if x = addr then val else allocator_get a x) \<and>
    get_free_count (allocator_set a addr val)
      = of_nat (al_size a - card (al_used (allocator_set a addr val)))"
proof -
  have inv: "allocator_inv (allocator_set a addr val)"
    using assms(1) by (rule allocator_set_inv)
  moreover have used: "al_used (allocator_set a addr val)
       = (if val then insert addr (al_used a) else al_used a - {addr})"
    using assms by (rule data_alloc.mark_used)
  moreover have "allocator_get (allocator_set a addr val) x
      = (if x = addr then val else allocator_get a x)"
    using used by (auto simp: allocator_get_iff)
  moreover have "get_free_count (allocator_set a addr val)
       = of_nat (al_size a - card (al_used (allocator_set a addr val)))"
    using inv data_alloc.mark_capacity [OF assms(1)] by (simp add: get_free_count_def allocator_inv_def)
  ultimately show ?thesis by blast
qed

theorem allocator_set_refines_witness:
  "\<exists>a. allocator_new 5000 = Inr a \<and> al_used (allocator_set a 4999 True) = {4999} \<and>
     get_free_count (allocator_set a 4999 True) = 4999"
proof -
  obtain a where a: "allocator_new 5000 = Inr a"
    using allocator_new_ok [of 5000] by auto
  note new = allocator_new_inv [OF a]
  then have "al_used (allocator_set a 4999 True) = {4999}"
    "get_free_count (allocator_set a 4999 True) = of_nat (5000 - card {4999::nat})"
    using allocator_set_refines [of a 4999 True] by simp_all
  with a show ?thesis by simp
qed

text \<open>C14: the constructor refuses sizes of at most one block and of \<open>2 ^ 31\<close> blocks or more, and
  otherwise builds an allocator with every block free.\<close>

theorem allocator_new_spec:
  "if 2 \<le> blocks \<and> blocks < 2 ^ 31
   then \<exists>a. allocator_new blocks = Inr a \<and> allocator_inv a \<and> al_size a = blocks \<and>
          al_used a = {} \<and> get_free_count a = of_nat blocks
   else allocator_new blocks = Inl (Invalid_argument ''blocks'')"
proof (cases "2 \<le> blocks \<and> blocks < 2 ^ 31")
  case True
  then obtain a where a: "allocator_new blocks = Inr a"
    using allocator_new_ok by blast
  then show ?thesis
    using True allocator_new_inv [OF a] by (auto simp: get_free_count_def allocator_inv_def)
next
  case False
  then show ?thesis by (auto simp: allocator_new_def)
qed

end
