(* ===== verification/Bitmap.thy ===== *)
theory Bitmap
  imports Prelude
begin

text \<open>
  The range operations on object bitmaps (\<open>bitmap_set\<close>, \<open>bitmap_clear\<close>, \<open>bitmap_check\<close> in
  \<open>src/src/util/allocator.cpp\<close>): a byte range of an object is mapped to the bits of the allocation
  units it touches. The bitmap is its list of bytes. Offsets are \<open>uint64_t\<close> (sums and products are
  reduced modulo \<open>2 ^ 64\<close>), bit numbers \<open>unsigned\<close> (the two bounds are truncated to 32 bits); the
  loop adds to a bit number without wrapping, which is what the code does as long as the end is at
  most \<open>2 ^ 32 - 8\<close>. The 32-bit and 64-bit stores of the fast paths write all bytes of the integer
  with the same value, so byte order does not matter.
\<close>

section \<open>The model\<close>

definition bmp_first :: "nat \<Rightarrow> nat \<Rightarrow> nat" where
  "bmp_first start g = (start div g) mod 2 ^ 32"

definition bmp_end :: "nat \<Rightarrow> nat \<Rightarrow> nat \<Rightarrow> nat" where
  "bmp_end start len g = ((start + len + g - 1) mod 2 ^ 64 div g) mod 2 ^ 32"

function bitmap_set_loop :: "nat \<Rightarrow> nat \<Rightarrow> u8 list \<Rightarrow> u8 list" where
  "bitmap_set_loop bit_start bit_end bitmap =
     (if bit_start < bit_end
      then if bit_start AND 7 = 0 \<and> bit_end \<ge> bit_start + 8
           then bitmap_set_loop (bit_start + 8) bit_end (bitmap[bit_start div 8 := UINT8_MAX])
           else bitmap_set_loop (bit_start + 1) bit_end
                  (bitmap[bit_start div 8 := bitmap ! (bit_start div 8) OR push_bit (bit_start mod 8) 1])
      else bitmap)"
  by pat_completeness auto
termination
  by (relation "measure (\<lambda>(bit_start, bit_end, bitmap). bit_end - bit_start)") auto

definition bitmap_set :: "u8 list \<Rightarrow> nat \<Rightarrow> nat \<Rightarrow> nat \<Rightarrow> u8 list" where
  "bitmap_set bitmap start len g =
     (if start = 0 \<and> len = 32 * g mod 2 ^ 64 then replicate 4 UINT8_MAX @ drop 4 bitmap
      else if start = 0 \<and> len = 64 * g mod 2 ^ 64 then replicate 8 UINT8_MAX @ drop 8 bitmap
      else bitmap_set_loop (bmp_first start g) (bmp_end start len g) bitmap)"

function bitmap_clear_loop :: "nat \<Rightarrow> nat \<Rightarrow> u8 list \<Rightarrow> u8 list" where
  "bitmap_clear_loop bit_start bit_end bitmap =
     (if bit_start < bit_end
      then if bit_start AND 7 = 0 \<and> bit_end \<ge> bit_start + 8
           then bitmap_clear_loop (bit_start + 8) bit_end (bitmap[bit_start div 8 := 0])
           else bitmap_clear_loop (bit_start + 1) bit_end
                  (bitmap[bit_start div 8 :=
                     bitmap ! (bit_start div 8) AND (0xFF XOR push_bit (bit_start mod 8) 1)])
      else bitmap)"
  by pat_completeness auto
termination
  by (relation "measure (\<lambda>(bit_start, bit_end, bitmap). bit_end - bit_start)") auto

definition bitmap_clear :: "u8 list \<Rightarrow> nat \<Rightarrow> nat \<Rightarrow> nat \<Rightarrow> u8 list" where
  "bitmap_clear bitmap start len g =
     (if start = 0 \<and> len = 32 * g mod 2 ^ 64 then replicate 4 0 @ drop 4 bitmap
      else if start = 0 \<and> len = 64 * g mod 2 ^ 64 then replicate 8 0 @ drop 8 bitmap
      else bitmap_clear_loop (bmp_first start g) (bmp_end start len g) bitmap)"

function bitmap_check_loop :: "nat \<Rightarrow> nat \<Rightarrow> u8 list \<Rightarrow> bool \<Rightarrow> bool" where
  "bitmap_check_loop bit_start bit_end bitmap r =
     (if bit_start < bit_end
      then if bit_start AND 7 = 0 \<and> bit_end \<ge> bit_start + 8
           then bitmap_check_loop (bit_start + 8) bit_end bitmap (r \<or> bitmap ! (bit_start div 8) \<noteq> 0)
           else bitmap_check_loop (bit_start + 1) bit_end bitmap
                  (r \<or> bitmap ! (bit_start div 8) AND push_bit (bit_start mod 8) 1 \<noteq> 0)
      else r)"
  by pat_completeness auto
termination
  by (relation "measure (\<lambda>(bit_start, bit_end, bitmap, r). bit_end - bit_start)") auto

definition bitmap_check :: "u8 list \<Rightarrow> nat \<Rightarrow> nat \<Rightarrow> nat \<Rightarrow> bool" where
  "bitmap_check bitmap start len g =
     (if start = 0 \<and> len = 32 * g mod 2 ^ 64 then \<exists>b \<in> set (take 4 bitmap). b \<noteq> 0
      else if start = 0 \<and> len = 64 * g mod 2 ^ 64 then \<exists>b \<in> set (take 8 bitmap). b \<noteq> 0
      else bitmap_check_loop (bmp_first start g) (bmp_end start len g) bitmap False)"

declare bitmap_set_loop.simps [simp del] bitmap_clear_loop.simps [simp del]
  bitmap_check_loop.simps [simp del]

section \<open>Bits of a bitmap\<close>

definition bmp_bit :: "u8 list \<Rightarrow> nat \<Rightarrow> bool" where
  "bmp_bit bitmap i = bit (bitmap ! (i div 8)) (i mod 8)"

text \<open>The arguments describe a range whose bits lie inside the bitmap and whose bounds do not
  overflow.\<close>

definition bmp_range_ok :: "u8 list \<Rightarrow> nat \<Rightarrow> nat \<Rightarrow> nat \<Rightarrow> bool" where
  "bmp_range_ok bitmap start len g \<longleftrightarrow>
     0 < g \<and> g < 2 ^ 32 \<and> start + len + g - 1 < 2 ^ 64 \<and>
     (start + len + g - 1) div g \<le> 2 ^ 32 - 8 \<and> (start + len + g - 1) div g \<le> 8 * length bitmap"

definition bmp_covers :: "nat \<Rightarrow> nat \<Rightarrow> nat \<Rightarrow> nat \<Rightarrow> bool" where
  "bmp_covers start len g i \<longleftrightarrow> start div g \<le> i \<and> i < (start + len + g - 1) div g"

lemma and_7_eq_mod_8: "(n::nat) AND 7 = n mod 8"
  using take_bit_eq_mod [of 3 n] by (simp add: take_bit_eq_mask mask_eq_exp_minus_1)

lemma bmp_bit_update:
  assumes "j < length bm" "i < 8 * length bm"
  shows "bmp_bit (bm[j := w]) i = (if i div 8 = j then bit w (i mod 8) else bmp_bit bm i)"
  using assms by (auto simp: bmp_bit_def)

lemma same_byte_iff: "(i::nat) div 8 = s div 8 \<Longrightarrow> i mod 8 = s mod 8 \<longleftrightarrow> i = s"
  by (metis div_mult_mod_eq)

lemma aligned_byte_iff: "(s::nat) mod 8 = 0 \<Longrightarrow> i div 8 = s div 8 \<longleftrightarrow> s \<le> i \<and> i < s + 8"
  by auto

lemma bmp_bounds_ok:
  assumes "bmp_range_ok bm start len g"
  shows "bmp_first start g = start div g" and "bmp_end start len g = (start + len + g - 1) div g"
proof -
  have "start div g \<le> (start + len + g - 1) div g"
    using assms by (intro div_le_mono) (auto simp: bmp_range_ok_def)
  then show "bmp_first start g = start div g" "bmp_end start len g = (start + len + g - 1) div g"
    using assms by (auto simp: bmp_first_def bmp_end_def bmp_range_ok_def)
qed

lemma range_from_single: "(s::nat) < e \<Longrightarrow> s \<le> i \<and> i < e \<longleftrightarrow> i = s \<or> s + 1 \<le> i \<and> i < e"
  by auto

lemma set_byte_bits:
  assumes "i < 8 * length bm" "s div 8 < length bm"
  shows "s mod 8 = 0 \<Longrightarrow> bmp_bit (bm[s div 8 := UINT8_MAX]) i = (bmp_bit bm i \<or> s \<le> i \<and> i < s + 8)"
    and "bmp_bit (bm[s div 8 := bm ! (s div 8) OR push_bit (s mod 8) 1]) i = (bmp_bit bm i \<or> i = s)"
  using aligned_byte_iff [of s i] same_byte_iff [of i s]
  unfolding bmp_bit_update [OF assms(2,1)]
  by (auto simp: bit_or_single_iff bmp_bit_def)

lemma bitmap_set_loop_spec:
  assumes "e \<le> 8 * length bm"
  shows "length (bitmap_set_loop s e bm) = length bm \<and>
    (\<forall>i < 8 * length bm. bmp_bit (bitmap_set_loop s e bm) i = (bmp_bit bm i \<or> s \<le> i \<and> i < e))"
  using assms
proof (induction s e bm rule: bitmap_set_loop.induct)
  case (1 s e bm)
  show ?case
  proof (cases "s < e")
    case False
    then show ?thesis by (subst (1 2) bitmap_set_loop.simps) auto
  next
    case True
    then have inr: "s div 8 < length bm" using 1(3) by auto
    show ?thesis
    proof (cases "s mod 8 = 0 \<and> s + 8 \<le> e")
      case byte: True
      let ?bm = "bm[s div 8 := UINT8_MAX]"
      have "bitmap_set_loop s e bm = bitmap_set_loop (s + 8) e ?bm"
        using True byte by (subst bitmap_set_loop.simps) (simp add: and_7_eq_mod_8)
      then show ?thesis
        using 1(1) [OF True] byte 1(3) set_byte_bits(1) [OF _ inr] by (auto simp: and_7_eq_mod_8)
    next
      case single: False
      let ?bm = "bm[s div 8 := bm ! (s div 8) OR push_bit (s mod 8) 1]"
      have "bitmap_set_loop s e bm = bitmap_set_loop (s + 1) e ?bm"
        using True single by (subst bitmap_set_loop.simps) (auto simp: and_7_eq_mod_8)
      moreover have "length (bitmap_set_loop (s + 1) e ?bm) = length bm \<and>
          (\<forall>i < 8 * length bm. bmp_bit (bitmap_set_loop (s + 1) e ?bm) i = (bmp_bit ?bm i \<or> s + 1 \<le> i \<and> i < e))"
        using 1(2) [OF True] single 1(3) by (simp add: and_7_eq_mod_8 del: push_bit_of_1)
      ultimately show ?thesis
        using set_byte_bits(2) [OF _ inr] unfolding range_from_single [OF True] by auto
    qed
  qed
qed

lemma clear_byte_bits:
  assumes "i < 8 * length bm" "s div 8 < length bm"
  shows "s mod 8 = 0 \<Longrightarrow> bmp_bit (bm[s div 8 := 0]) i = (bmp_bit bm i \<and> \<not> (s \<le> i \<and> i < s + 8))"
    and "bmp_bit (bm[s div 8 := bm ! (s div 8) AND (0xFF XOR push_bit (s mod 8) 1)]) i
       = (bmp_bit bm i \<and> i \<noteq> s)"
proof -
  have "(0xFF XOR push_bit n 1 :: u8) = NOT (2 ^ n)" for n
  proof -
    have ff: "(0xFF :: u8) = -1" by simp
    show ?thesis
      unfolding ff by (rule bit_word_eqI) (auto simp: bit_xor_iff bit_not_iff bit_exp_iff)
  qed
  then show "bmp_bit (bm[s div 8 := bm ! (s div 8) AND (0xFF XOR push_bit (s mod 8) 1)]) i
       = (bmp_bit bm i \<and> i \<noteq> s)"
    using same_byte_iff [of i s]
    unfolding bmp_bit_update [OF assms(2,1)]
    by (auto simp: bit_and_not_single_iff bmp_bit_def)
  show "bmp_bit (bm[s div 8 := 0]) i = (bmp_bit bm i \<and> \<not> (s \<le> i \<and> i < s + 8))" if "s mod 8 = 0"
    using aligned_byte_iff [OF that, of i]
    unfolding bmp_bit_update [OF assms(2,1)] by auto
qed

lemma bitmap_clear_loop_spec:
  assumes "e \<le> 8 * length bm"
  shows "length (bitmap_clear_loop s e bm) = length bm \<and>
    (\<forall>i < 8 * length bm. bmp_bit (bitmap_clear_loop s e bm) i = (bmp_bit bm i \<and> \<not> (s \<le> i \<and> i < e)))"
  using assms
proof (induction s e bm rule: bitmap_clear_loop.induct)
  case (1 s e bm)
  show ?case
  proof (cases "s < e")
    case False
    then show ?thesis by (subst (1 2) bitmap_clear_loop.simps) auto
  next
    case True
    then have inr: "s div 8 < length bm" using 1(3) by auto
    show ?thesis
    proof (cases "s mod 8 = 0 \<and> s + 8 \<le> e")
      case byte: True
      let ?bm = "bm[s div 8 := 0]"
      have "bitmap_clear_loop s e bm = bitmap_clear_loop (s + 8) e ?bm"
        using True byte by (subst bitmap_clear_loop.simps) (simp add: and_7_eq_mod_8)
      then show ?thesis
        using 1(1) [OF True] byte 1(3) clear_byte_bits(1) [OF _ inr] by (auto simp: and_7_eq_mod_8)
    next
      case single: False
      let ?bm = "bm[s div 8 := bm ! (s div 8) AND (0xFF XOR push_bit (s mod 8) 1)]"
      have "bitmap_clear_loop s e bm = bitmap_clear_loop (s + 1) e ?bm"
        using True single by (subst bitmap_clear_loop.simps) (auto simp: and_7_eq_mod_8)
      moreover have "length (bitmap_clear_loop (s + 1) e ?bm) = length bm \<and>
          (\<forall>i < 8 * length bm. bmp_bit (bitmap_clear_loop (s + 1) e ?bm) i = (bmp_bit ?bm i \<and> \<not> (s + 1 \<le> i \<and> i < e)))"
        using 1(2) [OF True] single 1(3) by (simp add: and_7_eq_mod_8 del: push_bit_of_1)
      ultimately show ?thesis
        using clear_byte_bits(2) [OF _ inr] unfolding range_from_single [OF True] by auto
    qed
  qed
qed

lemma byte_nonzero_iff:
  assumes "s mod 8 = 0"
  shows "bm ! (s div 8) \<noteq> 0 \<longleftrightarrow> (\<exists>i. s \<le> i \<and> i < s + 8 \<and> bmp_bit bm i)"
proof -
  have "bm ! (s div 8) \<noteq> 0 \<longleftrightarrow> (\<exists>n < 8. bit (bm ! (s div 8)) n)"
    by (auto simp: bit_eq_iff [where 'a = u8])
  also have "\<dots> \<longleftrightarrow> (\<exists>i. s \<le> i \<and> i < s + 8 \<and> bmp_bit bm i)"
  proof
    assume "\<exists>n < 8. bit (bm ! (s div 8)) n"
    then obtain n where "n < 8" "bit (bm ! (s div 8)) n" by blast
    then have "bmp_bit bm (s + n)"
      using assms by (auto simp: bmp_bit_def)
    then show "\<exists>i. s \<le> i \<and> i < s + 8 \<and> bmp_bit bm i"
      using \<open>n < 8\<close> by (intro exI [of _ "s + n"]) simp
  next
    assume "\<exists>i. s \<le> i \<and> i < s + 8 \<and> bmp_bit bm i"
    then obtain i where "s \<le> i" "i < s + 8" "bmp_bit bm i" by blast
    moreover from this have "i div 8 = s div 8"
      using aligned_byte_iff [OF assms, of i] by simp
    ultimately show "\<exists>n < 8. bit (bm ! (s div 8)) n"
      by (intro exI [of _ "i mod 8"]) (simp add: bmp_bit_def)
  qed
  finally show ?thesis .
qed

lemma bitmap_check_loop_spec:
  "bitmap_check_loop s e bm r \<longleftrightarrow> r \<or> (\<exists>i. s \<le> i \<and> i < e \<and> bmp_bit bm i)"
proof (induction s e bm r rule: bitmap_check_loop.induct)
  case (1 s e bm r)
  show ?case
  proof (cases "s < e")
    case False
    then show ?thesis by (subst bitmap_check_loop.simps) auto
  next
    case True
    show ?thesis
    proof (cases "s mod 8 = 0 \<and> s + 8 \<le> e")
      case byte: True
      have cond: "s AND 7 = 0 \<and> s + 8 \<le> e"
        using byte by (simp add: and_7_eq_mod_8)
      then have "bitmap_check_loop s e bm r
          = bitmap_check_loop (s + 8) e bm (r \<or> bm ! (s div 8) \<noteq> 0)"
        using True by (subst bitmap_check_loop.simps) simp
      also have "\<dots> \<longleftrightarrow> (r \<or> bm ! (s div 8) \<noteq> 0) \<or> (\<exists>i. s + 8 \<le> i \<and> i < e \<and> bmp_bit bm i)"
        using 1(1) [OF True cond] .
      finally show ?thesis
        unfolding byte_nonzero_iff [OF conjunct1 [OF byte]]
          ex_range_split [OF le_add1 conjunct2 [OF byte], of "bmp_bit bm"] by blast
    next
      case single: False
      then have cond: "\<not> (s AND 7 = 0 \<and> s + 8 \<le> e)"
        by (simp add: and_7_eq_mod_8)
      then have "bitmap_check_loop s e bm r
          = bitmap_check_loop (s + 1) e bm (r \<or> bm ! (s div 8) AND push_bit (s mod 8) 1 \<noteq> 0)"
        using True by (subst bitmap_check_loop.simps) auto
      also have "\<dots> = ((r \<or> bmp_bit bm s) \<or> (\<exists>i. s + 1 \<le> i \<and> i < e \<and> bmp_bit bm i))"
        using 1(2) [OF True cond] and_single_bit_eq_0_iff [of "s mod 8" "bm ! (s div 8)"]
        by (simp add: bmp_bit_def [of bm s])
      finally have eq: "bitmap_check_loop s e bm r
          = ((r \<or> bmp_bit bm s) \<or> (\<exists>i. s + 1 \<le> i \<and> i < e \<and> bmp_bit bm i))" .
      have "s + 1 \<le> e" using True by simp
      with eq show ?thesis
        using ex_range_split [OF le_add1 \<open>s + 1 \<le> e\<close>, of "bmp_bit bm"]
        unfolding ex_single_range by blast
    qed
  qed
qed

section \<open>The fast paths\<close>

lemma bmp_whole_word:
  assumes "bmp_range_ok bm start len g" "start = 0" "len = (8 * n) * g mod 2 ^ 64" "n = 4 \<or> n = 8"
  shows "n \<le> length bm" and "bmp_covers start len g i \<longleftrightarrow> i < 8 * n"
proof -
  have g: "0 < g" "8 * n * g < 2 ^ 64"
    using assms by (auto simp: bmp_range_ok_def)
  then have "(start + len + g - 1) div g = 8 * n"
  proof -
    have "start + len + g - 1 = (g - 1) + 8 * n * g"
      using assms g by simp
    then show ?thesis using g(1) by (simp only: div_mult_self1) simp
  qed
  then show "n \<le> length bm" "bmp_covers start len g i \<longleftrightarrow> i < 8 * n"
    using assms(1,2) by (auto simp: bmp_range_ok_def bmp_covers_def)
qed

lemma bmp_bit_prefix:
  assumes "n \<le> length bm"
  shows "bmp_bit (replicate n w @ drop n bm) i = (if i < 8 * n then bit w (i mod 8) else bmp_bit bm i)"
proof (cases "i < 8 * n")
  case True
  then have "i div 8 < n" by auto
  then show ?thesis using True by (simp add: bmp_bit_def nth_append)
next
  case False
  then have "\<not> i div 8 < n" by auto
  then show ?thesis using False assms by (simp add: bmp_bit_def nth_append)
qed

lemma take_nonzero_iff:
  assumes "n \<le> length bm"
  shows "(\<exists>b \<in> set (take n bm). b \<noteq> 0) \<longleftrightarrow> (\<exists>i < 8 * n. bmp_bit bm i)"
proof -
  have "(\<exists>b \<in> set (take n bm). b \<noteq> 0) \<longleftrightarrow> (\<exists>j < n. bm ! j \<noteq> 0)"
    using assms by (force simp: in_set_conv_nth)
  also have "\<dots> \<longleftrightarrow> (\<exists>j < n. \<exists>i. 8 * j \<le> i \<and> i < 8 * j + 8 \<and> bmp_bit bm i)"
    using byte_nonzero_iff [of "8 * j" bm for j] by simp
  also have "\<dots> \<longleftrightarrow> (\<exists>i < 8 * n. bmp_bit bm i)"
  proof
    assume "\<exists>j < n. \<exists>i. 8 * j \<le> i \<and> i < 8 * j + 8 \<and> bmp_bit bm i"
    then obtain j i where ji: "j < n" "i < 8 * j + 8" "bmp_bit bm i" by blast
    then have "i < 8 * n" by linarith
    with ji show "\<exists>i < 8 * n. bmp_bit bm i" by blast
  next
    assume "\<exists>i < 8 * n. bmp_bit bm i"
    then obtain i where i: "i < 8 * n" "bmp_bit bm i" by blast
    then have "i div 8 < n" "8 * (i div 8) \<le> i" "i < 8 * (i div 8) + 8" by auto
    with i show "\<exists>j < n. \<exists>i. 8 * j \<le> i \<and> i < 8 * j + 8 \<and> bmp_bit bm i" by blast
  qed
  finally show ?thesis .
qed

section \<open>All paths together\<close>

lemma bitmap_ops:
  assumes "bmp_range_ok bm start len g"
  shows "length (bitmap_set bm start len g) = length bm \<and>
    length (bitmap_clear bm start len g) = length bm \<and>
    (\<forall>i < 8 * length bm.
       bmp_bit (bitmap_set bm start len g) i = (bmp_bit bm i \<or> bmp_covers start len g i) \<and>
       bmp_bit (bitmap_clear bm start len g) i = (bmp_bit bm i \<and> \<not> bmp_covers start len g i)) \<and>
    bitmap_check bm start len g = (\<exists>i. bmp_covers start len g i \<and> bmp_bit bm i)"
proof (cases "\<exists>n. (n = 4 \<or> n = 8) \<and> start = 0 \<and> len = (8 * n) * g mod 2 ^ 64")
  case True
  then obtain n where n: "n = 4 \<or> n = 8" "start = 0" "len = (8 * n) * g mod 2 ^ 64" by blast
  note whole = bmp_whole_word [OF assms n(2,3,1)]
  have "bitmap_set bm start len g = replicate n UINT8_MAX @ drop n bm"
    "bitmap_clear bm start len g = replicate n 0 @ drop n bm"
    "bitmap_check bm start len g = (\<exists>b \<in> set (take n bm). b \<noteq> 0)"
    using n(1) assms unfolding bitmap_set_def bitmap_clear_def bitmap_check_def n(2,3)
    by (auto simp: bmp_range_ok_def)
  then show ?thesis
    using whole by (auto simp: bmp_bit_prefix take_nonzero_iff)
next
  case False
  then have "\<not> (start = 0 \<and> len = (8 * 4) * g mod 2 ^ 64)" "\<not> (start = 0 \<and> len = (8 * 8) * g mod 2 ^ 64)"
    by blast+
  then have "\<not> (start = 0 \<and> len = 32 * g mod 2 ^ 64)" "\<not> (start = 0 \<and> len = 64 * g mod 2 ^ 64)"
    by simp_all
  then have gen: "bitmap_set bm start len g = bitmap_set_loop (bmp_first start g) (bmp_end start len g) bm"
    "bitmap_clear bm start len g = bitmap_clear_loop (bmp_first start g) (bmp_end start len g) bm"
    "bitmap_check bm start len g = bitmap_check_loop (bmp_first start g) (bmp_end start len g) bm False"
    unfolding bitmap_set_def bitmap_clear_def bitmap_check_def by (simp_all only: if_False)
  have "(start + len + g - 1) div g \<le> 8 * length bm"
    using assms by (simp add: bmp_range_ok_def)
  then show ?thesis
    unfolding gen bmp_bounds_ok [OF assms] bmp_covers_def
    using bitmap_set_loop_spec bitmap_clear_loop_spec
    by (simp add: bitmap_check_loop_spec)
qed

lemma bmp_bits_eqI:
  assumes "length a = length b" "\<And>i. i < 8 * length a \<Longrightarrow> bmp_bit a i = bmp_bit b i"
  shows "a = b"
proof (rule nth_equalityI [OF assms(1)])
  fix j assume j: "j < length a"
  show "a ! j = b ! j"
  proof (rule bit_word_eqI)
    fix n assume "n < LENGTH(8)"
    then show "bit (a ! j) n = bit (b ! j) n"
      using assms(2) [of "8 * j + n"] j by (simp add: bmp_bit_def)
  qed
qed

text \<open>Setting all the bits does not depend on what was there.\<close>

lemma bitmap_set_whole:
  assumes "bmp_range_ok a 0 len g" "length b = length a" "len = 8 * length a * g"
  shows "bitmap_set a 0 len g = bitmap_set b 0 len g"
proof (rule bmp_bits_eqI)
  have b: "bmp_range_ok b 0 len g"
    using assms(1,2) by (simp add: bmp_range_ok_def)
  have g: "0 < g" using assms(1) by (simp add: bmp_range_ok_def)
  have "(len + g - 1) div g = 8 * length a"
  proof -
    have "len + g - 1 = (g - 1) + 8 * length a * g" using g assms(3) by simp
    then show ?thesis using g by (simp only: div_mult_self1) simp
  qed
  then have cov: "bmp_covers 0 len g i" if "i < 8 * length a" for i
    using that by (simp add: bmp_covers_def)
  show "length (bitmap_set a 0 len g) = length (bitmap_set b 0 len g)"
    using bitmap_ops [OF assms(1)] bitmap_ops [OF b] assms(2) by simp
  fix i assume "i < 8 * length (bitmap_set a 0 len g)"
  then show "bmp_bit (bitmap_set a 0 len g) i = bmp_bit (bitmap_set b 0 len g) i"
    using bitmap_ops [OF assms(1)] bitmap_ops [OF b] assms(2) cov by simp
qed

section \<open>Properties\<close>

text \<open>C16: for a range inside the bitmap, \<open>bitmap_set\<close> sets exactly the bits of the allocation units the
  byte range touches and \<open>bitmap_clear\<close> clears exactly those, on the word fast paths, the byte fast path
  and the bitwise path alike; \<open>bitmap_check\<close> tells whether any of them is set.\<close>

theorem bitmap_range_ops_correct:
  assumes "bmp_range_ok bm start len g"
  shows "length (bitmap_set bm start len g) = length bm \<and>
    length (bitmap_clear bm start len g) = length bm \<and>
    (\<forall>i < 8 * length bm.
       bmp_bit (bitmap_set bm start len g) i = (bmp_bit bm i \<or> bmp_covers start len g i) \<and>
       bmp_bit (bitmap_clear bm start len g) i = (bmp_bit bm i \<and> \<not> bmp_covers start len g i)) \<and>
    bitmap_check bm start len g = (\<exists>i. bmp_covers start len g i \<and> bmp_bit bm i)"
  by (rule bitmap_ops [OF assms])

theorem bitmap_range_ops_correct_witness:
  "length (bitmap_set [0x10, 0, 0xFF] 12288 36864 4096) = 3 \<and>
   bmp_bit (bitmap_set [0x10, 0, 0xFF] 12288 36864 4096) 11 \<and>
   \<not> bmp_bit (bitmap_clear [0x10, 0, 0xFF] 12288 36864 4096) 4 \<and>
   bitmap_check [0x10, 0, 0xFF] 12288 36864 4096"
proof -
  have ok: "bmp_range_ok [0x10, 0, 0xFF] 12288 36864 4096"
    by (simp add: bmp_range_ok_def)
  have cov: "bmp_covers 12288 36864 4096 11" "bmp_covers 12288 36864 4096 4"
    by (simp_all add: bmp_covers_def)
  have "bmp_bit [0x10, 0, 0xFF] 4"
    by (simp add: bmp_bit_def bit_iff_odd)
  with bitmap_range_ops_correct [OF ok] cov show ?thesis
    by auto
qed

end
