(* ===== verification/Ordered_Map.thy ===== *)
theory Ordered_Map
  imports Prelude
begin

text \<open>
  \<open>std::map\<close> as the sources use it: a finite map iterated in ascending key order. It is a list
  of pairs with strictly increasing keys; \<open>omap_put\<close> is \<open>m[k] = v\<close> (insert or assign),
  \<open>omap_erase\<close> is \<open>m.erase(k)\<close>, \<open>omap_get\<close> is \<open>m.find(k)\<close>, and the parts before and from
  \<open>lower_bound(k)\<close> are \<open>omap_before\<close> and \<open>omap_from\<close>.
\<close>

type_synonym ('k, 'v) omap = "('k \<times> 'v) list"

definition omap_wf :: "('k::linorder, 'v) omap \<Rightarrow> bool" where
  "omap_wf m \<longleftrightarrow> sorted_wrt (<) (map fst m)"

definition omap_get :: "('k, 'v) omap \<Rightarrow> 'k \<Rightarrow> 'v option" where
  "omap_get m k = map_of m k"

fun omap_put :: "'k::linorder \<Rightarrow> 'v \<Rightarrow> ('k, 'v) omap \<Rightarrow> ('k, 'v) omap" where
  "omap_put k v [] = [(k, v)]"
| "omap_put k v (p # m) =
     (if fst p < k then p # omap_put k v m
      else if fst p = k then (k, v) # m
      else (k, v) # p # m)"

definition omap_erase :: "'k \<Rightarrow> ('k, 'v) omap \<Rightarrow> ('k, 'v) omap" where
  "omap_erase k m = filter (\<lambda>p. fst p \<noteq> k) m"

definition omap_keys :: "('k, 'v) omap \<Rightarrow> 'k set" where
  "omap_keys m = fst ` set m"

definition omap_before :: "'k::linorder \<Rightarrow> ('k, 'v) omap \<Rightarrow> ('k, 'v) omap" where
  "omap_before k m = takeWhile (\<lambda>p. fst p < k) m"

definition omap_from :: "'k::linorder \<Rightarrow> ('k, 'v) omap \<Rightarrow> ('k, 'v) omap" where
  "omap_from k m = dropWhile (\<lambda>p. fst p < k) m"

lemma omap_wf_Nil [simp]: "omap_wf []"
  by (simp add: omap_wf_def)

lemma omap_wf_Cons:
  "omap_wf (p # m) \<longleftrightarrow> (\<forall>q \<in> set m. fst p < fst q) \<and> omap_wf m"
  by (simp add: omap_wf_def)

lemma omap_wf_append:
  "omap_wf (m @ n) \<longleftrightarrow> omap_wf m \<and> omap_wf n \<and> (\<forall>p \<in> set m. \<forall>q \<in> set n. fst p < fst q)"
  by (auto simp: omap_wf_def sorted_wrt_append)

lemma omap_get_Nil [simp]: "omap_get [] k = None"
  by (simp add: omap_get_def)

lemma omap_get_Cons: "omap_get (p # m) k = (if fst p = k then Some (snd p) else omap_get m k)"
  by (cases p) (auto simp: omap_get_def)

lemma omap_get_append:
  "omap_get (m @ n) k = (case omap_get m k of None \<Rightarrow> omap_get n k | Some v \<Rightarrow> Some v)"
  by (simp add: omap_get_def map_add_def split: option.split)

lemma omap_keys_Nil [simp]: "omap_keys [] = {}"
  by (simp add: omap_keys_def)

lemma omap_keys_Cons [simp]: "omap_keys (p # m) = insert (fst p) (omap_keys m)"
  by (simp add: omap_keys_def)

lemma omap_get_None_iff: "omap_get m k = None \<longleftrightarrow> k \<notin> omap_keys m"
  by (auto simp: omap_get_def omap_keys_def map_of_eq_None_iff)

lemma omap_get_SomeD: "omap_get m k = Some v \<Longrightarrow> (k, v) \<in> set m"
  by (simp add: omap_get_def map_of_SomeD)

lemma omap_get_eq_Some: "omap_wf m \<Longrightarrow> omap_get m k = Some v \<longleftrightarrow> (k, v) \<in> set m"
proof (induction m)
  case (Cons p m)
  then show ?case
    by (cases p) (force simp: omap_get_Cons omap_wf_Cons)
qed simp

lemma omap_put_set: "omap_wf m \<Longrightarrow> set (omap_put k v m) = insert (k, v) {p \<in> set m. fst p \<noteq> k}"
  by (induction m) (force simp: omap_wf_Cons)+

lemma omap_put_keys [simp]: "omap_keys (omap_put k v m) = insert k (omap_keys m)"
  by (induction m) auto

lemma omap_put_wf: "omap_wf m \<Longrightarrow> omap_wf (omap_put k v m)"
proof (induction m)
  case (Cons p m)
  then show ?case
    by (force simp: omap_wf_Cons omap_put_set)
qed (simp add: omap_wf_Cons)

lemma omap_get_put: "omap_wf m \<Longrightarrow> omap_get (omap_put k v m) = (omap_get m)(k := Some v)"
proof (induction m)
  case (Cons p m)
  have "omap_get m k = None" if "k < fst p \<or> fst p = k"
    using that Cons.prems by (force simp: omap_get_None_iff omap_wf_Cons omap_keys_def)
  with Cons show ?case
    by (auto simp: omap_get_Cons omap_wf_Cons fun_eq_iff)
qed (simp add: omap_get_Cons fun_eq_iff)

lemma omap_wf_filter: "omap_wf m \<Longrightarrow> omap_wf (filter P m)"
  by (induction m) (auto simp: omap_wf_Cons)

lemma omap_erase_wf: "omap_wf m \<Longrightarrow> omap_wf (omap_erase k m)"
  by (simp add: omap_erase_def omap_wf_filter)

lemma omap_get_erase: "omap_get (omap_erase k m) = (omap_get m)(k := None)"
proof (induction m)
  case (Cons p m)
  then show ?case
    by (auto simp: omap_erase_def omap_get_Cons fun_eq_iff)
qed (simp add: omap_erase_def)

lemma omap_before_from: "omap_before k m @ omap_from k m = m"
  by (simp add: omap_before_def omap_from_def)

lemma omap_before_lt: "p \<in> set (omap_before k m) \<Longrightarrow> fst p < k"
  by (auto simp: omap_before_def dest: set_takeWhileD)

lemma omap_from_ge: "omap_wf m \<Longrightarrow> p \<in> set (omap_from k m) \<Longrightarrow> k \<le> fst p"
proof (induction m)
  case (Cons q m)
  then show ?case
    by (force simp: omap_from_def omap_wf_Cons split: if_splits)
qed (simp add: omap_from_def)

lemma omap_wf_distinct: "omap_wf m \<Longrightarrow> distinct m"
  by (induction m) (force simp: omap_wf_Cons)+

lemma omap_wf_distinct_keys: "omap_wf m \<Longrightarrow> distinct (map fst m)"
  by (simp add: omap_wf_def strict_sorted_iff)

end
