(* ===== verification/Disk_Resize.thy ===== *)
theory Disk_Resize
  imports Allocator Ordered_Map
begin

text \<open>
  The block remapping step of the offline resize tool
  (\<open>disk_tool_t::resize_remap_blocks\<close> in \<open>src/src/disk_tool/disk_tool_resize.cpp\<close>), the simplest
  client of the block allocator: every used block in the part of the device that is given up is
  assigned a new place. The loops take the allocator's operations as arguments, so their lemmas
  are proved once for every pool of blocks and then used for the allocator.
\<close>

section \<open>The model\<close>

text \<open>Block numbers are \<open>uint64_t\<close>: \<open>total_blocks - i - 1\<close> wraps.\<close>

definition last_block :: "nat \<Rightarrow> nat \<Rightarrow> nat" where
  "last_block total_blocks i = unat (of_nat total_blocks - of_nat i - 1 :: u64)"

text \<open>The first two loops: remember a used block for moving, mark an unused one as taken.\<close>

fun remap_mark :: "('s \<Rightarrow> nat \<Rightarrow> bool) \<Rightarrow> ('s \<Rightarrow> nat \<Rightarrow> bool \<Rightarrow> 's) \<Rightarrow> nat list
    \<Rightarrow> 's \<times> (nat, nat) omap \<Rightarrow> 's \<times> (nat, nat) omap" where
  "remap_mark get mark [] (s, data_remap) = (s, data_remap)"
| "remap_mark get mark (b # bs) (s, data_remap) =
     remap_mark get mark bs
       (if get s b then (s, omap_put b 0 data_remap) else (mark s b True, data_remap))"

text \<open>The third loop, over the keys of \<open>data_remap\<close> in ascending order; the flag is the return
  code 1 (not enough space).\<close>

fun remap_assign :: "('s \<Rightarrow> u64) \<Rightarrow> ('s \<Rightarrow> nat \<Rightarrow> bool \<Rightarrow> 's) \<Rightarrow> nat list
    \<Rightarrow> 's \<times> (nat, nat) omap \<Rightarrow> nat \<times> 's \<times> (nat, nat) omap" where
  "remap_assign find_free mark [] (s, data_remap) = (0, s, data_remap)"
| "remap_assign find_free mark (b # bs) (s, data_remap) =
     (let new_loc = find_free s
      in if new_loc = UINT64_MAX then (1, s, data_remap)
         else remap_assign find_free mark bs
                (mark s (unat new_loc) True, omap_put b (unat new_loc) data_remap))"

definition resize_remap_blocks ::
  "('s \<Rightarrow> nat \<Rightarrow> bool) \<Rightarrow> ('s \<Rightarrow> nat \<Rightarrow> bool \<Rightarrow> 's) \<Rightarrow> ('s \<Rightarrow> u64)
    \<Rightarrow> nat \<Rightarrow> nat \<Rightarrow> nat \<Rightarrow> 's \<times> (nat, nat) omap \<Rightarrow> nat \<times> 's \<times> (nat, nat) omap" where
  "resize_remap_blocks get mark find_free total_blocks free_first free_last st =
     (let st = remap_mark get mark [0..<free_first] st;
          st = remap_mark get mark (map (last_block total_blocks) [0..<free_last]) st
      in remap_assign find_free mark (map fst (snd st)) st)"

text \<open>The blocks that lie outside the new data area.\<close>

definition freed_blocks :: "nat \<Rightarrow> nat \<Rightarrow> nat \<Rightarrow> nat set" where
  "freed_blocks total_blocks free_first free_last =
     {..<free_first} \<union> {total_blocks - free_last..<total_blocks}"

lemma last_block_eq:
  assumes "i < total_blocks" "total_blocks < 2 ^ 64"
  shows "last_block total_blocks i = total_blocks - i - 1"
proof -
  have eq: "(of_nat total_blocks - of_nat i - 1 :: u64) = of_nat (total_blocks - i - 1)"
    using assms(1) by (simp add: of_nat_diff)
  show ?thesis
    unfolding last_block_def eq unat_of_nat using assms by simp
qed

lemma last_blocks_set:
  assumes "free_last \<le> total_blocks" "total_blocks < 2 ^ 64"
  shows "set (map (last_block total_blocks) [0..<free_last]) = {total_blocks - free_last..<total_blocks}"
proof -
  have "last_block total_blocks ` {0..<free_last} = (\<lambda>i. total_blocks - i - 1) ` {0..<free_last}"
    using assms by (intro image_cong) (auto simp: last_block_eq)
  also have "\<dots> = {total_blocks - free_last..<total_blocks}"
  proof
    show "{total_blocks - free_last..<total_blocks} \<subseteq> (\<lambda>i. total_blocks - i - 1) ` {0..<free_last}"
    proof
      fix x assume "x \<in> {total_blocks - free_last..<total_blocks}"
      then show "x \<in> (\<lambda>i. total_blocks - i - 1) ` {0..<free_last}"
        using assms(1) by (intro image_eqI [of _ _ "total_blocks - x - 1"]) auto
    qed
  qed (use assms(1) in auto)
  finally show ?thesis by simp
qed

lemma last_blocks_distinct:
  assumes "free_last \<le> total_blocks" "total_blocks < 2 ^ 64"
  shows "distinct (map (last_block total_blocks) [0..<free_last])"
  using assms by (auto simp: distinct_map inj_on_def last_block_eq)

section \<open>The loops over any pool of blocks\<close>

context block_pool
begin

text \<open>Marking: with \<open>bs\<close> distinct and in range, the used set grows by \<open>bs\<close> and exactly the used ones
  among them are remembered.\<close>

lemma remap_mark_spec:
  assumes "invar s" "omap_wf m" "distinct bs" "\<forall>b \<in> set bs. b < capacity s"
    and "remap_mark get mark bs (s, m) = (s', m')"
  shows "invar s' \<and> capacity s' = capacity s \<and> used s' = used s \<union> set bs \<and> omap_wf m' \<and>
    omap_keys m' = omap_keys m \<union> (set bs \<inter> used s)"
  using assms
proof (induction bs arbitrary: s m)
  case (Cons b bs)
  show ?case
  proof (cases "get s b")
    case True
    then have "b \<in> used s" using Cons.prems(1) get_used by simp
    with True show ?thesis
      using Cons.IH [of s "omap_put b 0 m"] Cons.prems by (auto simp: omap_put_wf)
  next
    case False
    then have b: "b \<notin> used s" using Cons.prems(1) get_used by simp
    have mk: "invar (mark s b True)" "capacity (mark s b True) = capacity s"
      "used (mark s b True) = insert b (used s)"
      using Cons.prems mark_invar mark_capacity mark_used [of s b True] by auto
    with False show ?thesis
      using Cons.IH [of "mark s b True" m] Cons.prems b by auto
  qed
qed simp

text \<open>Assigning: every key gets a block that was unused before, all different; it fails exactly when
  there are fewer unused blocks than keys.\<close>

lemma remap_assign_spec:
  assumes "invar s" "64 \<le> capacity s" "omap_wf m" "distinct bs" "set bs \<subseteq> omap_keys m"
    and "remap_assign find_free mark bs (s, m) = (r, s', m')"
  shows "r = (if length bs \<le> capacity s - card (used s) then 0 else 1) \<and>
    invar s' \<and> capacity s' = capacity s \<and> used s \<subseteq> used s' \<and>
    omap_wf m' \<and> omap_keys m' = omap_keys m \<and>
    (\<forall>b. b \<notin> set bs \<longrightarrow> omap_get m' b = omap_get m b) \<and>
    (r = 0 \<longrightarrow> inj_on (omap_get m') (set bs) \<and>
       (\<forall>b \<in> set bs. \<exists>n. omap_get m' b = Some n \<and> n \<in> used s' - used s \<and> n < capacity s))"
  using assms
proof (induction bs arbitrary: s m)
  case (Cons b bs)
  let ?n = "unat (find_free s)"
  note ff = find_free_result [OF Cons.prems(1,2)]
  show ?case
  proof (cases "find_free s = UINT64_MAX")
    case True
    then have "card (used s) = capacity s" using ff(1) by simp
    with True Cons.prems show ?thesis by auto
  next
    case False
    then have n: "?n \<notin> used s" "?n < capacity s" using ff(2) by auto
    have mk: "invar (mark s ?n True)" "capacity (mark s ?n True) = capacity s"
      "used (mark s ?n True) = insert ?n (used s)"
      using Cons.prems n mark_invar mark_capacity mark_used [of s ?n True] by auto
    have run: "remap_assign find_free mark bs (mark s ?n True, omap_put b ?n m) = (r, s', m')"
      using Cons.prems(6) False by (simp add: Let_def)
    have pre: "64 \<le> capacity (mark s ?n True)" "omap_wf (omap_put b ?n m)" "distinct bs"
      "set bs \<subseteq> omap_keys (omap_put b ?n m)" "b \<notin> set bs" "b \<in> omap_keys m"
      using Cons.prems mk(2) by (auto simp: omap_put_wf)
    have IH': "r = (if length bs \<le> capacity s - card (insert ?n (used s)) then 0 else 1) \<and>
      invar s' \<and> capacity s' = capacity s \<and> insert ?n (used s) \<subseteq> used s' \<and>
      omap_wf m' \<and> omap_keys m' = insert b (omap_keys m) \<and>
      (\<forall>c. c \<notin> set bs \<longrightarrow> omap_get m' c = omap_get (omap_put b ?n m) c) \<and>
      (r = 0 \<longrightarrow> inj_on (omap_get m') (set bs) \<and>
       (\<forall>c \<in> set bs. \<exists>k. omap_get m' c = Some k \<and> k \<in> used s' - insert ?n (used s) \<and> k < capacity s))"
      using Cons.IH [OF mk(1) pre(1-4) run] unfolding mk omap_put_keys .
    have "insert ?n (used s) \<subseteq> {..<capacity s}"
      using used_bounded [OF Cons.prems(1)] n by auto
    then have "Suc (card (used s)) \<le> capacity s"
      using card_mono [of "{..<capacity s}" "insert ?n (used s)"] n used_finite [OF Cons.prems(1)]
      by simp
    then have len: "length bs \<le> capacity s - card (insert ?n (used s)) \<longleftrightarrow>
        length (b # bs) \<le> capacity s - card (used s)"
      unfolding card_insert_disjoint [OF used_finite [OF Cons.prems(1)] n(1)] list.size by arith
    have b: "b \<notin> set bs" "omap_get m' b = Some ?n" "b \<in> omap_keys m"
      using pre(5,6) IH' omap_get_put [OF Cons.prems(3)] by auto
    have inj: "inj_on (omap_get m') (set (b # bs))" if "r = 0"
      using IH' b that by auto
    have all: "\<forall>c \<in> set (b # bs). \<exists>k. omap_get m' c = Some k \<and> k \<in> used s' - used s \<and> k < capacity s"
      if "r = 0"
      using IH' b n that by auto
    have same: "\<forall>c. c \<notin> set (b # bs) \<longrightarrow> omap_get m' c = omap_get m c"
      using IH' omap_get_put [OF Cons.prems(3)] by auto
    show ?thesis
      using IH' inj all same b(3) unfolding len by (intro conjI) (simp_all add: insert_absorb)
  qed
qed simp

lemma least_free_chosen:
  assumes "invar s" "64 \<le> capacity s" "find_free s \<noteq> UINT64_MAX"
  shows "unat (find_free s) = (LEAST x. x \<notin> used s)"
proof -
  let ?l = "LEAST x. x \<notin> used s"
  obtain x where x: "x < capacity s" "x \<notin> used s"
    using find_free_result(2) [OF assms] by blast
  have "?l < 2 ^ 31"
    using least_free(2) [OF assms(1) x] capacity_bound [OF assms(1)] by simp
  then have "unat (of_nat ?l :: u64) = ?l"
    by (simp add: unat_of_nat)
  then show ?thesis
    using find_free_some [OF assms(1) x] by simp
qed

text \<open>As the first unused block is taken every time, all new places lie below a limit with enough unused blocks
  below it.\<close>

lemma remap_assign_low:
  assumes "invar s" "64 \<le> capacity s" "omap_wf m" "distinct bs" "set bs \<subseteq> omap_keys m"
    and "remap_assign find_free mark bs (s, m) = (0, s', m')" "length bs \<le> card ({..<L} - used s)"
  shows "\<forall>b \<in> set bs. \<exists>n. omap_get m' b = Some n \<and> n < L"
  using assms
proof (induction bs arbitrary: s m)
  case (Cons b bs)
  let ?n = "unat (find_free s)"
  have ne: "find_free s \<noteq> UINT64_MAX" using Cons.prems(6) by (auto simp: Let_def split: if_splits)
  have n: "?n \<notin> used s" "?n < capacity s" using find_free_result(2) [OF Cons.prems(1,2) ne] by auto
  have "{..<L} - used s \<noteq> {}"
  proof
    assume "{..<L} - used s = {}"
    then have "card ({..<L} - used s) = 0" by (simp only: card.empty)
    then show False using Cons.prems(7) unfolding list.size by linarith
  qed
  then obtain x where "x < L" "x \<notin> used s" by blast
  then have nL: "?n < L"
    using least_free_chosen [OF Cons.prems(1,2) ne] Least_le [of "\<lambda>x. x \<notin> used s" x] by simp
  have mk: "invar (mark s ?n True)" "capacity (mark s ?n True) = capacity s"
    "used (mark s ?n True) = insert ?n (used s)"
    using Cons.prems n mark_invar mark_capacity mark_used [of s ?n True] by auto
  have run: "remap_assign find_free mark bs (mark s ?n True, omap_put b ?n m) = (0, s', m')"
    using Cons.prems(6) ne by (simp add: Let_def)
  have pre: "64 \<le> capacity (mark s ?n True)" "omap_wf (omap_put b ?n m)" "distinct bs"
    "set bs \<subseteq> omap_keys (omap_put b ?n m)" "b \<notin> set bs"
    using Cons.prems mk(2) by (auto simp: omap_put_wf)
  have "{..<L} - insert ?n (used s) = ({..<L} - used s) - {?n}" by blast
  then have "card ({..<L} - used (mark s ?n True)) = card ({..<L} - used s) - 1"
    unfolding mk(3) using n(1) nL by simp
  then have "length bs \<le> card ({..<L} - used (mark s ?n True))" using Cons.prems(7) by simp
  from Cons.IH [OF mk(1) pre(1-4) run this]
  have "\<forall>c \<in> set bs. \<exists>k. omap_get m' c = Some k \<and> k < L" .
  moreover have "omap_get m' b = Some ?n"
    using remap_assign_spec [OF mk(1) pre(1-4) run] pre(5) omap_get_put [OF Cons.prems(3)] by simp
  ultimately show ?case using nL by simp
qed simp

lemma resize_remap_blocks_spec:
  assumes "invar s" "64 \<le> capacity s" "total_blocks \<le> capacity s"
    and "free_first + free_last \<le> total_blocks"
    and "resize_remap_blocks get mark find_free total_blocks free_first free_last (s, []) = (r, s', m)"
  defines "freed \<equiv> freed_blocks total_blocks free_first free_last"
  shows "r = (if card (used s \<inter> freed) \<le> capacity s - card (used s \<union> freed) then 0 else 1) \<and>
    omap_keys m = used s \<inter> freed \<and>
    (r = 0 \<longrightarrow> inj_on (omap_get m) (used s \<inter> freed) \<and>
       (\<forall>b \<in> used s \<inter> freed. \<exists>n. omap_get m b = Some n \<and> n < capacity s \<and> n \<notin> used s \<union> freed) \<and>
       ((\<forall>b \<in> used s \<inter> freed. \<exists>n. omap_get m b = Some n \<and> free_first \<le> n \<and> n < total_blocks - free_last) \<longleftrightarrow>
         card (used s \<inter> freed) \<le> card ({free_first..<total_blocks - free_last} - used s)))"
proof -
  let ?lasts = "map (last_block total_blocks) [0..<free_last]"
  have small: "total_blocks < 2 ^ 64"
    using assms(1,3) capacity_bound [OF assms(1)] by simp
  have lasts: "set ?lasts = {total_blocks - free_last..<total_blocks}" "distinct ?lasts"
    using assms(4) small last_blocks_set [of free_last total_blocks] last_blocks_distinct [of free_last total_blocks]
    by simp_all
  obtain s1 m1 where st1: "remap_mark get mark [0..<free_first] (s, []) = (s1, m1)"
    by (rule prod.exhaust)
  obtain s2 m2 where st2: "remap_mark get mark ?lasts (s1, m1) = (s2, m2)"
    by (rule prod.exhaust)
  have 1: "invar s1 \<and> capacity s1 = capacity s \<and> used s1 = used s \<union> {..<free_first} \<and> omap_wf m1 \<and>
      omap_keys m1 = {..<free_first} \<inter> used s"
    using remap_mark_spec [OF assms(1) omap_wf_Nil _ _ st1] assms(3,4)
    by (simp add: atLeast0LessThan)
  have 2: "invar s2 \<and> capacity s2 = capacity s \<and> used s2 = used s \<union> freed \<and> omap_wf m2 \<and>
      omap_keys m2 = used s \<inter> freed"
  proof -
    have "invar s2 \<and> capacity s2 = capacity s1 \<and> used s2 = used s1 \<union> set ?lasts \<and> omap_wf m2 \<and>
      omap_keys m2 = omap_keys m1 \<union> (set ?lasts \<inter> used s1)"
      using 1 lasts assms(3,4) by (intro remap_mark_spec [OF _ _ _ _ st2]) auto
    moreover have "set ?lasts \<inter> {..<free_first} = {}"
      using lasts(1) assms(4) by auto
    moreover have "used s \<union> freed = used s1 \<union> set ?lasts"
      using 1 unfolding lasts(1) freed_def freed_blocks_def by simp blast
    moreover have "omap_keys m1 \<union> (set ?lasts \<inter> used s1) = used s \<inter> freed"
      using 1 \<open>set ?lasts \<inter> {..<free_first} = {}\<close> unfolding lasts(1) freed_def freed_blocks_def
      by simp blast
    ultimately show ?thesis
      using 1 by simp
  qed
  have st3: "remap_assign find_free mark (map fst m2) (s2, m2) = (r, s', m)"
    using assms(5) st1 st2 by (simp add: resize_remap_blocks_def Let_def)
  have keys: "set (map fst m2) = used s \<inter> freed" "distinct (map fst m2)"
    using 2 by (auto simp: omap_keys_def omap_wf_distinct_keys)
  then have len: "length (map fst m2) = card (used s \<inter> freed)"
    by (metis distinct_card)
  have pre: "invar s2" "64 \<le> capacity s2" "omap_wf m2" "set (map fst m2) \<subseteq> omap_keys m2"
    using 2 assms(2) keys(1) by simp_all
  have 3: "r = (if length (map fst m2) \<le> capacity s2 - card (used s2) then 0 else 1) \<and>
    omap_keys m = omap_keys m2 \<and>
    (r = 0 \<longrightarrow> inj_on (omap_get m) (set (map fst m2)) \<and>
       (\<forall>b \<in> set (map fst m2). \<exists>n. omap_get m b = Some n \<and> n \<in> used s' - used s2 \<and> n < capacity s2))"
    using remap_assign_spec [OF pre(1-3) keys(2) pre(4) st3] by blast
  have s2: "capacity s2 = capacity s" "used s2 = used s \<union> freed" "omap_keys m2 = used s \<inter> freed"
    using 2 by simp_all
  let ?M = "used s \<inter> freed" and ?K = "{free_first..<total_blocks - free_last} - used s"
  have r: "r = (if card ?M \<le> capacity s - card (used s \<union> freed) then 0 else 1)" and km: "omap_keys m = ?M"
    using 3 unfolding len s2 by simp_all
  have res: "inj_on (omap_get m) ?M" "\<And>b. b \<in> ?M \<Longrightarrow> \<exists>n. omap_get m b = Some n \<and> n < capacity s \<and> n \<notin> used s \<union> freed"
    if "r = 0"
    using 3 that unfolding keys(1) s2 by (simp, blast)
  have K: "{..<total_blocks - free_last} - used s2 = ?K"
    unfolding s2 freed_def freed_blocks_def using assms(4) by auto
  have low: "\<exists>n. omap_get m b = Some n \<and> free_first \<le> n \<and> n < total_blocks - free_last"
    if r0: "r = 0" and le: "card ?M \<le> card ?K" and b: "b \<in> ?M" for b
  proof -
    have "\<forall>b \<in> set (map fst m2). \<exists>n. omap_get m b = Some n \<and> n < total_blocks - free_last"
      using le by (intro remap_assign_low [OF pre(1-3) keys(2) pre(4) st3 [unfolded r0]]) (simp only: K len)
    then obtain n where n: "omap_get m b = Some n" "n < total_blocks - free_last"
      using b keys(1) by blast
    moreover have "n \<notin> freed" using res(2) [OF r0 b] n(1) by auto
    ultimately show ?thesis by (auto simp: freed_def freed_blocks_def)
  qed
  have fit: "card ?M \<le> card ?K" if "r = 0" "\<forall>b \<in> ?M. \<exists>n. omap_get m b = Some n \<and> free_first \<le> n \<and> n < total_blocks - free_last"
  proof -
    have "omap_get m ` ?M \<subseteq> Some ` ?K"
      using that(2) res(2) [OF that(1)] by fastforce
    then have "card (omap_get m ` ?M) \<le> card (Some ` ?K)"
      by (intro card_mono) simp_all
    then show ?thesis
      using card_image [OF res(1) [OF that(1)]] card_image [of Some ?K] by simp
  qed
  show ?thesis
    using r km res low fit by blast
qed

end

section \<open>Properties\<close>

text \<open>C15: for an allocator of at least 64 blocks (a smaller one does not report that it is full), the remapping succeeds
  exactly when the blocks in use in the freed parts fit into the unused blocks of the rest of the allocator. On success every
  such block gets a new place that lies inside the allocator, outside the freed parts, was not in use, and differs from the
  place of every other moved block; on failure the code 1 is returned. The new places all lie in the kept part of the old data
  area, which \<open>resize_rewrite_meta\<close> insists on, exactly when that part has room for them; when the data area grows at its end
  and the kept part is full, places behind the old end are used.\<close>

theorem resize_remap_blocks_correct:
  assumes "allocator_inv a" "64 \<le> al_size a" "total_blocks \<le> al_size a"
    and "free_first + free_last \<le> total_blocks"
    and "resize_remap_blocks allocator_get allocator_set allocator_find_free
      total_blocks free_first free_last (a, []) = (r, a', data_remap)"
  shows "let freed = freed_blocks total_blocks free_first free_last;
             moved = al_used a \<inter> freed in
    r = (if card moved \<le> al_size a - card (al_used a \<union> freed) then 0 else 1) \<and>
    omap_keys data_remap = moved \<and>
    (r = 0 \<longrightarrow> inj_on (omap_get data_remap) moved \<and>
       (\<forall>b \<in> moved. \<exists>n. omap_get data_remap b = Some n \<and> n < al_size a \<and> n \<notin> al_used a \<union> freed) \<and>
       ((\<forall>b \<in> moved. \<exists>n. omap_get data_remap b = Some n \<and> free_first \<le> n \<and> n < total_blocks - free_last) \<longleftrightarrow>
         card moved \<le> card ({free_first..<total_blocks - free_last} - al_used a)))"
  unfolding Let_def using assms by (rule data_alloc.resize_remap_blocks_spec)

theorem resize_remap_blocks_correct_witness:
  "\<exists>a a' m. allocator_inv a \<and> al_used a = {0} \<and>
     resize_remap_blocks allocator_get allocator_set allocator_find_free 70 1 2 (a, []) = (0, a', m) \<and>
     omap_keys m = {0}"
proof -
  obtain a where a: "allocator_new 70 = Inr a"
    using allocator_new_ok [of 70] by auto
  note new = allocator_new_inv [OF a]
  let ?a = "allocator_set a 0 True"
  have inv: "allocator_inv ?a" "al_size ?a = 70" "al_used ?a = {0}"
    using new allocator_set_inv data_alloc.mark_used [of a 0 True]
      data_alloc.mark_capacity [of a 0 True] by auto
  obtain r a' m where run: "resize_remap_blocks allocator_get allocator_set allocator_find_free
      70 1 2 (?a, []) = (r, a', m)"
    by (metis surj_pair)
  have freed: "freed_blocks 70 1 2 = {0, 68, 69}"
    by (auto simp: freed_blocks_def)
  have "r = 0 \<and> omap_keys m = {0}"
    using resize_remap_blocks_correct [OF inv(1) _ _ _ run] inv freed by (simp add: Let_def)
  with run inv show ?thesis by blast
qed

end
