(* ===== verification/Object_Id.thy ===== *)
theory Object_Id
  imports Prelude
begin

text \<open>
  Object, pool and placement group identifiers (\<open>src/src/client/object_id.h\<close>, \<open>src/src/osd/osd_id.h\<close>,
  \<open>map_to_pg\<close> and \<open>osd_object_id_t\<close> in \<open>src/src/osd/osd.h\<close>). The comparison operators of the sources are
  definitions over the identifiers' fields; they are proved to be the strict parts of linear orders,
  and the identifier types are instances of \<open>linorder\<close> with these operators as \<open><\<close>, which is what makes
  them keys of the ordered maps of the other theories.
\<close>

section \<open>The model\<close>

type_synonym osd_num = u64

datatype object_id = Object_id (inode: u64) (stripe: u64)

definition object_id_eq :: "object_id \<Rightarrow> object_id \<Rightarrow> bool" where
  "object_id_eq a b \<longleftrightarrow> inode a = inode b \<and> stripe a = stripe b"

definition object_id_neq :: "object_id \<Rightarrow> object_id \<Rightarrow> bool" where
  "object_id_neq a b \<longleftrightarrow> inode a \<noteq> inode b \<or> stripe a \<noteq> stripe b"

definition object_id_lt :: "object_id \<Rightarrow> object_id \<Rightarrow> bool" where
  "object_id_lt a b \<longleftrightarrow> inode a < inode b \<or> inode a = inode b \<and> stripe a < stripe b"

datatype obj_ver_id = Obj_ver_id (oid: object_id) (version: u64)

definition obj_ver_id_eq :: "obj_ver_id \<Rightarrow> obj_ver_id \<Rightarrow> bool" where
  "obj_ver_id_eq a b \<longleftrightarrow> object_id_eq (oid a) (oid b) \<and> version a = version b"

definition obj_ver_id_lt :: "obj_ver_id \<Rightarrow> obj_ver_id \<Rightarrow> bool" where
  "obj_ver_id_lt a b \<longleftrightarrow>
     object_id_lt (oid a) (oid b) \<or> object_id_eq (oid a) (oid b) \<and> version a < version b"

definition hash_combine :: "u64 \<Rightarrow> u64 \<Rightarrow> u64" where
  "hash_combine seed x = seed XOR (x + 0xc6a4a7935bd1e995 + push_bit 6 seed + drop_bit 2 seed)"

definition object_id_hash :: "object_id \<Rightarrow> u64" where
  "object_id_hash s = hash_combine (hash_combine 0 (inode s)) (stripe s)"

definition obj_ver_id_hash :: "obj_ver_id \<Rightarrow> u64" where
  "obj_ver_id_hash s =
     hash_combine (hash_combine (hash_combine 0 (inode (oid s))) (stripe (oid s))) (version s)"

datatype pool_pg_num = Pool_pg_num (pool_id: u32) (pg_num: u32)

definition pool_pg_num_lt :: "pool_pg_num \<Rightarrow> pool_pg_num \<Rightarrow> bool" where
  "pool_pg_num_lt a b \<longleftrightarrow> pool_id a < pool_id b \<or> pool_id a = pool_id b \<and> pg_num a < pg_num b"

definition pool_pg_num_eq :: "pool_pg_num \<Rightarrow> pool_pg_num \<Rightarrow> bool" where
  "pool_pg_num_eq a b \<longleftrightarrow> pool_id a = pool_id b \<and> pg_num a = pg_num b"

definition pool_pg_num_neq :: "pool_pg_num \<Rightarrow> pool_pg_num \<Rightarrow> bool" where
  "pool_pg_num_neq a b \<longleftrightarrow> pool_id a \<noteq> pool_id b \<or> pg_num a \<noteq> pg_num b"

datatype osd_object_id = Osd_object_id (oo_osd_num: u64) (oo_oid: object_id)

definition osd_object_id_eq :: "osd_object_id \<Rightarrow> osd_object_id \<Rightarrow> bool" where
  "osd_object_id_eq a b \<longleftrightarrow> oo_osd_num a = oo_osd_num b \<and> inode (oo_oid a) = inode (oo_oid b) \<and>
     stripe (oo_oid a) = stripe (oo_oid b)"

definition osd_object_id_lt :: "osd_object_id \<Rightarrow> osd_object_id \<Rightarrow> bool" where
  "osd_object_id_lt a b \<longleftrightarrow> oo_osd_num a < oo_osd_num b \<or>
     oo_osd_num a = oo_osd_num b \<and>
       (inode (oo_oid a) < inode (oo_oid b) \<or>
        inode (oo_oid a) = inode (oo_oid b) \<and> stripe (oo_oid a) < stripe (oo_oid b))"

text \<open>The upper 16 bits of an inode number are the pool.\<close>

definition INODE_POOL :: "u64 \<Rightarrow> u32" where
  "INODE_POOL i = ucast (drop_bit 48 i)"

definition INODE_NO_POOL :: "u64 \<Rightarrow> u64" where
  "INODE_NO_POOL i = i AND (push_bit 48 1 - 1)"

definition INODE_WITH_POOL :: "u32 \<Rightarrow> u64 \<Rightarrow> u64" where
  "INODE_WITH_POOL p i = push_bit 48 (ucast p) OR INODE_NO_POOL i"

definition map_to_pg :: "(u32 \<Rightarrow> u64) \<Rightarrow> object_id \<Rightarrow> u64 \<Rightarrow> u32" where
  "map_to_pg pg_counts o_id pg_stripe_size =
     (let pg_count = pg_counts (INODE_POOL (inode o_id));
          pg_count = (if pg_count = 0 then 1 else pg_count)
      in ucast ((stripe o_id div pg_stripe_size) mod pg_count + 1))"

section \<open>The orders\<close>

text \<open>What an ordered container needs of a comparison: \<open>lt\<close> is transitive, irreflexive and total up to
  the equality \<open>eq\<close>, which is the identity.\<close>

definition strict_order_on_ids :: "('a \<Rightarrow> 'a \<Rightarrow> bool) \<Rightarrow> ('a \<Rightarrow> 'a \<Rightarrow> bool) \<Rightarrow> bool" where
  "strict_order_on_ids lt eq \<longleftrightarrow>
     (\<forall>a. \<not> lt a a) \<and> (\<forall>a b c. lt a b \<longrightarrow> lt b c \<longrightarrow> lt a c) \<and>
     (\<forall>a b. \<not> lt a b \<and> \<not> lt b a \<longleftrightarrow> eq a b) \<and> (\<forall>a b. eq a b \<longleftrightarrow> a = b)"

text \<open>Every comparison of the sources is the lexicographic order on two keys.\<close>

lemma strict_order_lexicographic:
  fixes f :: "'a \<Rightarrow> 'b::linorder" and g :: "'a \<Rightarrow> 'c::linorder"
  assumes "\<And>a b. lt a b \<longleftrightarrow> f a < f b \<or> f a = f b \<and> g a < g b"
    and "\<And>a b. eq a b \<longleftrightarrow> f a = f b \<and> g a = g b"
    and "\<And>a b. f a = f b \<Longrightarrow> g a = g b \<Longrightarrow> a = b"
  shows "strict_order_on_ids lt eq"
  unfolding strict_order_on_ids_def assms(1,2)
proof (intro conjI allI impI)
  fix a b
  show "(f a = f b \<and> g a = g b) = (a = b)" using assms(3) by blast
  show "(\<not> (f a < f b \<or> f a = f b \<and> g a < g b) \<and> \<not> (f b < f a \<or> f b = f a \<and> g b < g a))
    = (f a = f b \<and> g a = g b)" by force
qed auto

lemma strict_order_antisym: "strict_order_on_ids lt eq \<Longrightarrow> lt a b \<Longrightarrow> \<not> lt b a"
  unfolding strict_order_on_ids_def by blast

lemma strict_order_total: "strict_order_on_ids lt eq \<Longrightarrow> lt a b \<or> a = b \<or> lt b a"
  unfolding strict_order_on_ids_def by blast

lemma object_id_strict_order: "strict_order_on_ids object_id_lt object_id_eq"
  by (rule strict_order_lexicographic [of _ inode stripe])
    (auto simp: object_id_lt_def object_id_eq_def object_id.expand)

instantiation object_id :: linorder
begin

definition less_object_id :: "object_id \<Rightarrow> object_id \<Rightarrow> bool" where
  "less_object_id = object_id_lt"

definition less_eq_object_id :: "object_id \<Rightarrow> object_id \<Rightarrow> bool" where
  "less_eq_object_id a b \<longleftrightarrow> object_id_lt a b \<or> a = b"

instance
proof
  note so = object_id_strict_order
  fix x y z :: object_id
  show "(x < y) = (x \<le> y \<and> \<not> y \<le> x)"
    using strict_order_antisym [OF so] so
    unfolding less_object_id_def less_eq_object_id_def strict_order_on_ids_def by blast
  show "x \<le> y \<Longrightarrow> y \<le> z \<Longrightarrow> x \<le> z"
    using so unfolding less_eq_object_id_def strict_order_on_ids_def by blast
  show "x \<le> y \<Longrightarrow> y \<le> x \<Longrightarrow> x = y"
    using strict_order_antisym [OF so] unfolding less_eq_object_id_def by blast
  show "x \<le> y \<or> y \<le> x"
    using strict_order_total [OF so] unfolding less_eq_object_id_def by blast
qed (simp add: less_eq_object_id_def)

end

lemma object_id_lt_less [simp]: "object_id_lt = (<)"
  by (simp add: less_object_id_def)

lemma object_id_eq_eq [simp]: "object_id_eq = (=)"
  by (auto simp: object_id_eq_def fun_eq_iff object_id.expand)

lemma object_id_less_iff:
  "a < b \<longleftrightarrow> inode a < inode b \<or> inode a = inode b \<and> stripe a < stripe b"
  by (simp add: object_id_lt_def flip: object_id_lt_less)

lemma obj_ver_id_strict_order: "strict_order_on_ids obj_ver_id_lt obj_ver_id_eq"
  by (rule strict_order_lexicographic [of _ oid version])
    (auto simp: obj_ver_id_lt_def obj_ver_id_eq_def obj_ver_id.expand)

instantiation obj_ver_id :: linorder
begin

definition less_obj_ver_id :: "obj_ver_id \<Rightarrow> obj_ver_id \<Rightarrow> bool" where
  "less_obj_ver_id = obj_ver_id_lt"

definition less_eq_obj_ver_id :: "obj_ver_id \<Rightarrow> obj_ver_id \<Rightarrow> bool" where
  "less_eq_obj_ver_id a b \<longleftrightarrow> obj_ver_id_lt a b \<or> a = b"

instance
proof
  note so = obj_ver_id_strict_order
  fix x y z :: obj_ver_id
  show "(x < y) = (x \<le> y \<and> \<not> y \<le> x)"
    using strict_order_antisym [OF so] so
    unfolding less_obj_ver_id_def less_eq_obj_ver_id_def strict_order_on_ids_def by blast
  show "x \<le> y \<Longrightarrow> y \<le> z \<Longrightarrow> x \<le> z"
    using so unfolding less_eq_obj_ver_id_def strict_order_on_ids_def by blast
  show "x \<le> y \<Longrightarrow> y \<le> x \<Longrightarrow> x = y"
    using strict_order_antisym [OF so] unfolding less_eq_obj_ver_id_def by blast
  show "x \<le> y \<or> y \<le> x"
    using strict_order_total [OF so] unfolding less_eq_obj_ver_id_def by blast
qed (simp add: less_eq_obj_ver_id_def)

end

lemma obj_ver_id_less_iff:
  "a < b \<longleftrightarrow> oid a < oid b \<or> oid a = oid b \<and> version a < version b"
  by (simp add: less_obj_ver_id_def obj_ver_id_lt_def)

lemma pool_pg_num_strict_order: "strict_order_on_ids pool_pg_num_lt pool_pg_num_eq"
  by (rule strict_order_lexicographic [of _ pool_id pg_num])
    (auto simp: pool_pg_num_lt_def pool_pg_num_eq_def pool_pg_num.expand)

lemma osd_object_id_strict_order: "strict_order_on_ids osd_object_id_lt osd_object_id_eq"
  by (rule strict_order_lexicographic [of _ oo_osd_num oo_oid])
    (auto simp: osd_object_id_lt_def osd_object_id_eq_def object_id_less_iff osd_object_id.expand
      object_id.expand)

section \<open>Pool numbers\<close>

lemma INODE_POOL_bit: "bit (INODE_POOL i) n \<longleftrightarrow> n < 32 \<and> bit i (48 + n)"
  by (simp add: INODE_POOL_def bit_unsigned_iff bit_drop_bit_eq)

lemma INODE_NO_POOL_bit: "bit (INODE_NO_POOL i) n \<longleftrightarrow> n < 48 \<and> bit i n"
proof -
  have "bit (push_bit 48 1 - 1 :: u64) n \<longleftrightarrow> n < 48"
    using bit_mask_word_iff [of 48 n, where 'a = 64] by simp
  then show ?thesis
    unfolding INODE_NO_POOL_def bit_and_iff by blast
qed

lemma INODE_WITH_POOL_bit:
  "bit (INODE_WITH_POOL p i) n \<longleftrightarrow> n < 64 \<and> (if n < 48 then bit i n else bit p (n - 48))"
  by (auto simp: INODE_WITH_POOL_def bit_or_iff bit_push_bit_iff bit_unsigned_iff INODE_NO_POOL_bit)

section \<open>Hashes\<close>

lemma hash_combine_inj: "hash_combine seed x = hash_combine seed y \<longleftrightarrow> x = y"
  by (simp add: hash_combine_def word_xor_left_cancel)

lemma object_id_hash_inj_stripe:
  "inode a = inode b \<Longrightarrow> object_id_hash a = object_id_hash b \<longleftrightarrow> a = b"
  by (auto simp: object_id_hash_def hash_combine_inj object_id.expand)

section \<open>Properties\<close>

text \<open>C17: the comparison operators of object, object version, placement group and OSD object identifiers
  are strict total orders in which exactly the identical identifiers are incomparable, and \<open>==\<close> and \<open>!=\<close>
  decide identity: the identifiers can be keys of ordered maps.\<close>

theorem id_orders_strict:
  "strict_order_on_ids object_id_lt object_id_eq \<and> strict_order_on_ids obj_ver_id_lt obj_ver_id_eq \<and>
   strict_order_on_ids pool_pg_num_lt pool_pg_num_eq \<and>
   strict_order_on_ids osd_object_id_lt osd_object_id_eq \<and>
   object_id_neq a b = (a \<noteq> b) \<and> pool_pg_num_neq c d = (c \<noteq> d)"
  using object_id_strict_order obj_ver_id_strict_order pool_pg_num_strict_order
    osd_object_id_strict_order
  by (auto simp: object_id_neq_def pool_pg_num_neq_def object_id.expand pool_pg_num.expand)

text \<open>C18: splitting an inode number into its pool and the rest and joining them again gives the number
  back; joining a pool and a number keeps the low 16 bits of the pool and the low 48 bits of the
  number.\<close>

theorem inode_pool_roundtrip:
  "INODE_WITH_POOL (INODE_POOL i) (INODE_NO_POOL i) = i \<and>
   INODE_POOL (INODE_WITH_POOL p i) = take_bit 16 p \<and>
   INODE_NO_POOL (INODE_WITH_POOL p i) = take_bit 48 i"
proof (intro conjI)
  show "INODE_WITH_POOL (INODE_POOL i) (INODE_NO_POOL i) = i"
    by (rule bit_word_eqI) (auto simp: INODE_WITH_POOL_bit INODE_POOL_bit INODE_NO_POOL_bit)
  show "INODE_POOL (INODE_WITH_POOL p i) = take_bit 16 p"
    by (rule bit_word_eqI) (auto simp: INODE_WITH_POOL_bit INODE_POOL_bit bit_take_bit_iff)
  show "INODE_NO_POOL (INODE_WITH_POOL p i) = take_bit 48 i"
    by (rule bit_word_eqI) (auto simp: INODE_WITH_POOL_bit INODE_NO_POOL_bit bit_take_bit_iff)
qed

lemma unat_map_to_pg:
  assumes "unat (pg_counts (INODE_POOL (inode o_id))) < 2 ^ 32"
  shows "unat (map_to_pg pg_counts o_id pg_stripe_size) =
    unat (stripe o_id div pg_stripe_size) mod max 1 (unat (pg_counts (INODE_POOL (inode o_id)))) + 1"
proof -
  define c where "c = pg_counts (INODE_POOL (inode o_id))"
  define d where "d = (if c = 0 then 1 else c)"
  define q where "q = stripe o_id div pg_stripe_size"
  have d: "unat d = max 1 (unat c)" "0 < unat d" "unat d < 2 ^ 32"
    using assms unat_gt_0 [of c] by (auto simp: d_def c_def max_def Suc_leI)
  have m: "unat (q mod d) = unat q mod unat d"
    by (simp add: unat_mod_distrib)
  have lt: "unat q mod unat d < unat d"
    using d(2) by simp
  then have "unat (q mod d + 1) = unat q mod unat d + 1"
    using d(3) m by (simp add: unat_word_ariths)
  moreover from this have "unat (ucast (q mod d + 1) :: u32) = unat q mod unat d + 1"
    using lt d(3) by (simp add: unsigned_ucast_eq take_bit_nat_eq_self_iff)
  moreover have "map_to_pg pg_counts o_id pg_stripe_size = ucast (q mod d + 1)"
    by (simp add: map_to_pg_def Let_def d_def c_def q_def)
  ultimately show ?thesis
    using d(1) by (simp add: c_def q_def)
qed

end
