(* ===== verification/Pg_States.thy ===== *)
theory Pg_States
  imports Prelude
begin

text \<open>
  Placement group state words and their names (\<open>src/src/client/pg_states.h\<close>, \<open>pg_states.cpp\<close>), how an OSD
  prints a state into etcd (\<open>src/src/osd/osd_cluster.cpp\<close>, \<open>report_pg_states\<close>) and how every client reads
  it back (\<open>src/src/client/etcd_state_client.cpp\<close>, \<open>parse_state\<close>). States are \<open>int\<close> in the sources; all the
  flags are below \<open>2 ^ 17\<close> and the model uses 32-bit words.
\<close>

section \<open>The model\<close>

definition PG_STARTING :: u32 where "PG_STARTING = push_bit 0 1"
definition PG_PEERING :: u32 where "PG_PEERING = push_bit 1 1"
definition PG_INCOMPLETE :: u32 where "PG_INCOMPLETE = push_bit 2 1"
definition PG_ACTIVE :: u32 where "PG_ACTIVE = push_bit 3 1"
definition PG_REPEERING :: u32 where "PG_REPEERING = push_bit 4 1"
definition PG_STOPPING :: u32 where "PG_STOPPING = push_bit 5 1"
definition PG_OFFLINE :: u32 where "PG_OFFLINE = push_bit 6 1"
definition PG_DEGRADED :: u32 where "PG_DEGRADED = push_bit 7 1"
definition PG_HAS_INCOMPLETE :: u32 where "PG_HAS_INCOMPLETE = push_bit 8 1"
definition PG_HAS_DEGRADED :: u32 where "PG_HAS_DEGRADED = push_bit 9 1"
definition PG_HAS_MISPLACED :: u32 where "PG_HAS_MISPLACED = push_bit 10 1"
definition PG_HAS_UNCLEAN :: u32 where "PG_HAS_UNCLEAN = push_bit 11 1"
definition PG_HAS_INVALID :: u32 where "PG_HAS_INVALID = push_bit 12 1"
definition PG_HAS_CORRUPTED :: u32 where "PG_HAS_CORRUPTED = push_bit 13 1"
definition PG_HAS_INCONSISTENT :: u32 where "PG_HAS_INCONSISTENT = push_bit 14 1"
definition PG_LEFT_ON_DEAD :: u32 where "PG_LEFT_ON_DEAD = push_bit 15 1"
definition PG_SCRUBBING :: u32 where "PG_SCRUBBING = push_bit 16 1"

definition OBJ_DEGRADED :: u32 where "OBJ_DEGRADED = 0x02"
definition OBJ_INCOMPLETE :: u32 where "OBJ_INCOMPLETE = 0x04"
definition OBJ_MISPLACED :: u32 where "OBJ_MISPLACED = 0x08"
definition OBJ_CORRUPTED :: u32 where "OBJ_CORRUPTED = 0x10"
definition OBJ_INCONSISTENT :: u32 where "OBJ_INCONSISTENT = 0x20"
definition OBJ_NEEDS_STABLE :: u32 where "OBJ_NEEDS_STABLE = 0x10000"
definition OBJ_NEEDS_ROLLBACK :: u32 where "OBJ_NEEDS_ROLLBACK = 0x20000"

definition STRIPE_MASK :: u64 where "STRIPE_MASK = 4096 - 1"

definition pg_state_bits :: "u32 list" where
  "pg_state_bits = [PG_STARTING, PG_PEERING, PG_INCOMPLETE, PG_ACTIVE, PG_REPEERING, PG_STOPPING,
     PG_OFFLINE, PG_DEGRADED, PG_HAS_INCONSISTENT, PG_HAS_CORRUPTED, PG_HAS_INCOMPLETE,
     PG_HAS_DEGRADED, PG_HAS_MISPLACED, PG_HAS_UNCLEAN, PG_HAS_INVALID, PG_LEFT_ON_DEAD,
     PG_SCRUBBING]"

definition pg_state_names :: "string list" where
  "pg_state_names = [''starting'', ''peering'', ''incomplete'', ''active'', ''repeering'', ''stopping'',
     ''offline'', ''degraded'', ''has_inconsistent'', ''has_corrupted'', ''has_incomplete'',
     ''has_degraded'', ''has_misplaced'', ''has_unclean'', ''has_invalid'', ''left_on_dead'',
     ''scrubbing'']"

definition object_state_bits :: "u32 list" where
  "object_state_bits = [OBJ_DEGRADED, OBJ_INCOMPLETE, OBJ_MISPLACED, OBJ_CORRUPTED, OBJ_INCONSISTENT,
     OBJ_NEEDS_STABLE, OBJ_NEEDS_ROLLBACK, 0]"

definition object_state_names :: "string list" where
  "object_state_names = [''degraded'', ''incomplete'', ''misplaced'', ''corrupted'', ''inconsistent'',
     ''needs_stable'', ''needs_rollback'', ''clean'']"

text \<open>The keyword list an OSD writes for a state: the names of the bits set, in table order.\<close>

definition pg_state_keywords :: "u32 \<Rightarrow> string list" where
  "pg_state_keywords state =
     map snd (filter (\<lambda>(b, _). state AND b \<noteq> 0) (zip pg_state_bits pg_state_names))"

definition object_state_keywords :: "u32 \<Rightarrow> string list" where
  "object_state_keywords obj_state =
     map snd (filter (\<lambda>(b, _). obj_state AND b \<noteq> 0 \<or> b = 0 \<and> obj_state = 0)
       (zip object_state_bits object_state_names))"

text \<open>Reading the keywords: an unknown keyword makes the update be ignored (\<open>None\<close>). The keywords are a list here, so that
  the test that the JSON value is an array always holds.\<close>

definition keyword_bit :: "string \<Rightarrow> u32 option" where
  "keyword_bit e = map_of (zip pg_state_names pg_state_bits) e"

fun parse_keywords :: "string list \<Rightarrow> u32 \<Rightarrow> u32 option" where
  "parse_keywords [] state = Some state"
| "parse_keywords (e # es) state =
     (case keyword_bit e of
        None \<Rightarrow> None
      | Some b \<Rightarrow> parse_keywords es (state OR b))"

definition state_acceptable :: "u64 \<Rightarrow> u32 \<Rightarrow> bool" where
  "state_acceptable cur_primary state \<longleftrightarrow>
     \<not> (cur_primary = 0 \<or> state = 0 \<or>
        state AND PG_OFFLINE \<noteq> 0 \<and> state \<noteq> PG_OFFLINE \<or>
        state AND PG_PEERING \<noteq> 0 \<and> state \<noteq> PG_PEERING \<or>
        state AND PG_INCOMPLETE \<noteq> 0 \<and> state \<noteq> PG_INCOMPLETE)"

text \<open>What the handler of a \<open>pg/state\<close> key does to a placement group's entry: \<open>None\<close> is a deleted key,
  \<open>Some (primary, keywords)\<close> the stored object. The result tells whether the change hook runs.\<close>

record pg_config =
  state_exists :: bool
  cur_primary :: u64
  cur_state :: u32

definition parse_pg_state :: "(u64 \<times> string list) option \<Rightarrow> pg_config \<Rightarrow> pg_config \<times> bool" where
  "parse_pg_state value pg_cfg =
     (case value of
        None \<Rightarrow> (pg_cfg\<lparr>state_exists := False, cur_primary := 0, cur_state := 0\<rparr>, True)
      | Some (primary, keywords) \<Rightarrow>
          let pg_cfg = pg_cfg\<lparr>state_exists := True\<rparr> in
          (case parse_keywords keywords 0 of
             None \<Rightarrow> (pg_cfg, False)
           | Some state \<Rightarrow>
               if \<not> state_acceptable primary state then (pg_cfg, False)
               else (pg_cfg\<lparr>cur_primary := primary, cur_state := state\<rparr>, True)))"

lemmas pg_state_defs = PG_STARTING_def PG_PEERING_def PG_INCOMPLETE_def PG_ACTIVE_def PG_REPEERING_def
  PG_STOPPING_def PG_OFFLINE_def PG_DEGRADED_def PG_HAS_INCOMPLETE_def PG_HAS_DEGRADED_def
  PG_HAS_MISPLACED_def PG_HAS_UNCLEAN_def PG_HAS_INVALID_def PG_HAS_CORRUPTED_def
  PG_HAS_INCONSISTENT_def PG_LEFT_ON_DEAD_def PG_SCRUBBING_def

lemmas obj_state_defs = OBJ_DEGRADED_def OBJ_INCOMPLETE_def OBJ_MISPLACED_def OBJ_CORRUPTED_def
  OBJ_INCONSISTENT_def OBJ_NEEDS_STABLE_def OBJ_NEEDS_ROLLBACK_def

section \<open>Flags\<close>

lemma bit_or_flag: "k < 32 \<Longrightarrow> bit (w OR push_bit k 1 :: u32) i \<longleftrightarrow> bit w i \<or> i = k"
  unfolding bit_or_iff bit_push_bit_iff by (auto simp: bit_1_iff)

lemma and_flag: "k < 32 \<Longrightarrow> (w :: u32) AND push_bit k 1 \<noteq> 0 \<longleftrightarrow> bit w k"
  using and_single_bit_eq_0_iff [of k w] by (simp only: push_bit_of_1) simp

lemmas bit_or_pg_flags =
  bit_or_flag [of 3, folded PG_ACTIVE_def, simplified] bit_or_flag [of 7, folded PG_DEGRADED_def, simplified]
  bit_or_flag [of 11, folded PG_HAS_UNCLEAN_def, simplified] bit_or_flag [of 12, folded PG_HAS_INVALID_def, simplified]
  bit_or_flag [of 15, folded PG_LEFT_ON_DEAD_def, simplified]

lemmas and_pg_flags =
  and_flag [of 3, folded PG_ACTIVE_def, simplified] and_flag [of 8, folded PG_HAS_INCOMPLETE_def, simplified]
  and_flag [of 9, folded PG_HAS_DEGRADED_def, simplified] and_flag [of 10, folded PG_HAS_MISPLACED_def, simplified]
  and_flag [of 12, folded PG_HAS_INVALID_def, simplified]

section \<open>Printing and reading keywords\<close>

lemma pg_state_names_distinct: "distinct pg_state_names"
  by (simp add: pg_state_names_def)

lemma pg_state_tables: "length pg_state_bits = 17" "length pg_state_names = 17"
  by (simp_all add: pg_state_bits_def pg_state_names_def)

text \<open>The bit numbers of the table.\<close>

definition pg_state_bit_nums :: "nat list" where
  "pg_state_bit_nums = [0, 1, 2, 3, 4, 5, 6, 7, 14, 13, 8, 9, 10, 11, 12, 15, 16]"

lemma pg_state_bits_eq: "pg_state_bits = map (\<lambda>n. 2 ^ n) pg_state_bit_nums"
  by (simp add: pg_state_bits_def pg_state_bit_nums_def pg_state_defs)

lemma pg_state_bit_nums_set: "set pg_state_bit_nums = {..<17}"
  unfolding pg_state_bit_nums_def by (auto, presburger)

lemma keyword_bit_table: "(b, n) \<in> set (zip pg_state_bits pg_state_names) \<Longrightarrow> keyword_bit n = Some b"
  unfolding keyword_bit_def
  by (rule map_of_is_SomeI)
    (auto simp: pg_state_tables pg_state_names_distinct in_set_zip)

lemma parse_keywords_table:
  "set ps \<subseteq> set (zip pg_state_bits pg_state_names) \<Longrightarrow>
   parse_keywords (map snd ps) state = Some (fold (\<lambda>b s. s OR b) (map fst ps) state)"
  by (induction ps arbitrary: state) (auto simp: keyword_bit_table)

lemma bit_fold_or:
  "bit (fold (\<lambda>b s. s OR b) bs (w :: u32)) i \<longleftrightarrow> bit w i \<or> (\<exists>b \<in> set bs. bit b i)"
  by (induction bs arbitrary: w) (auto simp: bit_or_iff)

lemma filter_zip_fst:
  "length xs = length ys \<Longrightarrow> map fst (filter (\<lambda>(b, _). P b) (zip xs ys)) = filter P xs"
  by (induction xs ys rule: list_induct2) auto

lemma keywords_of_state:
  "parse_keywords (pg_state_keywords state) 0
   = Some (fold (\<lambda>b s. s OR b) (filter (\<lambda>b. state AND b \<noteq> 0) pg_state_bits) 0)"
proof -
  have "parse_keywords (pg_state_keywords state) 0 = Some (fold (\<lambda>b s. s OR b)
      (map fst (filter (\<lambda>(b, _). state AND b \<noteq> 0) (zip pg_state_bits pg_state_names))) 0)"
    unfolding pg_state_keywords_def by (rule parse_keywords_table) auto
  then show ?thesis
    by (simp add: filter_zip_fst pg_state_tables)
qed

lemma state_from_bits:
  "fold (\<lambda>b s. s OR b) (filter (\<lambda>b. state AND b \<noteq> 0) pg_state_bits) 0 = take_bit 17 (state :: u32)"
proof (rule bit_word_eqI)
  fix i :: nat
  assume "i < LENGTH(32)"
  have "state AND 2 ^ n \<noteq> 0 \<longleftrightarrow> bit state n" if "n < 17" for n
    using that and_single_bit_eq_0_iff [of n state] by simp
  then show "bit (fold (\<lambda>b s. s OR b) (filter (\<lambda>b. state AND b \<noteq> 0) pg_state_bits) 0) i
      = bit (take_bit 17 state) i"
    by (auto simp: bit_fold_or pg_state_bits_eq pg_state_bit_nums_set bit_take_bit_iff bit_exp_iff)
qed

section \<open>Properties\<close>

text \<open>The set of the flags of a state.\<close>

definition flags_of :: "u32 \<Rightarrow> nat set" where
  "flags_of state = {i. i < 17 \<and> bit state i}"

lemma flags_take: "flags_of state = {i. bit (take_bit 17 state) i}"
  by (auto simp: flags_of_def bit_take_bit_iff)

lemma bit_set_inj: "{i. bit (a :: u32) i} = {i. bit b i} \<longleftrightarrow> a = b"
  by (metis bit_word_eqI mem_Collect_eq)

lemma bit_set_flag: "k < 32 \<Longrightarrow> {i. bit (push_bit k 1 :: u32) i} = {k}"
  unfolding bit_push_bit_iff bit_1_iff by auto

lemma flags_empty: "flags_of state = {} \<longleftrightarrow> take_bit 17 state = 0"
  unfolding flags_take bit_set_inj [symmetric] bit_0_eq bot_fun_def bot_bool_def by simp

lemma flags_single: "k < 32 \<Longrightarrow> flags_of state = {k} \<longleftrightarrow> take_bit 17 state = push_bit k 1"
  unfolding flags_take bit_set_inj [symmetric] by (simp only: bit_set_flag)

lemma flags_and: "k < 32 \<Longrightarrow> take_bit 17 state AND push_bit k 1 \<noteq> 0 \<longleftrightarrow> k \<in> flags_of state"
  unfolding flags_take mem_Collect_eq by (rule and_flag)

lemma alone_iff:
  "(F \<inter> {1, 2, 6} = {} \<or> F = {1} \<or> F = {2} \<or> F = {6}) \<longleftrightarrow>
    \<not> (6 \<in> F \<and> F \<noteq> {6} \<or> 1 \<in> F \<and> F \<noteq> {1} \<or> 2 \<in> F \<and> F \<noteq> {2 :: nat})" (is "?L \<longleftrightarrow> ?R")
proof
  show "?L \<Longrightarrow> ?R" by (elim disjE) simp_all
  show "?L" if ?R
  proof (cases "1 \<in> F \<or> 2 \<in> F \<or> 6 \<in> F")
    case True
    then show ?thesis using that by blast
  next
    case False
    then have "F \<inter> {1, 2, 6} = {}" by simp
    then show ?thesis ..
  qed
qed

lemma acceptable_flags:
  "state_acceptable primary (take_bit 17 state) \<longleftrightarrow>
    primary \<noteq> 0 \<and> flags_of state \<noteq> {} \<and>
    (flags_of state \<inter> {1, 2, 6} = {} \<or> flags_of state = {1} \<or> flags_of state = {2} \<or> flags_of state = {6})"
proof -
  have lt: "(6 :: nat) < 32" "(1 :: nat) < 32" "(2 :: nat) < 32" by simp_all
  have "state_acceptable primary (take_bit 17 state) \<longleftrightarrow> \<not> (primary = 0 \<or> flags_of state = {} \<or>
      6 \<in> flags_of state \<and> flags_of state \<noteq> {6} \<or> 1 \<in> flags_of state \<and> flags_of state \<noteq> {1} \<or>
      2 \<in> flags_of state \<and> flags_of state \<noteq> {2})"
    unfolding state_acceptable_def PG_OFFLINE_def PG_PEERING_def PG_INCOMPLETE_def flags_empty
      flags_and [OF lt(1)] flags_and [OF lt(2)] flags_and [OF lt(3)]
      flags_single [OF lt(1)] flags_single [OF lt(2)] flags_single [OF lt(3)] ..
  then show ?thesis unfolding alone_iff by blast
qed

text \<open>C19: a client that reads the state keywords an OSD writes for its placement group gets the state
  word of the OSD back, restricted to the 17 flags, all of which have names. The handler then stores
  that state and the primary and runs the hook exactly when the primary is set, some flag is set, and none of the flags 1
  (peering), 2 (incomplete) and 6 (offline) is mixed with any other flag; otherwise it ignores the update.\<close>

theorem pg_state_report_roundtrip:
  "parse_keywords (pg_state_keywords state) 0 = Some (take_bit 17 state) \<and>
   parse_pg_state (Some (primary, pg_state_keywords state)) pg_cfg =
     (let F = {i. i < 17 \<and> bit state i} in
      if primary \<noteq> 0 \<and> F \<noteq> {} \<and> (F \<inter> {1, 2, 6} = {} \<or> F = {1} \<or> F = {2} \<or> F = {6})
      then (pg_cfg\<lparr>state_exists := True, cur_primary := primary, cur_state := take_bit 17 state\<rparr>, True)
      else (pg_cfg\<lparr>state_exists := True\<rparr>, False))"
  unfolding flags_of_def [symmetric] Let_def acceptable_flags [symmetric]
  by (simp add: keywords_of_state state_from_bits parse_pg_state_def Let_def)

text \<open>The state in which peering leaves a group with invalid objects is one of those that are ignored, although
  \<open>pg_states.h\<close> allows the flag \<open>PG_HAS_INVALID\<close> together with every state.\<close>

lemma incomplete_invalid_ignored:
  "parse_pg_state (Some (primary, pg_state_keywords (PG_INCOMPLETE OR PG_HAS_INVALID))) pg_cfg =
     (pg_cfg\<lparr>state_exists := True\<rparr>, False)"
proof -
  have "take_bit 17 (PG_INCOMPLETE OR PG_HAS_INVALID) = PG_INCOMPLETE OR PG_HAS_INVALID"
    by (simp add: pg_state_defs)
  moreover have "\<not> state_acceptable primary (PG_INCOMPLETE OR PG_HAS_INVALID)"
    by (simp add: state_acceptable_def pg_state_defs)
  ultimately show ?thesis
    by (simp add: keywords_of_state state_from_bits parse_pg_state_def Let_def)
qed

end
