(* ===== verification/Base64.thy ===== *)
theory Base64
  imports Prelude
begin

text \<open>
  Base64, which the etcd protocol uses for keys and values (\<open>base64_encode\<close>, \<open>base64_decode\<close> in
  \<open>src/src/util/str_util.cpp\<close>). \<open>val\<close> is the \<open>unsigned\<close> shift register, whose upper bits overflow
  silently, \<open>valb\<close> the number of the lowest bit not yet written minus a constant. The decoding table \<open>T\<close>
  is \<open>b64_T\<close>; -1 is \<open>None\<close>.
\<close>

section \<open>The model\<close>

definition b64_chars :: string where
  "b64_chars = ''ABCDEFGHIJKLMNOPQRSTUVWXYZabcdefghijklmnopqrstuvwxyz0123456789+/''"

function b64_emit :: "u32 \<Rightarrow> int \<Rightarrow> string \<Rightarrow> int \<times> string" where
  "b64_emit val valb out =
     (if valb \<ge> 0
      then b64_emit val (valb - 6) (out @ [b64_chars ! unat (drop_bit (nat valb) val AND 0x3F)])
      else (valb, out))"
  by pat_completeness auto
termination
  by (relation "measure (\<lambda>(val, valb, out). nat (valb + 6))") auto

declare b64_emit.simps [simp del]

fun b64_encode_loop :: "string \<Rightarrow> u32 \<Rightarrow> int \<Rightarrow> string \<Rightarrow> u32 \<times> int \<times> string" where
  "b64_encode_loop [] val valb out = (val, valb, out)"
| "b64_encode_loop (c # cs) val valb out =
     (let val = push_bit 8 val + of_char c;
          (valb, out) = b64_emit val (valb + 8) out
      in b64_encode_loop cs val valb out)"

lemma pad_decreases: "(n::nat) mod 4 \<noteq> 0 \<Longrightarrow> (4 - (n + 1) mod 4) mod 4 < (4 - n mod 4) mod 4"
proof -
  assume a: "n mod 4 \<noteq> 0"
  have "n mod 4 < 4" by simp
  then consider "n mod 4 = 0" | "n mod 4 = 1" | "n mod 4 = 2" | "n mod 4 = 3" by linarith
  then show ?thesis using a by cases (simp_all add: mod_Suc)
qed

function b64_pad :: "string \<Rightarrow> string" where
  "b64_pad out = (if length out mod 4 \<noteq> 0 then b64_pad (out @ ''='') else out)"
  by pat_completeness auto
termination
proof (relation "measure (\<lambda>out. (4 - length out mod 4) mod 4)")
  fix out :: string
  assume "length out mod 4 \<noteq> 0"
  from pad_decreases [OF this] show "(out @ ''='', out) \<in> measure (\<lambda>out. (4 - length out mod 4) mod 4)"
    by (simp only: in_measure length_append list.size) simp
qed (rule wf_measure)

declare b64_pad.simps [simp del]

definition base64_encode :: "string \<Rightarrow> string" where
  "base64_encode s =
     (let (val, valb, out) = b64_encode_loop s 0 (- 6) [];
          out = (if valb > - 6
                 then out @ [b64_chars ! unat (drop_bit (nat (valb + 8)) (push_bit 8 val) AND 0x3F)]
                 else out)
      in b64_pad out)"

definition b64_T :: "char \<Rightarrow> u32 option" where
  "b64_T c = map_of (zip b64_chars (map of_nat [0..<64])) c"

fun b64_decode_loop :: "string \<Rightarrow> u32 \<Rightarrow> int \<Rightarrow> string \<Rightarrow> string" where
  "b64_decode_loop [] val valb out = out"
| "b64_decode_loop (c # cs) val valb out =
     (case b64_T c of
        None \<Rightarrow> out
      | Some t \<Rightarrow>
          let val = push_bit 6 val + t; valb = valb + 6 in
          if valb \<ge> 0
          then b64_decode_loop cs val (valb - 8) (out @ [char_of (unat (drop_bit (nat valb) val AND 0xFF))])
          else b64_decode_loop cs val valb out)"

definition base64_decode :: "string \<Rightarrow> string" where
  "base64_decode s = b64_decode_loop s 0 (- 8) []"

section \<open>Sextets\<close>

text \<open>The character for a sextet, and that the decoding table inverts it.\<close>

abbreviation b64_char :: "u32 \<Rightarrow> char" where
  "b64_char w \<equiv> b64_chars ! unat (w AND 0x3F)"

lemma b64_chars_length [simp]: "length b64_chars = 64"
  by (simp add: b64_chars_def)

lemma b64_chars_distinct: "distinct b64_chars"
  by (simp add: b64_chars_def)

lemma and_3F: "(w :: u32) AND 0x3F = take_bit 6 w"
  by (simp add: take_bit_eq_mask mask_eq_exp_minus_1)

lemma and_FF: "(w :: u32) AND 0xFF = take_bit 8 w"
  by (simp add: take_bit_eq_mask mask_eq_exp_minus_1)

lemma sextet_bound: "unat ((w :: u32) AND 0x3F) < 64"
proof -
  have "unat (take_bit 6 w) < 2 ^ 6"
    by (simp only: unsigned_take_bit_eq take_bit_nat_less_exp)
  moreover have "2 ^ 6 = (64 :: nat)"
    by simp
  ultimately show ?thesis
    by (simp only: and_3F)
qed

lemma b64_T_char [simp]: "b64_T (b64_char w) = Some (take_bit 6 w)"
proof -
  have "b64_T (b64_chars ! n) = Some (of_nat n)" if "n < 64" for n
    using that b64_chars_distinct unfolding b64_T_def
    by (subst map_of_zip_nth) auto
  from this [OF sextet_bound] show ?thesis
    by (simp only: and_3F of_nat_unat ucast_id)
qed

lemma b64_T_pad [simp]: "b64_T (CHR ''='') = None"
proof -
  have "CHR ''='' \<notin> set b64_chars"
    by (simp add: b64_chars_def)
  then show ?thesis
    by (auto simp: b64_T_def map_of_eq_None_iff dest: set_zip_leftD)
qed

text \<open>Bytes as words: the low eight bits.\<close>

lemma unat_of_char [simp]: "unat (of_char c :: u32) = of_char c"
proof -
  have "(of_char c :: u32) = of_nat (of_char c)"
    by (simp only: of_nat_of_char)
  moreover have "of_char c < (4294967296 :: nat)"
    using nat_of_char_less_256 [of c] by linarith
  ultimately show ?thesis
    by (simp add: unat_of_nat)
qed

lemma take_bit_of_char [simp]: "take_bit 8 (of_char c :: u32) = of_char c"
proof -
  have "unat (take_bit 8 (of_char c :: u32)) = unat (of_char c :: u32)"
    using nat_of_char_less_256 [of c]
    by (simp only: unsigned_take_bit_eq unat_of_char take_bit_nat_eq_self_iff) simp
  then show ?thesis
    by (simp only: word_unat_eq_iff)
qed

text \<open>Three bytes through the two shift registers: the eight bits the decoder writes are the bits of
  the bytes the encoder read, whatever the registers held before.\<close>

lemma Suc_Suc_diff_2: "\<not> n < 2 \<Longrightarrow> Suc (Suc (n - 2)) = n"
  by simp

lemmas register_bits = bit_shifted_add_iff bit_take_bit_iff bit_drop_bit_eq bit_push_bit_iff
  Suc_Suc_diff_2

lemma byte_eqI:
  assumes "take_bit 8 a = (a :: u32)" "\<And>n. n < 8 \<Longrightarrow> bit w n = bit a n"
  shows "take_bit 8 w = a"
proof -
  have "take_bit 8 w = take_bit 8 a"
    by (rule bit_word_eqI) (use assms(2) in \<open>auto simp: bit_take_bit_iff\<close>)
  then show ?thesis
    using assms(1) by simp
qed

lemma register_byte_1:
  assumes "take_bit 8 a = (a :: u32)" "take_bit 8 b = b"
  shows "take_bit 8 (drop_bit 4 (push_bit 6 (push_bit 6 u + take_bit 6 (drop_bit 2 (push_bit 8 v + a)))
    + take_bit 6 (drop_bit 4 (push_bit 8 (push_bit 8 v + a) + b)))) = a"
  using assms(1) by (rule byte_eqI) (use assms in \<open>auto simp: register_bits\<close>)

lemma register_byte_2:
  assumes "take_bit 8 b = (b :: u32)" "take_bit 8 c = c"
  shows "take_bit 8 (drop_bit 2 (push_bit 6 (push_bit 6 u + take_bit 6 (drop_bit 4 (push_bit 8 v + b)))
    + take_bit 6 (drop_bit 6 (push_bit 8 (push_bit 8 v + b) + c)))) = b"
  using assms(1) by (rule byte_eqI) (use assms in \<open>auto simp: register_bits\<close>)

lemma register_byte_3:
  assumes "take_bit 8 c = (c :: u32)"
  shows "take_bit 8 (push_bit 6 (push_bit 6 u + take_bit 6 (drop_bit 6 (push_bit 8 v + c)))
    + take_bit 6 (push_bit 8 v + c)) = c"
  using assms(1) by (rule byte_eqI) (use assms in \<open>auto simp: register_bits\<close>)

section \<open>Groups of three bytes\<close>

lemma b64_emit_stop: "valb < 0 \<Longrightarrow> b64_emit val valb out = (valb, out)"
  by (simp add: b64_emit.simps)

lemma b64_emit_next:
  "0 \<le> valb \<Longrightarrow> b64_emit val valb out = b64_emit val (valb - 6) (out @ [b64_char (drop_bit (nat valb) val)])"
  by (simp add: b64_emit.simps [of val valb])

lemma b64_emit_simps:
  "b64_emit val 2 out = (- 4, out @ [b64_char (drop_bit 2 val)])"
  "b64_emit val 4 out = (- 2, out @ [b64_char (drop_bit 4 val)])"
  "b64_emit val 6 out = (- 6, out @ [b64_char (drop_bit 6 val), b64_char val])"
  by (simp_all add: b64_emit_next b64_emit_stop)

lemma b64_encode_three:
  "b64_encode_loop (a # b # c # cs) v (- 6) out =
     (let A1 = push_bit 8 v + of_char a; A2 = push_bit 8 A1 + of_char b; A3 = push_bit 8 A2 + of_char c
      in b64_encode_loop cs A3 (- 6)
           (out @ [b64_char (drop_bit 2 A1), b64_char (drop_bit 4 A2), b64_char (drop_bit 6 A3), b64_char A3]))"
  by (simp add: Let_def b64_emit_simps del: push_bit_of_1)

lemma b64_decode_four:
  assumes "s = b64_char t1 # b64_char t2 # b64_char t3 # b64_char t4 # cs"
  shows "b64_decode_loop s u (- 8) out =
     (let D1 = push_bit 6 u + take_bit 6 t1; D2 = push_bit 6 D1 + take_bit 6 t2;
          D3 = push_bit 6 D2 + take_bit 6 t3; D4 = push_bit 6 D3 + take_bit 6 t4
      in b64_decode_loop cs D4 (- 8) (out @ [char_of (unat (take_bit 8 (drop_bit 4 D2))),
           char_of (unat (take_bit 8 (drop_bit 2 D3))), char_of (unat (take_bit 8 D4))]))"
  unfolding assms by (simp add: Let_def and_FF del: take_bit_of_1)

text \<open>The encoder's result before padding.\<close>

definition b64_finish :: "u32 \<times> int \<times> string \<Rightarrow> string" where
  "b64_finish = (\<lambda>(val, valb, out).
     if valb > - 6 then out @ [b64_char (drop_bit (nat (valb + 8)) (push_bit 8 val))] else out)"

lemma base64_encode_finish: "base64_encode s = b64_pad (b64_finish (b64_encode_loop s 0 (- 6) []))"
  by (simp add: base64_encode_def b64_finish_def Let_def split: prod.split)

lemma b64_decode_pads [simp]: "b64_decode_loop (replicate k CHR ''='') u n out = out"
  by (cases k) simp_all

text \<open>What the encoder writes for the last one or two bytes and for a group of three, and that the
  decoder gets the bytes back from it.\<close>

lemma b64_one:
  obtains t where "b64_finish (b64_encode_loop [a] v (- 6) out) = out @ t" "length t = 2"
    "set t \<subseteq> set b64_chars"
    "\<And>u acc k. b64_decode_loop (t @ replicate k CHR ''='') u (- 8) acc = acc @ [a]"
proof -
  let ?A1 = "push_bit 8 v + of_char a"
  let ?t = "[b64_char (drop_bit 2 ?A1), b64_char (drop_bit 4 (push_bit 8 ?A1))]"
  have "b64_decode_loop (?t @ replicate k CHR ''='') u (- 8) acc = acc @ [a]" for u acc k
    using register_byte_1 [of "of_char a" 0 u v] by (simp add: and_FF Let_def)
  then show ?thesis
    using that [of ?t] sextet_bound by (simp add: b64_finish_def b64_emit_simps Let_def)
qed

lemma b64_two:
  obtains t where "b64_finish (b64_encode_loop [a, b] v (- 6) out) = out @ t" "length t = 3"
    "set t \<subseteq> set b64_chars"
    "\<And>u acc k. b64_decode_loop (t @ replicate k CHR ''='') u (- 8) acc = acc @ [a, b]"
proof -
  let ?A1 = "push_bit 8 v + of_char a"
  let ?A2 = "push_bit 8 ?A1 + of_char b"
  let ?t = "[b64_char (drop_bit 2 ?A1), b64_char (drop_bit 4 ?A2), b64_char (drop_bit 6 (push_bit 8 ?A2))]"
  have "b64_decode_loop (?t @ replicate k CHR ''='') u (- 8) acc = acc @ [a, b]" for u acc k
    using register_byte_1 [of "of_char a" "of_char b" u v]
      register_byte_2 [of "of_char b" 0 "push_bit 6 u + take_bit 6 (drop_bit 2 ?A1)" ?A1]
    by (simp add: and_FF Let_def)
  then show ?thesis
    using that [of ?t] sextet_bound by (simp add: b64_finish_def b64_emit_simps Let_def)
qed

lemma b64_three:
  obtains t A where "\<And>out. b64_encode_loop (a # b # c # cs) v (- 6) out = b64_encode_loop cs A (- 6) (out @ t)"
    "length t = 4" "set t \<subseteq> set b64_chars"
    "\<And>u. \<exists>u'. \<forall>acc s. b64_decode_loop (t @ s) u (- 8) acc = b64_decode_loop s u' (- 8) (acc @ [a, b, c])"
proof -
  let ?A1 = "push_bit 8 v + of_char a"
  let ?A2 = "push_bit 8 ?A1 + of_char b"
  let ?A3 = "push_bit 8 ?A2 + of_char c"
  let ?t = "[b64_char (drop_bit 2 ?A1), b64_char (drop_bit 4 ?A2), b64_char (drop_bit 6 ?A3), b64_char ?A3]"
  have "\<exists>u'. \<forall>acc s. b64_decode_loop (?t @ s) u (- 8) acc = b64_decode_loop s u' (- 8) (acc @ [a, b, c])" for u
  proof -
    let ?D1 = "push_bit 6 u + take_bit 6 (drop_bit 2 ?A1)"
    let ?D2 = "push_bit 6 ?D1 + take_bit 6 (drop_bit 4 ?A2)"
    show ?thesis
      using register_byte_1 [of "of_char a" "of_char b" u v]
        register_byte_2 [of "of_char b" "of_char c" ?D1 ?A1] register_byte_3 [of "of_char c" ?D2 ?A2]
      by (intro exI allI, subst b64_decode_four, (simp; fail)) (simp add: Let_def)
  qed
  note dec = this
  show ?thesis
  proof (rule that [of ?A3 ?t])
    show "b64_encode_loop (a # b # c # cs) v (- 6) out = b64_encode_loop cs ?A3 (- 6) (out @ ?t)" for out
      by (simp only: b64_encode_three Let_def)
    show "set ?t \<subseteq> set b64_chars"
      using sextet_bound by simp
  qed (simp, rule dec)
qed

lemma b64_unpadded:
  "\<exists>t. b64_finish (b64_encode_loop s v (- 6) out) = out @ t \<and> length t = (4 * length s + 2) div 3 \<and>
     set t \<subseteq> set b64_chars \<and>
     (\<forall>u acc k. b64_decode_loop (t @ replicate k CHR ''='') u (- 8) acc = acc @ s)"
proof (induction s arbitrary: v out rule: length_induct)
  case (1 s)
  consider "s = []" | a where "s = [a]" | a b where "s = [a, b]" | a b c cs where "s = a # b # c # cs"
    by (metis list.exhaust)
  then show ?case
  proof cases
    case 1
    then show ?thesis by (simp add: b64_finish_def)
  next
    case (2 a)
    obtain t where "b64_finish (b64_encode_loop s v (- 6) out) = out @ t" "length t = 2"
      "set t \<subseteq> set b64_chars" "\<And>u acc k. b64_decode_loop (t @ replicate k CHR ''='') u (- 8) acc = acc @ s"
      using b64_one [of a v out] unfolding 2 by blast
    then show ?thesis by (intro exI [of _ t]) (simp add: 2)
  next
    case (3 a b)
    obtain t where "b64_finish (b64_encode_loop s v (- 6) out) = out @ t" "length t = 3"
      "set t \<subseteq> set b64_chars" "\<And>u acc k. b64_decode_loop (t @ replicate k CHR ''='') u (- 8) acc = acc @ s"
      using b64_two [of a b v out] unfolding 3 by blast
    then show ?thesis by (intro exI [of _ t]) (simp add: 3)
  next
    case (4 a b c cs)
    obtain t A where t: "\<And>out. b64_encode_loop s v (- 6) out = b64_encode_loop cs A (- 6) (out @ t)"
      "length t = 4" "set t \<subseteq> set b64_chars"
      "\<And>u. \<exists>u'. \<forall>acc s. b64_decode_loop (t @ s) u (- 8) acc = b64_decode_loop s u' (- 8) (acc @ [a, b, c])"
      using b64_three [of a b c cs v] 4 by metis
    obtain t' where t': "b64_finish (b64_encode_loop cs A (- 6) (out @ t)) = (out @ t) @ t'"
      "length t' = (4 * length cs + 2) div 3" "set t' \<subseteq> set b64_chars"
      "\<And>u acc k. b64_decode_loop (t' @ replicate k CHR ''='') u (- 8) acc = acc @ cs"
      using 1 [rule_format, of cs A "out @ t"] 4 by auto
    have "b64_decode_loop ((t @ t') @ replicate k CHR ''='') u (- 8) acc = acc @ s" for u acc k
    proof -
      obtain u' where "\<And>acc s. b64_decode_loop (t @ s) u (- 8) acc = b64_decode_loop s u' (- 8) (acc @ [a, b, c])"
        using t(4) [of u] by blast
      then show ?thesis using t'(4) 4 by simp
    qed
    moreover have "length (t @ t') = (4 * length s + 2) div 3"
      using t(2) t'(2) 4 by simp
    ultimately show ?thesis
      using t(1,3) t'(1,3) by (intro exI [of _ "t @ t'"]) simp
  qed
qed

text \<open>Padding.\<close>

lemma b64_pad_spec: "\<exists>k. b64_pad s = s @ replicate k CHR ''='' \<and> length s + k = 4 * ((length s + 3) div 4)"
proof (induction s rule: b64_pad.induct)
  case (1 s)
  show ?case
  proof (cases "length s mod 4 = 0")
    case True
    then have "length s = 4 * ((length s + 3) div 4)" by presburger
    with True show ?thesis by (simp add: b64_pad.simps)
  next
    case False
    with 1 obtain k where k: "b64_pad (s @ ''='') = (s @ ''='') @ replicate k CHR ''=''"
      "length (s @ ''='') + k = 4 * ((length (s @ ''='') + 3) div 4)" by blast
    have "b64_pad s = s @ replicate (Suc k) CHR ''=''"
      using False k(1) by (simp add: b64_pad.simps [of s])
    moreover have "length s + Suc k = 4 * ((length s + 3) div 4)"
    proof -
      have "(length s + 4) div 4 = (length s + 3) div 4"
        using False by presburger
      with k(2) show ?thesis by simp
    qed
    ultimately show ?thesis by blast
  qed
qed

lemma b64_groups: "((4 * n + 2) div 3 + 3) div 4 = (n + 2) div (3::nat)"
proof -
  have "n mod 3 < 3" by simp
  then obtain q r where n: "n = 3 * q + r" "r = 0 \<or> r = 1 \<or> r = 2"
    using mult_div_mod_eq [of 3 n] by (metis One_nat_def less_2_cases_iff less_Suc_eq numeral_2_eq_2 numeral_3_eq_3)
  have "(4 * n + 2) div 3 = 4 * q + (4 * r + 2) div 3" "(n + 2) div 3 = q + (r + 2) div 3"
    unfolding n(1) by (simp_all add: algebra_simps)
  with n(2) show ?thesis by auto
qed

section \<open>Properties\<close>

text \<open>C20: decoding an encoded string gives the string back; the encoding has four characters for
  every three bytes begun, all of them letters, digits, plus, slash or the padding sign.\<close>

theorem base64_roundtrip:
  "base64_decode (base64_encode s) = s \<and> length (base64_encode s) = 4 * ((length s + 2) div 3) \<and>
   set (base64_encode s) \<subseteq> insert CHR ''='' (set b64_chars)"
proof -
  obtain t where t: "b64_finish (b64_encode_loop s 0 (- 6) []) = t" "length t = (4 * length s + 2) div 3"
    "set t \<subseteq> set b64_chars" "\<And>u acc k. b64_decode_loop (t @ replicate k CHR ''='') u (- 8) acc = acc @ s"
    using b64_unpadded [of s 0 "[]"] by auto
  obtain k where k: "b64_pad t = t @ replicate k CHR ''=''" "length t + k = 4 * ((length t + 3) div 4)"
    using b64_pad_spec by blast
  have "((4 * length s + 2) div 3 + 3) div 4 = (length s + 2) div 3"
    by (rule b64_groups)
  with t k show ?thesis
    by (auto simp: base64_encode_finish base64_decode_def)
qed

end
