(* ===== verification/Pg_Peering.thy ===== *)
theory Pg_Peering
  imports Object_Id Pg_States "HOL-Library.Monad_Syntax"
begin

text \<open>
  Peering of a placement group (\<open>src/src/osd/osd_peering_pg.cpp\<close>, \<open>osd_peering_pg.h\<close>): the primary OSD
  merges the object version lists of all peers, sorts them, walks over the versions of every object,
  decides which version is the one to keep, which versions have to be made stable or rolled back on
  which OSD, and files the object as clean, misplaced, degraded or incomplete.

  \<open>pg\<close> is \<open>pg_t\<close> restricted to the fields this code uses, \<open>check\<close> is \<open>pg_obj_state_check_t\<close>. Counters
  that count list entries are \<open>nat\<close>. The ordered maps \<open>state_dict\<close>, \<open>flush_actions\<close> and the b-tree maps
  of objects are only looked up and updated by key here and are HOL maps; a pointer to an entry of
  \<open>state_dict\<close> is the entry's key. Reading \<open>cur_set\<close> outside its bounds is undefined and gives \<open>None\<close>. The \<open>int\<close>
  expression \<open>1 << replica\<close> is sign-extended from 32 bits; for roles of 32 and more it is undefined in C++
  and zero here, and the results about erasure coded groups are for at most 32 roles.
\<close>

section \<open>The model\<close>

type_synonym version = u64

datatype scheme = POOL_SCHEME_REPLICATED | POOL_SCHEME_XOR | POOL_SCHEME_EC

definition LOC_OUTDATED :: u32 where "LOC_OUTDATED = 1"
definition LOC_CORRUPTED :: u32 where "LOC_CORRUPTED = 2"
definition LOC_INCONSISTENT :: u32 where "LOC_INCONSISTENT = 4"

record pg_obj_loc =
  loc_role :: nat
  loc_osd :: osd_num
  loc_bad :: u32

type_synonym pg_osd_set = "pg_obj_loc list"

record pg_osd_set_state =
  read_target :: "osd_num list"
  ss_osd_set :: pg_osd_set
  ss_state :: u32
  object_count :: nat

record flush_action =
  act_rollback :: bool
  make_stable :: bool
  stable_to :: version
  rollback_to :: version

datatype obj_piece_id = Obj_piece_id (piece_oid: object_id) (piece_osd: osd_num)

record pg =
  pg_state :: u32
  pg_scheme :: scheme
  pg_cursize :: nat
  pg_size :: nat
  pg_data_size :: nat
  clean_count :: nat
  total_count :: nat
  pg_epoch :: u64
  all_peers :: "osd_num list"
  cur_peers :: "osd_num list"
  cur_set :: "osd_num list"
  state_dict :: "pg_osd_set \<rightharpoonup> pg_osd_set_state"
  inconsistent_objects :: "object_id \<rightharpoonup> pg_osd_set"
  incomplete_objects :: "object_id \<rightharpoonup> pg_osd_set"
  degraded_objects :: "object_id \<rightharpoonup> pg_osd_set"
  misplaced_objects :: "object_id \<rightharpoonup> pg_osd_set"
  flush_actions :: "obj_piece_id \<rightharpoonup> flush_action"
  ver_override :: "object_id \<rightharpoonup> version"

datatype obj_ver_role =
  Obj_ver_role (e_oid: object_id) (e_version: version) (e_osd: osd_num) (e_stable: bool)

definition e_role :: "obj_ver_role \<Rightarrow> nat" where
  "e_role e = unat (stripe (e_oid e) AND STRIPE_MASK)"

definition e_stripe :: "obj_ver_role \<Rightarrow> u64" where
  "e_stripe e = stripe (e_oid e) AND NOT STRIPE_MASK"

definition e_base :: "obj_ver_role \<Rightarrow> object_id" where
  "e_base e = Object_id (inode (e_oid e)) (e_stripe e)"

definition obj_ver_role_lt :: "obj_ver_role \<Rightarrow> obj_ver_role \<Rightarrow> bool" where
  "obj_ver_role_lt a b \<longleftrightarrow>
     inode (e_oid a) < inode (e_oid b) \<or>
     inode (e_oid a) = inode (e_oid b) \<and>
       (e_stripe a < e_stripe b \<or>
        e_stripe a = e_stripe b \<and>
          (e_version a > e_version b \<or>
           e_version a = e_version b \<and>
             (stripe (e_oid a) < stripe (e_oid b) \<or>
              stripe (e_oid a) = stripe (e_oid b) \<and> e_osd a < e_osd b)))"

record obj_piece_ver =
  pv_max_ver :: version
  pv_stable_ver :: version
  pv_max_target :: version

record check =
  ck_pg :: pg
  replicated :: bool
  ck_list :: "obj_ver_role list"
  list_pos :: nat
  obj_start :: nat
  obj_end :: nat
  ver_start :: nat
  ver_end :: nat
  ck_oid :: object_id
  max_ver :: version
  last_ver :: version
  target_ver :: version
  n_copies :: nat
  has_roles :: u64
  n_roles :: nat
  n_stable :: nat
  n_mismatched :: nat
  n_unstable :: nat
  n_invalid :: nat
  ck_osd_set :: pg_osd_set

abbreviation cur_entry :: "check \<Rightarrow> obj_ver_role" where
  "cur_entry st \<equiv> ck_list st ! list_pos st"

definition start_object :: "check \<Rightarrow> check" where
  "start_object st =
     (let e = cur_entry st in
      st\<lparr>obj_start := list_pos st, ck_oid := e_base e, last_ver := e_version e, max_ver := e_version e,
         target_ver := 0, ver_start := list_pos st, has_roles := 0, n_copies := 0, n_roles := 0,
         n_stable := 0, n_mismatched := 0, n_unstable := 0, n_invalid := 0\<rparr>)"

definition role_bit :: "nat \<Rightarrow> u64" where
  "role_bit replica = scast (push_bit replica (1 :: 32 word))"

text \<open>The version is stable or can be restored from the parts seen.\<close>

definition version_good :: "check \<Rightarrow> bool" where
  "version_good st \<longleftrightarrow> n_stable st > 0 \<or> n_roles st \<ge> pg_data_size (ck_pg st)"

text \<open>Counting one copy of the current version.\<close>

definition count_copy :: "check \<Rightarrow> check option" where
  "count_copy st =
     (let e = cur_entry st; pg = ck_pg st; replica = e_role e;
          st = st\<lparr>n_copies := n_copies st + 1\<rparr> in
      if replicated st \<and> replica > 0 \<or> replica \<ge> pg_size pg
      then Some (st\<lparr>n_invalid := n_invalid st + 1\<rparr>)
      else
        let st = (if e_stable e then st\<lparr>n_stable := n_stable st + 1\<rparr> else st) in
        if replicated st
        then Some (if e_osd e \<in> set (cur_set pg) then st
                   else st\<lparr>n_mismatched := n_mismatched st + 1\<rparr>)
        else do {
          cur \<leftarrow> vec_at (cur_set pg) replica;
          let st = (if cur \<noteq> e_osd e then st\<lparr>n_mismatched := n_mismatched st + 1\<rparr> else st);
          Some (if has_roles st AND role_bit replica = 0
                then st\<lparr>has_roles := has_roles st OR role_bit replica, n_roles := n_roles st + 1\<rparr>
                else st)
        })"

definition handle_version :: "check \<Rightarrow> check option" where
  "handle_version st =
     (let e = cur_entry st;
          st = (if target_ver st = 0 \<and> last_ver st \<noteq> e_version e \<and> version_good st
                then st\<lparr>target_ver := last_ver st, ver_end := list_pos st\<rparr> else st)
      in do {
        st \<leftarrow> (if target_ver st = 0
               then
                 count_copy (if last_ver st \<noteq> e_version e
                             then st\<lparr>ver_start := list_pos st, has_roles := 0, n_copies := 0, n_roles := 0,
                                     n_stable := 0, n_mismatched := 0, last_ver := e_version e\<rparr>
                             else st)
               else Some st);
        Some (if \<not> e_stable e then st\<lparr>n_unstable := n_unstable st + 1\<rparr> else st)
      })"

subsection \<open>Finishing an object\<close>

definition segment :: "'a list \<Rightarrow> nat \<Rightarrow> nat \<Rightarrow> 'a list" where
  "segment xs i j = drop i (take j xs)"

definition empty_piece :: obj_piece_ver where
  "empty_piece = \<lparr>pv_max_ver = 0, pv_stable_ver = 0, pv_max_target = 0\<rparr>"

definition piece_see :: "version \<Rightarrow> obj_ver_role \<Rightarrow> obj_piece_ver \<Rightarrow> obj_piece_ver" where
  "piece_see target e pcs =
     (let pcs = (if pv_max_ver pcs = 0 then pcs\<lparr>pv_max_ver := e_version e\<rparr> else pcs);
          pcs = (if e_stable e \<and> pv_stable_ver pcs = 0 then pcs\<lparr>pv_stable_ver := e_version e\<rparr> else pcs)
      in if e_version e \<le> target \<and> pv_max_target pcs = 0 then pcs\<lparr>pv_max_target := e_version e\<rparr> else pcs)"

definition e_piece :: "obj_ver_role \<Rightarrow> obj_piece_id" where
  "e_piece e = Obj_piece_id (e_oid e) (e_osd e)"

text \<open>\<open>pieces\<close> is a hash map; here its entries are in order of insertion. \<open>m[k]\<close> creates a missing entry.\<close>

fun hmap_modify :: "'k \<Rightarrow> ('v \<Rightarrow> 'v) \<Rightarrow> 'v \<Rightarrow> ('k \<times> 'v) list \<Rightarrow> ('k \<times> 'v) list" where
  "hmap_modify k f d [] = [(k, f d)]"
| "hmap_modify k f d (p # m) = (if fst p = k then (k, f (snd p)) # m else p # hmap_modify k f d m)"

definition object_pieces :: "version \<Rightarrow> obj_ver_role list \<Rightarrow> (obj_piece_id \<times> obj_piece_ver) list" where
  "object_pieces target es = fold (\<lambda>e. hmap_modify (e_piece e) (piece_see target e) empty_piece) es []"

definition no_action :: flush_action where
  "no_action = \<lparr>act_rollback = False, make_stable = False, stable_to = 0, rollback_to = 0\<rparr>"

definition flush_piece :: "version \<Rightarrow> obj_piece_ver \<Rightarrow> flush_action \<Rightarrow> flush_action" where
  "flush_piece target pcs act =
     (let act = (if pv_max_ver pcs > target
                 then act\<lparr>act_rollback := True, rollback_to := pv_max_target pcs\<rparr> else act);
          keep = (if pv_max_ver pcs > target then pv_max_target pcs else pv_max_ver pcs)
      in if pv_stable_ver pcs < keep then act\<lparr>make_stable := True, stable_to := keep\<rparr> else act)"

definition flush_pieces ::
  "version \<Rightarrow> (obj_piece_id \<times> obj_piece_ver) list \<Rightarrow> (obj_piece_id \<rightharpoonup> flush_action) \<Rightarrow> (obj_piece_id \<rightharpoonup> flush_action)"
where
  "flush_pieces target pieces acts =
     fold (\<lambda>(k, pcs) acts.
         if pv_stable_ver pcs < pv_max_ver pcs
         then acts(k \<mapsto> flush_piece target pcs (case acts k of None \<Rightarrow> no_action | Some act \<Rightarrow> act))
         else acts)
       pieces acts"

definition e_loc :: "u32 \<Rightarrow> obj_ver_role \<Rightarrow> pg_obj_loc" where
  "e_loc bad e = \<lparr>loc_role = e_role e, loc_osd = e_osd e, loc_bad = bad\<rparr>"

text \<open>Copies of older versions on OSDs that hold neither the kept version nor their own place in the
  current set are remembered as outdated.\<close>

fun add_outdated ::
  "osd_num list \<Rightarrow> obj_ver_role list \<Rightarrow> pg_osd_set \<times> u32 \<times> u32 \<Rightarrow> (pg_osd_set \<times> u32 \<times> u32) option"
where
  "add_outdated cur [] r = Some r"
| "add_outdated cur (e # es) (osd_set, state, pgstate) =
     (if \<exists>l \<in> set osd_set. loc_osd l = e_osd e then add_outdated cur es (osd_set, state, pgstate)
      else do {
        c \<leftarrow> vec_at cur (e_role e);
        if c \<noteq> e_osd e
        then add_outdated cur es
               (osd_set @ [e_loc LOC_OUTDATED e],
                if state AND (OBJ_INCOMPLETE OR OBJ_DEGRADED) = 0
                then (state OR OBJ_MISPLACED, pgstate OR PG_HAS_MISPLACED) else (state, pgstate))
        else add_outdated cur es (osd_set, state, pgstate)
      })"

text \<open>\<open>read_target\<close>: the usable copies; for erasure coding each in the place of its role.\<close>

definition loc_usable :: "pg_obj_loc \<Rightarrow> bool" where
  "loc_usable l \<longleftrightarrow> loc_bad l AND (LOC_OUTDATED OR LOC_CORRUPTED) = 0"

fun place_roles :: "pg_osd_set \<Rightarrow> osd_num list \<Rightarrow> osd_num list option" where
  "place_roles [] target = Some target"
| "place_roles (l # ls) target =
     (if loc_usable l
      then if loc_role l < length target then place_roles ls (target[loc_role l := loc_osd l]) else None
      else place_roles ls target)"

definition calc_read_target :: "pg \<Rightarrow> pg_osd_set \<Rightarrow> osd_num list option" where
  "calc_read_target pg osd_set =
     (if pg_scheme pg = POOL_SCHEME_REPLICATED
      then let found = map loc_osd (filter loc_usable osd_set)
           in Some (found @ replicate (pg_size pg - length found) 0)
      else place_roles osd_set (replicate (pg_size pg) 0))"

definition in_state_map :: "u32 \<Rightarrow> object_id \<Rightarrow> pg_osd_set \<Rightarrow> pg \<Rightarrow> pg" where
  "in_state_map state o_id osd_set pg =
     (if state AND OBJ_INCONSISTENT \<noteq> 0
      then pg\<lparr>inconsistent_objects := (inconsistent_objects pg)(o_id \<mapsto> osd_set)\<rparr>
      else if state AND OBJ_INCOMPLETE \<noteq> 0
      then pg\<lparr>incomplete_objects := (incomplete_objects pg)(o_id \<mapsto> osd_set)\<rparr>
      else if state AND OBJ_DEGRADED \<noteq> 0
      then pg\<lparr>degraded_objects := (degraded_objects pg)(o_id \<mapsto> osd_set)\<rparr>
      else pg\<lparr>misplaced_objects := (misplaced_objects pg)(o_id \<mapsto> osd_set)\<rparr>)"

definition add_object_to_state :: "object_id \<Rightarrow> u32 \<Rightarrow> pg_osd_set \<Rightarrow> pg \<Rightarrow> pg option" where
  "add_object_to_state o_id state osd_set pg = do {
     pg \<leftarrow> (case state_dict pg osd_set of
             None \<Rightarrow> do {
               rt \<leftarrow> calc_read_target pg osd_set;
               Some (pg\<lparr>state_dict := (state_dict pg)(osd_set \<mapsto>
                 \<lparr>read_target = rt, ss_osd_set = osd_set, ss_state = state, object_count = 1\<rparr>)\<rparr>)
             }
           | Some s \<Rightarrow> Some (pg\<lparr>state_dict := (state_dict pg)(osd_set \<mapsto>
                 s\<lparr>object_count := object_count s + 1\<rparr>)\<rparr>));
     Some (in_state_map state o_id osd_set pg)
   }"

text \<open>The state of an object with a version to keep, and the flag it adds to the state of its group.\<close>

definition classify_object :: "check \<Rightarrow> u32 \<times> u32" where
  "classify_object st =
     (let pg = ck_pg st in
      if \<not> replicated st \<and> n_roles st < pg_data_size pg then (OBJ_INCOMPLETE, PG_HAS_INCOMPLETE)
      else if (if replicated st then n_copies st else n_roles st) < pg_cursize pg
      then (OBJ_DEGRADED, PG_HAS_DEGRADED)
      else if n_mismatched st > 0 then (OBJ_MISPLACED, PG_HAS_MISPLACED)
      else (0, 0))"

definition set_pg :: "(pg \<Rightarrow> pg) \<Rightarrow> check \<Rightarrow> check" where
  "set_pg f st = st\<lparr>ck_pg := f (ck_pg st)\<rparr>"

definition file_object :: "check \<Rightarrow> check option" where
  "file_object st =
     (let (state, flag) = classify_object st;
          list = ck_list st; pg = ck_pg st;
          pg = pg\<lparr>pg_state := pg_state pg OR flag, total_count := total_count pg + 1\<rparr>;
          osd_set = (if state \<noteq> 0 \<or> ver_end st < obj_end st
                     then map (e_loc 0) (segment list (ver_start st) (ver_end st)) else ck_osd_set st)
      in do {
        (osd_set, state, pgstate) \<leftarrow>
          add_outdated (cur_set pg) (segment list (ver_end st) (obj_end st)) (osd_set, state, pg_state pg);
        let pg = pg\<lparr>pg_state := pgstate\<rparr>;
        let pg = (if target_ver st < max_ver st
                  then pg\<lparr>ver_override := (ver_override pg)(ck_oid st \<mapsto> target_ver st)\<rparr> else pg);
        pg \<leftarrow> (if state = 0 then Some (pg\<lparr>clean_count := clean_count pg + 1\<rparr>)
               else add_object_to_state (ck_oid st) state osd_set pg);
        Some (st\<lparr>ck_pg := pg, ck_osd_set := osd_set\<rparr>)
      })"

definition finish_object :: "check \<Rightarrow> check option" where
  "finish_object st =
     (let st = (if target_ver st = 0 \<and> version_good st
                then st\<lparr>target_ver := last_ver st, ver_end := list_pos st\<rparr> else st);
          st = st\<lparr>obj_end := list_pos st\<rparr>
      in
      if n_invalid st > 0
      then Some (set_pg (\<lambda>pg. pg\<lparr>pg_state := pg_state pg OR PG_HAS_INVALID,
                                total_count := total_count pg + 1\<rparr>) st)
      else
        let st = (if n_unstable st > 0
                  then set_pg (\<lambda>pg. pg\<lparr>pg_state := pg_state pg OR PG_HAS_UNCLEAN,
                         flush_actions := flush_pieces (target_ver st)
                           (object_pieces (target_ver st) (segment (ck_list st) (obj_start st) (obj_end st)))
                           (flush_actions pg)\<rparr>) st
                  else st)
        in if target_ver st = 0 then Some st else file_object st)"

subsection \<open>The walk\<close>

definition walk_entry :: "check \<Rightarrow> check option" where
  "walk_entry st = do {
     st \<leftarrow> (if ck_oid st \<noteq> e_base (cur_entry st)
            then do {
              st \<leftarrow> (if inode (ck_oid st) \<noteq> 0 then finish_object st else Some st);
              Some (start_object st)
            }
            else Some st);
     st \<leftarrow> handle_version st;
     Some (st\<lparr>list_pos := list_pos st + 1\<rparr>)
   }"

primrec walk_loop :: "nat \<Rightarrow> check \<Rightarrow> check option" where
  "walk_loop 0 st = Some st"
| "walk_loop (Suc n) st = do { st \<leftarrow> walk_entry st; walk_loop n st }"

definition activate :: "pg \<Rightarrow> pg" where
  "activate pg =
     (if pg_state pg AND PG_HAS_INVALID \<noteq> 0 then pg\<lparr>pg_state := PG_INCOMPLETE OR PG_HAS_INVALID\<rparr>
      else
        let pg = (if pg_cursize pg < pg_size pg then pg\<lparr>pg_state := pg_state pg OR PG_DEGRADED\<rparr> else pg);
            pg = pg\<lparr>pg_state := pg_state pg OR PG_ACTIVE\<rparr>
        in if length (cur_peers pg) < length (all_peers pg)
           then pg\<lparr>pg_state := pg_state pg OR PG_LEFT_ON_DEAD\<rparr> else pg)"

definition walk :: "check \<Rightarrow> check option" where
  "walk st = do {
     st \<leftarrow> walk_loop (length (ck_list st))
            (set_pg (\<lambda>pg. pg\<lparr>clean_count := 0, total_count := 0, pg_state := 0\<rparr>) st\<lparr>list_pos := 0\<rparr>);
     st \<leftarrow> (if inode (ck_oid st) \<noteq> 0 then finish_object st else Some st);
     Some (set_pg activate st)
   }"

definition new_check :: "pg \<Rightarrow> obj_ver_role list \<Rightarrow> check" where
  "new_check pg es =
     \<lparr>ck_pg = pg, replicated = (pg_scheme pg = POOL_SCHEME_REPLICATED), ck_list = es, list_pos = 0,
      obj_start = 0, obj_end = 0, ver_start = 0, ver_end = 0, ck_oid = Object_id 0 0, max_ver = 0,
      last_ver = 0, target_ver = 0, n_copies = 0, has_roles = 0, n_roles = 0, n_stable = 0,
      n_mismatched = 0, n_unstable = 0, n_invalid = 0, ck_osd_set = []\<rparr>"

subsection \<open>All lists of a group\<close>

text \<open>The list an OSD returned: its object versions, the first \<open>lr_stable_count\<close> of them stable.\<close>

record pg_list_result =
  lr_buf :: "obj_ver_id list"
  lr_stable_count :: nat

definition PG_EPOCH_BITS :: nat where "PG_EPOCH_BITS = 48"

definition ver_epoch :: "version \<Rightarrow> u64" where
  "ver_epoch v = drop_bit (64 - PG_EPOCH_BITS) v"

definition list_entries :: "osd_num \<Rightarrow> pg_list_result \<Rightarrow> obj_ver_role list" where
  "list_entries osd r =
     map (\<lambda>(i, ov). Obj_ver_role (oid ov) (version ov) osd (i < lr_stable_count r))
       (enumerate 0 (lr_buf r))"

definition all_entries :: "(osd_num \<times> pg_list_result) list \<Rightarrow> obj_ver_role list" where
  "all_entries list_results = concat (map (\<lambda>(osd, r). list_entries osd r) list_results)"

definition list_epoch :: "obj_ver_role list \<Rightarrow> u64" where
  "list_epoch es = fold (\<lambda>e ep. if ver_epoch (e_version e) > ep then ver_epoch (e_version e) else ep) es 0"

definition calc_object_states :: "(osd_num \<times> pg_list_result) list \<Rightarrow> pg \<Rightarrow> pg outcome" where
  "calc_object_states list_results pg =
     (let es = all_entries list_results;
          pg = pg\<lparr>pg_epoch := list_epoch es\<rparr>
      in case walk (new_check pg (sort_by obj_ver_role_lt es)) of
           None \<Rightarrow> Inl (Out_of_bounds ''cur_set'')
         | Some st \<Rightarrow>
             let pg = ck_pg st in
             if pg_state pg \<noteq> PG_ACTIVE
             then if pg_epoch pg = push_bit PG_EPOCH_BITS 1 - 1 then Inl (Assert_failed ''epoch'')
                  else Inr (pg\<lparr>pg_epoch := pg_epoch pg + 1\<rparr>)
             else Inr pg)"

end
