(* ===== verification/Pg_Peering_Target.thy ===== *)
theory Pg_Peering_Target
  imports Pg_Peering
begin

text \<open>
  The walk over one object of a placement group: a declarative account of the version that is kept
  and of the counters the walk keeps, and the invariant that relates the state of the walk to it.
  Entries of one object come in descending order of versions.
\<close>

section \<open>Versions of one object\<close>

definition copies_of :: "version \<Rightarrow> obj_ver_role list \<Rightarrow> obj_ver_role list" where
  "copies_of v es = filter (\<lambda>e. e_version e = v) es"

definition newer_than :: "version \<Rightarrow> obj_ver_role list \<Rightarrow> obj_ver_role list" where
  "newer_than v es = filter (\<lambda>e. e_version e > v) es"

definition older_than :: "version \<Rightarrow> obj_ver_role list \<Rightarrow> obj_ver_role list" where
  "older_than v es = filter (\<lambda>e. e_version e < v) es"

definition entry_valid :: "pg \<Rightarrow> bool \<Rightarrow> obj_ver_role \<Rightarrow> bool" where
  "entry_valid pg rep e \<longleftrightarrow> \<not> (rep \<and> e_role e > 0 \<or> e_role e \<ge> pg_size pg)"

definition entry_mismatched :: "pg \<Rightarrow> bool \<Rightarrow> obj_ver_role \<Rightarrow> bool" where
  "entry_mismatched pg rep e \<longleftrightarrow>
     (if rep then e_osd e \<notin> set (cur_set pg) else cur_set pg ! e_role e \<noteq> e_osd e)"

definition roles_of :: "pg \<Rightarrow> bool \<Rightarrow> obj_ver_role list \<Rightarrow> nat set" where
  "roles_of pg rep es = (if rep then {} else e_role ` {e \<in> set es. entry_valid pg rep e})"

definition version_kept_ok :: "pg \<Rightarrow> bool \<Rightarrow> obj_ver_role list \<Rightarrow> version \<Rightarrow> bool" where
  "version_kept_ok pg rep es v \<longleftrightarrow>
     (\<exists>e \<in> set es. e_version e = v \<and> entry_valid pg rep e \<and> e_stable e) \<or>
     pg_data_size pg \<le> card (roles_of pg rep (copies_of v es))"

text \<open>The newest version that is stable somewhere or has enough parts; zero if there is none.\<close>

definition kept_version :: "pg \<Rightarrow> bool \<Rightarrow> obj_ver_role list \<Rightarrow> version" where
  "kept_version pg rep es =
     (case filter (version_kept_ok pg rep es) (map e_version es) of [] \<Rightarrow> 0 | v # vs \<Rightarrow> Max (set (v # vs)))"

definition versions_desc :: "obj_ver_role list \<Rightarrow> bool" where
  "versions_desc es \<longleftrightarrow> sorted_wrt (\<lambda>a b. e_version b \<le> e_version a) es"

text \<open>What a placement group's configuration guarantees: a place for every role, at least one data part,
  and for erasure coding no more roles than \<open>has_roles\<close> has bits for.\<close>

definition pg_wf :: "pg \<Rightarrow> bool" where
  "pg_wf pg \<longleftrightarrow> pg_size pg \<le> length (cur_set pg) \<and> 0 < pg_data_size pg \<and>
     (pg_scheme pg \<noteq> POOL_SCHEME_REPLICATED \<longrightarrow> pg_size pg \<le> 32)"

lemma copies_of_simps [simp]:
  "copies_of v [] = []"
  "copies_of v (e # es) = (if e_version e = v then e # copies_of v es else copies_of v es)"
  "copies_of v (es @ fs) = copies_of v es @ copies_of v fs"
  by (simp_all add: copies_of_def)

lemma copies_of_set [simp]: "set (copies_of v es) = {e \<in> set es. e_version e = v}"
  by (auto simp: copies_of_def)

lemma versions_desc_append:
  "versions_desc (es @ fs) \<longleftrightarrow>
     versions_desc es \<and> versions_desc fs \<and> (\<forall>e \<in> set es. \<forall>f \<in> set fs. e_version f \<le> e_version e)"
  by (auto simp: versions_desc_def sorted_wrt_append)

lemma versions_split:
  "versions_desc es \<Longrightarrow> es = newer_than v es @ copies_of v es @ older_than v es"
proof (induction es)
  case (Cons e es)
  have d: "versions_desc es" "\<forall>f \<in> set es. e_version f \<le> e_version e"
    using Cons.prems by (auto simp: versions_desc_def)
  consider "e_version e > v" | "e_version e = v" | "e_version e < v" by (rule linorder_cases)
  then show ?case
  proof cases
    case 2
    then have "newer_than v es = []"
      using d(2) by (auto simp: newer_than_def filter_empty_conv not_less)
    with 2 Cons.IH [OF d(1)] show ?thesis
      by (simp add: newer_than_def older_than_def)
  next
    case 3
    then have "newer_than v es = []" "copies_of v es = []"
      using d(2) by (auto simp: newer_than_def copies_of_def filter_empty_conv not_less)
    with 3 Cons.IH [OF d(1)] show ?thesis
      by (auto simp: newer_than_def older_than_def)
  qed (use Cons.IH [OF d(1)] in \<open>auto simp: newer_than_def older_than_def\<close>)
qed (simp add: newer_than_def older_than_def)

lemma kept_version_eq:
  assumes "version_kept_ok pg rep es v" "v \<in> e_version ` set es"
    and "\<And>w. v < w \<Longrightarrow> \<not> version_kept_ok pg rep es w"
  shows "kept_version pg rep es = v"
proof -
  let ?vs = "filter (version_kept_ok pg rep es) (map e_version es)"
  have v: "v \<in> set ?vs" using assms(1,2) by auto
  then obtain w ws where ws: "?vs = w # ws" by (cases ?vs) auto
  have "Max (set ?vs) = v"
    by (rule Max_eqI) (use v assms(3) in \<open>auto simp: not_less [symmetric]\<close>)
  with ws show ?thesis
    by (simp add: kept_version_def)
qed

lemma kept_version_none:
  assumes "\<And>v. v \<in> e_version ` set es \<Longrightarrow> \<not> version_kept_ok pg rep es v"
  shows "kept_version pg rep es = 0"
proof -
  have "filter (version_kept_ok pg rep es) (map e_version es) = []"
    using assms by (auto simp: filter_empty_conv)
  then show ?thesis by (simp add: kept_version_def)
qed

lemma roles_of_finite [simp]: "finite (roles_of pg rep es)"
  by (simp add: roles_of_def)

lemma version_kept_ok_in:
  assumes "0 < pg_data_size pg" "version_kept_ok pg rep es v"
  shows "v \<in> e_version ` set es"
proof (rule ccontr)
  assume "v \<notin> e_version ` set es"
  then have "copies_of v es = []" "\<not> (\<exists>e \<in> set es. e_version e = v)"
    by (auto simp: copies_of_def filter_empty_conv)
  with assms show False
    by (auto simp: version_kept_ok_def roles_of_def split: if_splits)
qed

section \<open>The role mask\<close>

definition roles_mask :: "u64 \<Rightarrow> nat set \<Rightarrow> bool" where
  "roles_mask w R \<longleftrightarrow> (\<forall>i. bit w i \<longrightarrow> (if i < 32 then i \<in> R else 31 \<in> R)) \<and> (\<forall>i \<in> R. i < 32 \<and> bit w i)"

lemma bit_role_bit: "r < 32 \<Longrightarrow> bit (role_bit r) i \<longleftrightarrow> i = r \<or> r = 31 \<and> 31 < i \<and> i < 64"
  by (auto simp: role_bit_def bit_signed_iff bit_exp_iff min_def)

lemma roles_mask_zero: "roles_mask 0 {}"
  by (simp add: roles_mask_def)

lemma roles_mask_add: "roles_mask w R \<Longrightarrow> r < 32 \<Longrightarrow> roles_mask (w OR role_bit r) (insert r R)"
  by (auto simp: roles_mask_def bit_or_iff bit_role_bit split: if_splits)

lemma roles_mask_test:
  assumes "roles_mask w R" "r < 32"
  shows "w AND role_bit r = 0 \<longleftrightarrow> r \<notin> R"
proof
  assume z: "w AND role_bit r = 0"
  have "bit (role_bit r) r" using assms(2) by (simp add: bit_role_bit)
  with z have "\<not> bit w r" by (metis bit_and_iff bit_0_eq bot_apply bot_bool_def)
  with assms(1) show "r \<notin> R" by (auto simp: roles_mask_def)
next
  assume "r \<notin> R"
  then have "\<not> (bit w i \<and> bit (role_bit r) i)" for i
    using assms by (auto simp: roles_mask_def bit_role_bit split: if_splits)
  then show "w AND role_bit r = 0"
    by (intro bit_word_eqI) (auto simp: bit_and_iff)
qed

section \<open>The invariant of the walk\<close>

text \<open>The counters describe the copies \<open>cur\<close> of one version.\<close>

definition counters :: "check \<Rightarrow> obj_ver_role list \<Rightarrow> bool" where
  "counters st cur \<longleftrightarrow>
     (let pg = ck_pg st; rep = replicated st; valid = filter (entry_valid pg rep) cur in
      n_copies st = length cur \<and>
      n_stable st = length (filter e_stable valid) \<and>
      n_mismatched st = length (filter (entry_mismatched pg rep) valid) \<and>
      n_roles st = card (roles_of pg rep cur) \<and>
      roles_mask (has_roles st) (roles_of pg rep cur))"

definition seen :: "check \<Rightarrow> obj_ver_role list" where
  "seen st = segment (ck_list st) (obj_start st) (list_pos st)"

definition check_wf :: "check \<Rightarrow> bool" where
  "check_wf st \<longleftrightarrow> pg_wf (ck_pg st) \<and> replicated st = (pg_scheme (ck_pg st) = POOL_SCHEME_REPLICATED)"

text \<open>The walk is inside an object of which the entries \<open>ds\<close> have been seen.\<close>

definition in_object :: "check \<Rightarrow> obj_ver_role list \<Rightarrow> bool" where
  "in_object st ds \<longleftrightarrow>
     (let pg = ck_pg st; rep = replicated st;
          v = (if target_ver st = 0 then last_ver st else target_ver st)
      in ds \<noteq> [] \<and> versions_desc ds \<and> (\<forall>e \<in> set ds. e_base e = ck_oid st \<and> e_version e \<noteq> 0) \<and>
         max_ver st = e_version (hd ds) \<and>
         n_unstable st = length (filter (\<lambda>e. \<not> e_stable e) ds) \<and>
         counters st (copies_of v ds) \<and>
         (\<forall>w > v. \<not> version_kept_ok pg rep ds w) \<and>
         n_invalid st = length (filter (\<lambda>e. \<not> entry_valid pg rep e \<and> v \<le> e_version e) ds) \<and>
         ver_start st = obj_start st + length (newer_than v ds) \<and>
         (if target_ver st = 0 then v = e_version (last ds)
          else version_kept_ok pg rep ds v \<and> e_version (last ds) < v \<and>
               ver_end st = ver_start st + length (copies_of v ds)))"

lemma in_object_counting:
  assumes "in_object st ds" "target_ver st = 0"
  shows "ds \<noteq> []" "versions_desc ds" "last_ver st = e_version (last ds)"
    "counters st (copies_of (last_ver st) ds)"
    "\<forall>d \<in> set ds. e_base d = ck_oid st \<and> e_version d \<noteq> 0"
    "max_ver st = e_version (hd ds)" "n_unstable st = length (filter (\<lambda>e. \<not> e_stable e) ds)"
    "\<forall>w > last_ver st. \<not> version_kept_ok (ck_pg st) (replicated st) ds w"
    "n_invalid st = length (filter (\<lambda>d. \<not> entry_valid (ck_pg st) (replicated st) d \<and>
       last_ver st \<le> e_version d) ds)"
    "ver_start st = obj_start st + length (newer_than (last_ver st) ds)"
  using assms(1) unfolding in_object_def Let_def if_P [OF assms(2)] by blast+

lemma in_object_chosen:
  assumes "in_object st ds" "target_ver st \<noteq> 0"
  shows "ds \<noteq> []" "versions_desc ds" "e_version (last ds) < target_ver st"
    "counters st (copies_of (target_ver st) ds)"
    "\<forall>d \<in> set ds. e_base d = ck_oid st \<and> e_version d \<noteq> 0"
    "max_ver st = e_version (hd ds)" "n_unstable st = length (filter (\<lambda>e. \<not> e_stable e) ds)"
    "\<forall>w > target_ver st. \<not> version_kept_ok (ck_pg st) (replicated st) ds w"
    "n_invalid st = length (filter (\<lambda>d. \<not> entry_valid (ck_pg st) (replicated st) d \<and>
       target_ver st \<le> e_version d) ds)"
    "ver_start st = obj_start st + length (newer_than (target_ver st) ds)"
    "version_kept_ok (ck_pg st) (replicated st) ds (target_ver st)"
    "ver_end st = ver_start st + length (copies_of (target_ver st) ds)"
  using assms(1) unfolding in_object_def Let_def if_not_P [OF assms(2)] by blast+

lemma in_object_countingI:
  assumes "target_ver st = 0" "ds \<noteq> []" "versions_desc ds" "last_ver st = e_version (last ds)"
    "counters st (copies_of (last_ver st) ds)"
    "\<forall>d \<in> set ds. e_base d = ck_oid st \<and> e_version d \<noteq> 0"
    "max_ver st = e_version (hd ds)" "n_unstable st = length (filter (\<lambda>e. \<not> e_stable e) ds)"
    "\<forall>w > last_ver st. \<not> version_kept_ok (ck_pg st) (replicated st) ds w"
    "n_invalid st = length (filter (\<lambda>d. \<not> entry_valid (ck_pg st) (replicated st) d \<and>
       last_ver st \<le> e_version d) ds)"
    "ver_start st = obj_start st + length (newer_than (last_ver st) ds)"
  shows "in_object st ds"
  unfolding in_object_def Let_def if_P [OF assms(1)] using assms by blast

lemma in_object_chosenI:
  assumes "target_ver st \<noteq> 0" "ds \<noteq> []" "versions_desc ds" "e_version (last ds) < target_ver st"
    "counters st (copies_of (target_ver st) ds)"
    "\<forall>d \<in> set ds. e_base d = ck_oid st \<and> e_version d \<noteq> 0"
    "max_ver st = e_version (hd ds)" "n_unstable st = length (filter (\<lambda>e. \<not> e_stable e) ds)"
    "\<forall>w > target_ver st. \<not> version_kept_ok (ck_pg st) (replicated st) ds w"
    "n_invalid st = length (filter (\<lambda>d. \<not> entry_valid (ck_pg st) (replicated st) d \<and>
       target_ver st \<le> e_version d) ds)"
    "ver_start st = obj_start st + length (newer_than (target_ver st) ds)"
    "version_kept_ok (ck_pg st) (replicated st) ds (target_ver st)"
    "ver_end st = ver_start st + length (copies_of (target_ver st) ds)"
  shows "in_object st ds"
  unfolding in_object_def Let_def if_not_P [OF assms(1)] using assms by blast

lemma version_good_iff:
  assumes "counters st (copies_of v ds)"
  shows "version_good st \<longleftrightarrow> version_kept_ok (ck_pg st) (replicated st) ds v"
  using assms unfolding version_good_def version_kept_ok_def counters_def Let_def
  by (auto simp: length_greater_0_conv filter_empty_conv)

text \<open>Counting a copy keeps the counters right.\<close>

lemma roles_of_snoc:
  "roles_of pg rep (cur @ [e]) =
     (if \<not> rep \<and> entry_valid pg rep e then insert (e_role e) (roles_of pg rep cur) else roles_of pg rep cur)"
  by (auto simp: roles_of_def)

lemma count_copy_spec:
  assumes "check_wf st" "counters st cur"
  obtains st' where "count_copy st = Some st'" "counters st' (cur @ [cur_entry st])"
    "n_invalid st' = n_invalid st + (if entry_valid (ck_pg st) (replicated st) (cur_entry st) then 0 else 1)"
    "st' = st\<lparr>n_copies := n_copies st', n_invalid := n_invalid st', n_stable := n_stable st',
       n_mismatched := n_mismatched st', has_roles := has_roles st', n_roles := n_roles st'\<rparr>"
proof -
  let ?e = "cur_entry st" and ?pg = "ck_pg st" and ?rep = "replicated st"
  show ?thesis
  proof (cases "entry_valid ?pg ?rep ?e")
    case False
    then show ?thesis
      using assms(2)
      by (intro that [of "st\<lparr>n_copies := n_copies st + 1, n_invalid := n_invalid st + 1\<rparr>"])
        (auto simp: count_copy_def counters_def Let_def entry_valid_def roles_of_snoc)
  next
    case True
    show ?thesis
    proof (cases ?rep)
      case rep: True
      show ?thesis
        by (rule that [of "st\<lparr>n_copies := n_copies st + 1,
              n_stable := n_stable st + (if e_stable ?e then 1 else 0),
              n_mismatched := n_mismatched st + (if e_osd ?e \<in> set (cur_set ?pg) then 0 else 1)\<rparr>"])
          (use True rep assms(2) in \<open>auto simp: count_copy_def counters_def Let_def entry_valid_def
             roles_of_snoc entry_mismatched_def\<close>)
    next
      case rep: False
      then have r: "e_role ?e < length (cur_set ?pg)" "e_role ?e < 32"
        using True assms(1) by (auto simp: check_wf_def pg_wf_def entry_valid_def)
      have m: "roles_mask (has_roles st) (roles_of ?pg ?rep cur)" "n_roles st = card (roles_of ?pg ?rep cur)"
        using assms(2) by (simp_all add: counters_def Let_def)
      let ?new = "e_role ?e \<notin> roles_of ?pg ?rep cur"
      have new: "has_roles st AND role_bit (e_role ?e) = 0 \<longleftrightarrow> ?new"
        using roles_mask_test [OF m(1) r(2)] .
      show ?thesis
        by (rule that [of "st\<lparr>n_copies := n_copies st + 1,
              n_stable := n_stable st + (if e_stable ?e then 1 else 0),
              n_mismatched := n_mismatched st + (if cur_set ?pg ! e_role ?e \<noteq> e_osd ?e then 1 else 0),
              has_roles := (if ?new then has_roles st OR role_bit (e_role ?e) else has_roles st),
              n_roles := n_roles st + (if ?new then 1 else 0)\<rparr>"])
          (use True rep r m new roles_mask_add [OF m(1) r(2)] assms(2) in
            \<open>auto simp: count_copy_def counters_def Let_def entry_valid_def roles_of_snoc
              entry_mismatched_def vec_at_def insert_absorb\<close>)
    qed
  qed
qed

lemma version_kept_ok_snoc:
  "e_version e \<noteq> w \<Longrightarrow> version_kept_ok pg rep (ds @ [e]) w = version_kept_ok pg rep ds w"
  by (auto simp: version_kept_ok_def)

lemma newer_than_snoc [simp]:
  "newer_than v (ds @ [e]) = newer_than v ds @ (if v < e_version e then [e] else [])"
  by (simp add: newer_than_def)

lemma versions_desc_snoc:
  assumes "versions_desc ds" "ds \<noteq> []" "e_version e \<le> e_version (last ds)"
  shows "versions_desc (ds @ [e])" "\<forall>d \<in> set ds. e_version e \<le> e_version d"
proof -
  have "e_version (last ds) \<le> e_version d" if "d \<in> set ds" for d
    using assms(1) that by (induction ds) (auto simp: versions_desc_def)
  then show all: "\<forall>d \<in> set ds. e_version e \<le> e_version d"
    using assms(3) order_trans by blast
  show "versions_desc (ds @ [e])"
    using assms(1) all by (simp add: versions_desc_def sorted_wrt_append)
qed

text \<open>What every step of the walk inside an object leaves alone.\<close>

definition same_frame :: "check \<Rightarrow> check \<Rightarrow> bool" where
  "same_frame st st' \<longleftrightarrow> ck_pg st' = ck_pg st \<and> replicated st' = replicated st \<and>
     ck_list st' = ck_list st \<and> list_pos st' = list_pos st \<and> obj_start st' = obj_start st \<and>
     ck_oid st' = ck_oid st \<and> ck_osd_set st' = ck_osd_set st"

lemma counters_cong:
  "ck_pg st' = ck_pg st \<Longrightarrow> replicated st' = replicated st \<Longrightarrow> n_copies st' = n_copies st \<Longrightarrow>
   n_stable st' = n_stable st \<Longrightarrow> n_mismatched st' = n_mismatched st \<Longrightarrow> n_roles st' = n_roles st \<Longrightarrow>
   has_roles st' = has_roles st \<Longrightarrow> counters st' cur = counters st cur"
  by (simp add: counters_def)

lemma counters_n_unstable [simp]: "counters (st\<lparr>n_unstable := k\<rparr>) cur = counters st cur"
  by (rule counters_cong) simp_all

lemma counters_zero:
  "n_copies st = 0 \<Longrightarrow> n_stable st = 0 \<Longrightarrow> n_mismatched st = 0 \<Longrightarrow> n_roles st = 0 \<Longrightarrow> has_roles st = 0 \<Longrightarrow>
   counters st []"
  by (simp add: counters_def Let_def roles_of_def roles_mask_zero)

lemma check_wf_frame: "same_frame st st' \<Longrightarrow> check_wf st' = check_wf st"
  by (simp add: same_frame_def check_wf_def)

text \<open>Counting the current entry as the copy of its version, then noting whether it is stable.\<close>

lemma count_then_unstable:
  assumes "check_wf st" "counters st cur" "target_ver st = 0" "e = cur_entry st"
  obtains st' where
    "do { st' \<leftarrow> count_copy st; Some (if \<not> e_stable e then st'\<lparr>n_unstable := n_unstable st' + 1\<rparr> else st') }
       = Some st'"
    "same_frame st st'" "counters st' (cur @ [e])" "target_ver st' = 0" "last_ver st' = last_ver st"
    "max_ver st' = max_ver st" "ver_start st' = ver_start st"
    "n_unstable st' = n_unstable st + (if e_stable e then 0 else 1)"
    "n_invalid st' = n_invalid st + (if entry_valid (ck_pg st) (replicated st) e then 0 else 1)"
proof -
  obtain st1 where s: "count_copy st = Some st1" "counters st1 (cur @ [e])"
    "n_invalid st1 = n_invalid st + (if entry_valid (ck_pg st) (replicated st) e then 0 else 1)"
    and eq: "st1 = st\<lparr>n_copies := n_copies st1, n_invalid := n_invalid st1, n_stable := n_stable st1,
       n_mismatched := n_mismatched st1, has_roles := has_roles st1, n_roles := n_roles st1\<rparr>"
    using count_copy_spec [OF assms(1,2)] unfolding assms(4) by metis
  have fr: "ck_pg st1 = ck_pg st" "replicated st1 = replicated st" "ck_list st1 = ck_list st"
    "list_pos st1 = list_pos st" "obj_start st1 = obj_start st" "ck_oid st1 = ck_oid st"
    "ck_osd_set st1 = ck_osd_set st" "target_ver st1 = target_ver st" "last_ver st1 = last_ver st"
    "max_ver st1 = max_ver st" "ver_start st1 = ver_start st" "n_unstable st1 = n_unstable st"
    by (subst eq, simp)+
  let ?st' = "if \<not> e_stable e then st1\<lparr>n_unstable := n_unstable st1 + 1\<rparr> else st1"
  have "counters ?st' (cur @ [e])"
    using s(2) counters_cong [of ?st' st1] by simp
  then show ?thesis
    using that [of ?st'] s fr assms(3) by (simp add: same_frame_def)
qed

lemma handle_version_first:
  assumes "check_wf st" "e = cur_entry st" "e_version e \<noteq> 0"
  obtains st' where "handle_version (start_object st) = Some st'" "in_object st' [e]"
    "same_frame (start_object st) st'"
proof -
  let ?s = "start_object st"
  have s: "target_ver ?s = 0" "last_ver ?s = e_version e" "cur_entry ?s = e" "ck_oid ?s = e_base e"
    "max_ver ?s = e_version e" "n_unstable ?s = 0" "n_invalid ?s = 0" "ver_start ?s = obj_start ?s"
    by (simp_all add: start_object_def Let_def assms(2))
  have "counters ?s []" "check_wf ?s"
    using assms(1) by (auto intro!: counters_zero simp: start_object_def Let_def check_wf_def)
  then obtain st' where st': "do { st' \<leftarrow> count_copy ?s;
      Some (if \<not> e_stable e then st'\<lparr>n_unstable := n_unstable st' + 1\<rparr> else st') } = Some st'"
    "same_frame ?s st'" "counters st' [e]" "target_ver st' = 0" "last_ver st' = e_version e"
    "max_ver st' = e_version e" "ver_start st' = obj_start ?s"
    "n_unstable st' = (if e_stable e then 0 else 1)"
    "n_invalid st' = (if entry_valid (ck_pg ?s) (replicated ?s) e then 0 else 1)"
    using count_then_unstable [of ?s "[]" e] s by auto
  have "handle_version ?s = Some st'"
    using st'(1) s by (simp add: handle_version_def Let_def)
  moreover have "\<not> version_kept_ok (ck_pg st') (replicated st') [e] w" if "e_version e < w" for w
    using version_kept_ok_in [of "ck_pg st'" "replicated st'" "[e]" w] that \<open>check_wf ?s\<close> st'(2)
    by (auto simp: check_wf_def pg_wf_def same_frame_def)
  then have "in_object st' [e]"
    using st' s assms(3)
    by (simp add: in_object_def Let_def same_frame_def versions_desc_def newer_than_def)
  ultimately show ?thesis
    using that st'(2) by blast
qed

lemma all_ge_last: "versions_desc ds \<Longrightarrow> d \<in> set ds \<Longrightarrow> e_version (last ds) \<le> e_version d"
  by (induction ds) (auto simp: versions_desc_def)

lemma last_version_split:
  assumes "versions_desc ds" "ds \<noteq> []" "v = e_version (last ds)"
  shows "length ds = length (newer_than v ds) + length (copies_of v ds)"
proof -
  have "older_than v ds = []"
    using all_ge_last [OF assms(1)] assms(3) by (auto simp: older_than_def filter_empty_conv not_less)
  with arg_cong [where f = length, OF versions_split [OF assms(1), of v]] show ?thesis
    by simp
qed

lemma same_version_step:
  assumes "check_wf st" "in_object st ds" "e = cur_entry st" "e_base e = ck_oid st" "e_version e \<noteq> 0"
    "e_version e \<le> e_version (last ds)" "list_pos st = obj_start st + length ds"
    and "target_ver st = 0" "last_ver st = e_version e"
  shows "\<exists>st'. handle_version st = Some st' \<and> in_object st' (ds @ [e]) \<and> same_frame st st'"
proof -
  let ?v = "e_version e" and ?pg = "ck_pg st" and ?rep = "replicated st"
  note ds = in_object_counting [OF assms(2,8), unfolded assms(9)]
  note desc = versions_desc_snoc [OF ds(2,1) assms(6)]
  obtain st' where st': "do { st' \<leftarrow> count_copy st;
      Some (if \<not> e_stable e then st'\<lparr>n_unstable := n_unstable st' + 1\<rparr> else st') } = Some st'"
    "same_frame st st'" "counters st' (copies_of ?v ds @ [e])" "target_ver st' = 0"
    "last_ver st' = last_ver st" "max_ver st' = max_ver st" "ver_start st' = ver_start st"
    "n_unstable st' = n_unstable st + (if e_stable e then 0 else 1)"
    "n_invalid st' = n_invalid st + (if entry_valid ?pg ?rep e then 0 else 1)"
    by (rule count_then_unstable [OF assms(1) ds(4) assms(8,3)]) (rule that)
  have "handle_version st = Some st'"
    using st'(1) assms(3,8,9) by (simp add: handle_version_def Let_def)
  moreover have "in_object st' (ds @ [e])"
  proof (rule in_object_countingI)
    have f: "last_ver st' = ?v" "ck_pg st' = ?pg" "replicated st' = ?rep" "obj_start st' = obj_start st"
      "ck_oid st' = ck_oid st"
      using st'(2,5) assms(9) by (simp_all add: same_frame_def)
    show "counters st' (copies_of (last_ver st') (ds @ [e]))"
      using st'(3) by (simp add: f)
    show "\<forall>w > last_ver st'. \<not> version_kept_ok (ck_pg st') (replicated st') (ds @ [e]) w"
      using ds(8) by (simp add: f version_kept_ok_snoc)
    show "n_invalid st' = length (filter (\<lambda>d. \<not> entry_valid (ck_pg st') (replicated st') d \<and>
        last_ver st' \<le> e_version d) (ds @ [e]))"
      using ds(9) by (simp add: f st'(9))
    show "\<forall>d \<in> set (ds @ [e]). e_base d = ck_oid st' \<and> e_version d \<noteq> 0"
      using ds(5) assms(4,5) by (simp add: f)
  qed (use st' desc(1) ds(1,6,7,10) assms(9) in \<open>simp_all add: same_frame_def\<close>)
  ultimately show ?thesis using st'(2) by blast
qed

lemma older_step:
  assumes "check_wf st" "in_object st ds" "e = cur_entry st" "e_base e = ck_oid st" "e_version e \<noteq> 0"
    "e_version e \<le> e_version (last ds)" "list_pos st = obj_start st + length ds"
    and "target_ver st \<noteq> 0"
  shows "\<exists>st'. handle_version st = Some st' \<and> in_object st' (ds @ [e]) \<and> same_frame st st'"
proof -
  let ?st' = "if \<not> e_stable e then st\<lparr>n_unstable := n_unstable st + 1\<rparr> else st"
  let ?v = "target_ver st" and ?pg = "ck_pg st" and ?rep = "replicated st"
  note ds = in_object_chosen [OF assms(2,8)]
  note desc = versions_desc_snoc [OF ds(2,1) assms(6)]
  have lt: "\<not> ?v < e_version e" "e_version e \<noteq> ?v" "\<not> ?v \<le> e_version e" "e_version e < ?v"
    using assms(6) ds(3) by auto
  have "handle_version st = Some ?st'"
    using assms(3,8) by (simp add: handle_version_def Let_def)
  moreover have "in_object ?st' (ds @ [e])"
    using lt ds desc assms(4,5,8)
    by (simp add: in_object_def Let_def version_kept_ok_snoc)
  ultimately show ?thesis
    by (intro exI [of _ ?st']) (simp add: same_frame_def)
qed

lemma closed_step:
  assumes "check_wf st" "in_object st ds" "e = cur_entry st" "e_base e = ck_oid st" "e_version e \<noteq> 0"
    "e_version e \<le> e_version (last ds)" "list_pos st = obj_start st + length ds"
    and "target_ver st = 0" "last_ver st \<noteq> e_version e" "version_good st"
  shows "\<exists>st'. handle_version st = Some st' \<and> in_object st' (ds @ [e]) \<and> same_frame st st'"
proof -
  let ?s = "st\<lparr>target_ver := last_ver st, ver_end := list_pos st\<rparr>"
  let ?st' = "if \<not> e_stable e then ?s\<lparr>n_unstable := n_unstable ?s + 1\<rparr> else ?s"
  let ?v = "last_ver st"
  note ds = in_object_counting [OF assms(2,8)]
  note desc = versions_desc_snoc [OF ds(2,1) assms(6)]
  have v: "?v \<noteq> 0" "e_version e < ?v"
    using ds assms(6,9) by auto
  have "handle_version st = Some ?st'"
    using assms(3,8-) v(1) by (simp add: handle_version_def Let_def)
  moreover have "version_kept_ok (ck_pg st) (replicated st) (ds @ [e]) ?v"
    using version_good_iff [OF ds(4)] assms(10) v(2) by (simp add: version_kept_ok_snoc)
  moreover have "counters ?st' (copies_of ?v ds)"
    using ds(4) counters_cong [of ?st' st] by simp
  moreover have "list_pos st = ver_start st + length (copies_of ?v ds)"
    using assms(2,7,8) last_version_split [OF ds(2,1,3)] by (simp add: in_object_def Let_def)
  ultimately show ?thesis
    using assms(2,4,5,8) v desc ds(1)
    by (intro exI [of _ ?st']) (auto simp: in_object_def Let_def version_kept_ok_snoc same_frame_def)
qed

lemma new_version_step:
  assumes "check_wf st" "in_object st ds" "e = cur_entry st" "e_base e = ck_oid st" "e_version e \<noteq> 0"
    "e_version e \<le> e_version (last ds)" "list_pos st = obj_start st + length ds"
    and "target_ver st = 0" "last_ver st \<noteq> e_version e" "\<not> version_good st"
  shows "\<exists>st'. handle_version st = Some st' \<and> in_object st' (ds @ [e]) \<and> same_frame st st'"
proof -
  let ?s = "st\<lparr>ver_start := list_pos st, has_roles := 0, n_copies := 0, n_roles := 0,
    n_stable := 0, n_mismatched := 0, last_ver := e_version e\<rparr>"
  let ?v = "last_ver st" and ?pg = "ck_pg st" and ?rep = "replicated st"
  note ds = in_object_counting [OF assms(2,8)]
  note desc = versions_desc_snoc [OF ds(2,1) assms(6)] and ge = all_ge_last [OF ds(2)]
  have lt: "\<forall>d \<in> set ds. e_version e < e_version d"
    using ge ds(3) assms(6,9) by (metis order_le_less_trans order_less_le order_le_less)
  have none: "\<not> version_kept_ok ?pg ?rep (ds @ [e]) w" if "e_version e < w" for w
  proof -
    have "w \<in> e_version ` set ds" if "version_kept_ok ?pg ?rep ds w"
      using version_kept_ok_in that assms(1) by (auto simp: check_wf_def pg_wf_def)
    then have "?v \<le> w" if "version_kept_ok ?pg ?rep ds w"
      using that ge ds(3) by auto
    then have "\<not> version_kept_ok ?pg ?rep ds w"
      using ds(8) version_good_iff [OF ds(4)] assms(10) by (metis order_le_less)
    then show ?thesis
      using that by (simp add: version_kept_ok_snoc)
  qed
  have "counters ?s []" "check_wf ?s"
    using assms(1) by (auto intro!: counters_zero simp: check_wf_def)
  then obtain st' where st': "do { st' \<leftarrow> count_copy ?s;
      Some (if \<not> e_stable e then st'\<lparr>n_unstable := n_unstable st' + 1\<rparr> else st') } = Some st'"
    "same_frame ?s st'" "counters st' [e]" "target_ver st' = 0" "last_ver st' = e_version e"
    "max_ver st' = max_ver st" "ver_start st' = list_pos st"
    "n_unstable st' = n_unstable st + (if e_stable e then 0 else 1)"
    "n_invalid st' = n_invalid st + (if entry_valid ?pg ?rep e then 0 else 1)"
    using count_then_unstable [of ?s "[]" e] assms(3,8) by auto
  have "handle_version st = Some st'"
    using st'(1) assms(3,8,9,10) by (simp add: handle_version_def Let_def)
  moreover have "copies_of (e_version e) ds = []" "newer_than (e_version e) ds = ds"
    using lt by (auto simp: copies_of_def newer_than_def filter_empty_conv filter_id_conv)
  moreover have "filter (\<lambda>d. \<not> entry_valid ?pg ?rep d \<and> e_version e \<le> e_version d) ds
      = filter (\<lambda>d. \<not> entry_valid ?pg ?rep d \<and> ?v \<le> e_version d) ds"
    using lt ge ds(3) by (intro filter_cong) (auto simp: less_imp_le)
  ultimately show ?thesis
    using assms(2,4,5,7,8) st'(2-) desc ds(1) none
    by (intro exI [of _ st']) (auto simp: in_object_def Let_def same_frame_def)
qed

text \<open>The next entry of the same object: another copy of the version being counted, the first copy
  of an older version while no version has been chosen, or an older copy after one has.\<close>

lemma handle_version_step:
  assumes wf: "check_wf st" and inv: "in_object st ds" and e: "e = cur_entry st"
    and base: "e_base e = ck_oid st" and nz: "e_version e \<noteq> 0" and le: "e_version e \<le> e_version (last ds)"
    and pos: "list_pos st = obj_start st + length ds"
  obtains st' where "handle_version st = Some st'" "in_object st' (ds @ [e])" "same_frame st st'"
proof -
  note out = that
  consider (same) "target_ver st = 0" "last_ver st = e_version e"
    | (closed) "target_ver st = 0" "last_ver st \<noteq> e_version e" "version_good st"
    | (new) "target_ver st = 0" "last_ver st \<noteq> e_version e" "\<not> version_good st"
    | (old) "target_ver st \<noteq> 0" by blast
  then show ?thesis
  proof cases
    case same
    show ?thesis
      using same_version_step [OF wf inv e base nz le pos same] out by blast
  next
    case closed
    show ?thesis
      using closed_step [OF wf inv e base nz le pos closed] out by blast
  next
    case new
    show ?thesis
      using new_version_step [OF wf inv e base nz le pos new] out by blast
  next
    case old
    show ?thesis
      using older_step [OF wf inv e base nz le pos old] out by blast
  qed
qed

end
