(* ===== verification/Pg_Peering_Walk.thy ===== *)
theory Pg_Peering_Walk
  imports Pg_Peering_Target
begin

text \<open>
  The reference account of peering: what the walk does to a placement group is the composition of the
  effects of its objects, and the effect of an object is given directly in terms of the version kept,
  its copies and the older copies. The incremental walk of the code is shown to be equal to it.
\<close>

section \<open>The effect of one object\<close>

definition object_class :: "pg \<Rightarrow> bool \<Rightarrow> obj_ver_role list \<Rightarrow> u32 \<times> u32" where
  "object_class pg rep cur =
     (let roles = card (roles_of pg rep cur) in
      if \<not> rep \<and> roles < pg_data_size pg then (OBJ_INCOMPLETE, PG_HAS_INCOMPLETE)
      else if (if rep then length cur else roles) < pg_cursize pg then (OBJ_DEGRADED, PG_HAS_DEGRADED)
      else if \<exists>e \<in> set cur. entry_valid pg rep e \<and> entry_mismatched pg rep e
      then (OBJ_MISPLACED, PG_HAS_MISPLACED)
      else (0, 0))"

definition file_version ::
  "pg \<Rightarrow> bool \<Rightarrow> object_id \<Rightarrow> version \<Rightarrow> version \<Rightarrow> obj_ver_role list \<Rightarrow> obj_ver_role list \<Rightarrow> pg option"
where
  "file_version pg rep o_id v newest cur old =
     (let (state, flag) = object_class pg rep cur in do {
        (osd_set, state, pgstate) \<leftarrow>
          add_outdated (cur_set pg) old (map (e_loc 0) cur, state, pg_state pg OR flag);
        let pg = pg\<lparr>total_count := total_count pg + 1, pg_state := pgstate\<rparr>;
        let pg = (if v < newest then pg\<lparr>ver_override := (ver_override pg)(o_id \<mapsto> v)\<rparr> else pg);
        if state = 0 then Some (pg\<lparr>clean_count := clean_count pg + 1\<rparr>)
        else add_object_to_state o_id state osd_set pg
      })"

definition has_invalid :: "pg \<Rightarrow> bool \<Rightarrow> obj_ver_role list \<Rightarrow> bool" where
  "has_invalid pg rep es \<longleftrightarrow> (\<exists>e \<in> set es. \<not> entry_valid pg rep e \<and> kept_version pg rep es \<le> e_version e)"

definition flush_object :: "pg \<Rightarrow> version \<Rightarrow> obj_ver_role list \<Rightarrow> pg" where
  "flush_object pg v es =
     (if \<exists>e \<in> set es. \<not> e_stable e
      then pg\<lparr>pg_state := pg_state pg OR PG_HAS_UNCLEAN,
              flush_actions := flush_pieces v (object_pieces v es) (flush_actions pg)\<rparr>
      else pg)"

definition object_effect :: "pg \<Rightarrow> bool \<Rightarrow> obj_ver_role list \<Rightarrow> pg option" where
  "object_effect pg rep es =
     (let v = kept_version pg rep es in
      if has_invalid pg rep es
      then Some (pg\<lparr>pg_state := pg_state pg OR PG_HAS_INVALID, total_count := total_count pg + 1\<rparr>)
      else if v = 0 then Some (flush_object pg v es)
      else file_version (flush_object pg v es) rep (e_base (hd es)) v (e_version (hd es))
             (copies_of v es) (older_than v es))"

section \<open>Finishing an object\<close>

lemma counters_class:
  assumes "counters st cur"
  shows "classify_object st = object_class (ck_pg st) (replicated st) cur"
  using assms by (auto simp: classify_object_def object_class_def counters_def Let_def filter_empty_conv)

lemma segment_split:
  assumes "segment xs i j = ds @ es" "i \<le> j" "j \<le> length xs"
  shows "segment xs i (i + length ds) = ds" "segment xs (i + length ds) j = es"
proof -
  have l: "j = i + length ds + length es"
    using arg_cong [where f = length, OF assms(1)] assms(2,3) by (simp add: segment_def)
  have "take (length ds) (drop i (take j xs)) = ds" "drop (length ds) (drop i (take j xs)) = es"
    using assms(1) by (simp_all add: segment_def)
  then show "segment xs i (i + length ds) = ds" "segment xs (i + length ds) j = es"
    by (simp_all add: segment_def l drop_take add.commute min_def)
qed

text \<open>When the chosen version has been fixed, the positions delimit its copies.\<close>

lemma chosen_segments:
  assumes "segment xs i j = ds" "i \<le> j" "j \<le> length xs" "versions_desc ds"
    and "vs = i + length (newer_than v ds)" "ve = vs + length (copies_of v ds)"
  shows "segment xs vs ve = copies_of v ds" "segment xs ve j = older_than v ds"
proof -
  have sp: "segment xs i j = newer_than v ds @ copies_of v ds @ older_than v ds"
    using versions_split [OF assms(4), of v] assms(1) by simp
  note 1 = segment_split(2) [OF sp assms(2,3)]
  have "length xs \<ge> j" "vs \<le> j"
    using assms(3,5) arg_cong [where f = length, OF sp] assms(2) by (simp_all add: segment_def)
  from segment_split [OF 1 [folded assms(5)] this(2,1)] show
    "segment xs vs ve = copies_of v ds" "segment xs ve j = older_than v ds"
    by (simp_all add: assms(6))
qed

lemma file_object_effect:
  assumes "counters st cur" "segment (ck_list st) (ver_start st) (ver_end st) = cur"
    "segment (ck_list st) (ver_end st) (obj_end st) = old" "ver_end st \<le> obj_end st" "obj_end st \<le> length (ck_list st)"
  shows "map_option ck_pg (file_object st) =
    file_version (ck_pg st) (replicated st) (ck_oid st) (target_ver st) (max_ver st) cur old"
proof -
  obtain state flag where c: "object_class (ck_pg st) (replicated st) cur = (state, flag)"
    by (rule prod.exhaust)
  have old: "old = [] \<longleftrightarrow> ver_end st = obj_end st"
    using assms(3-5) by (auto simp: segment_def)
  show ?thesis
  proof (cases "state = 0 \<and> old = []")
    case True
    then show ?thesis
      using c old assms
      by (simp add: file_object_def file_version_def counters_class [OF assms(1)] Let_def)
  next
    case False
    then have ne: "state \<noteq> 0 \<or> ver_end st < obj_end st"
      using old assms(4) by auto
    let ?r = "add_outdated (cur_set (ck_pg st)) old (map (e_loc 0) cur, state, pg_state (ck_pg st) OR flag)"
    show ?thesis
    proof (cases ?r)
      case None
      then show ?thesis
        using c ne assms(2,3)
        by (simp add: file_object_def file_version_def counters_class [OF assms(1)] Let_def)
    next
      case (Some r)
      obtain osd_set state' pgstate where r: "r = (osd_set, state', pgstate)"
        by (rule prod_cases3)
      show ?thesis
        using c ne assms(2,3) Some r
        by (simp add: file_object_def file_version_def counters_class [OF assms(1)] Let_def option.map_ident)
    qed
  qed
qed

lemma roles_of_cong: "pg_size pg' = pg_size pg \<Longrightarrow> roles_of pg' rep cur = roles_of pg rep cur"
  by (simp add: roles_of_def entry_valid_def)

lemma file_object_frame:
  assumes "file_object st = Some st'"
  shows "st' = st\<lparr>ck_pg := ck_pg st', ck_osd_set := ck_osd_set st'\<rparr>"
proof -
  obtain pg osd_set where "st' = st\<lparr>ck_pg := pg, ck_osd_set := osd_set\<rparr>"
    using assms unfolding file_object_def Let_def case_prod_beta bind_eq_Some_conv option.inject
    by blast
  then show ?thesis by simp
qed

text \<open>The state the code files an object from: the version is settled, the flush actions are recorded.\<close>

definition settled :: "check \<Rightarrow> check" where
  "settled st = (if target_ver st = 0 \<and> version_good st
     then st\<lparr>target_ver := last_ver st, ver_end := list_pos st\<rparr> else st)\<lparr>obj_end := list_pos st\<rparr>"

lemma finish_object_settled:
  "finish_object st =
     (let s = settled st; pg = ck_pg s; ds = segment (ck_list s) (obj_start s) (obj_end s);
          s' = (if n_unstable s > 0
                then s\<lparr>ck_pg := pg\<lparr>pg_state := pg_state pg OR PG_HAS_UNCLEAN, flush_actions :=
                   flush_pieces (target_ver s) (object_pieces (target_ver s) ds) (flush_actions pg)\<rparr>\<rparr> else s)
      in if n_invalid s > 0
         then Some (s\<lparr>ck_pg := pg\<lparr>pg_state := pg_state pg OR PG_HAS_INVALID, total_count := total_count pg + 1\<rparr>\<rparr>)
         else if target_ver s = 0 then Some s' else file_object s')"
  by (simp add: finish_object_def settled_def set_pg_def Let_def)

lemma settled_frame [simp]:
  "ck_pg (settled st) = ck_pg st" "replicated (settled st) = replicated st" "ck_list (settled st) = ck_list st"
  "list_pos (settled st) = list_pos st" "obj_start (settled st) = obj_start st" "obj_end (settled st) = list_pos st"
  "ck_oid (settled st) = ck_oid st" "max_ver (settled st) = max_ver st" "n_unstable (settled st) = n_unstable st"
  "n_invalid (settled st) = n_invalid st" "ver_start (settled st) = ver_start st"
  "counters (settled st) cur = counters st cur"
  by (simp_all add: settled_def counters_def)

lemma finish_object_frame:
  assumes "finish_object st = Some st'"
  shows "replicated st' = replicated st \<and> ck_list st' = ck_list st \<and> list_pos st' = list_pos st \<and> ck_oid st' = ck_oid st"
proof -
  have fr: "file_object s = Some st' \<Longrightarrow> replicated st' = replicated s \<and> ck_list st' = ck_list s \<and>
      list_pos st' = list_pos s \<and> ck_oid st' = ck_oid s" for s
    by (drule file_object_frame, erule ssubst) simp
  from assms show ?thesis
    unfolding finish_object_settled Let_def by (auto split: if_splits dest!: fr)
qed

text \<open>The settled version is the kept one, and positions and counters belong to it.\<close>

lemma settled_version:
  assumes "check_wf st" "in_object st ds" "list_pos st = obj_start st + length ds"
  shows "target_ver (settled st) = kept_version (ck_pg st) (replicated st) ds"
    and "n_invalid st > 0 \<longleftrightarrow> has_invalid (ck_pg st) (replicated st) ds"
    and "target_ver (settled st) \<noteq> 0 \<Longrightarrow> counters st (copies_of (target_ver (settled st)) ds) \<and>
      ver_start st = obj_start st + length (newer_than (target_ver (settled st)) ds) \<and>
      ver_end (settled st) = ver_start st + length (copies_of (target_ver (settled st)) ds)"
proof -
  let ?pg = "ck_pg st" and ?rep = "replicated st"
  consider (chosen) "target_ver st \<noteq> 0" | (good) "target_ver st = 0" "version_good st"
    | (none) "target_ver st = 0" "\<not> version_good st" by blast
  then have "target_ver (settled st) = kept_version ?pg ?rep ds \<and>
      (n_invalid st > 0 \<longleftrightarrow> has_invalid ?pg ?rep ds) \<and>
      (target_ver (settled st) \<noteq> 0 \<longrightarrow> counters st (copies_of (target_ver (settled st)) ds) \<and>
        ver_start st = obj_start st + length (newer_than (target_ver (settled st)) ds) \<and>
        ver_end (settled st) = ver_start st + length (copies_of (target_ver (settled st)) ds))"
  proof cases
    case chosen
    note ds = in_object_chosen [OF assms(2) chosen]
    have kv: "kept_version ?pg ?rep ds = target_ver st"
      using ds(8,11) assms(1)
      by (intro kept_version_eq) (auto simp: check_wf_def pg_wf_def intro: version_kept_ok_in)
    then show ?thesis
      using chosen ds(4,9,10,12)
      by (auto simp: settled_def has_invalid_def filter_empty_conv length_greater_0_conv)
  next
    case good
    note ds = in_object_counting [OF assms(2) good(1)]
    have ok: "version_kept_ok ?pg ?rep ds (last_ver st)"
      using good(2) version_good_iff [OF ds(4)] by simp
    have kv: "kept_version ?pg ?rep ds = last_ver st"
      using ds(8) ok assms(1)
      by (intro kept_version_eq) (auto simp: check_wf_def pg_wf_def intro: version_kept_ok_in)
    then show ?thesis
      using good ds(4,9,10) assms(3) last_version_split [OF ds(2,1,3)]
      by (auto simp: settled_def has_invalid_def filter_empty_conv length_greater_0_conv)
  next
    case none
    note ds = in_object_counting [OF assms(2) none(1)]
    have "\<not> version_kept_ok ?pg ?rep ds w" if "w \<in> e_version ` set ds" for w
      using ds(3,8) that all_ge_last [OF ds(2)] none(2) version_good_iff [OF ds(4)]
      by (metis image_iff order_le_less)
    then have kv: "kept_version ?pg ?rep ds = 0"
      by (rule kept_version_none)
    moreover have "last_ver st \<le> e_version e" if "e \<in> set ds" for e
      using all_ge_last [OF ds(2) that] ds(3) by simp
    ultimately show ?thesis
      using none ds(9)
      by (auto simp: settled_def has_invalid_def filter_empty_conv length_greater_0_conv)
  qed
  then show "target_ver (settled st) = kept_version ?pg ?rep ds"
    "n_invalid st > 0 \<longleftrightarrow> has_invalid ?pg ?rep ds"
    "target_ver (settled st) \<noteq> 0 \<Longrightarrow> counters st (copies_of (target_ver (settled st)) ds) \<and>
      ver_start st = obj_start st + length (newer_than (target_ver (settled st)) ds) \<and>
      ver_end (settled st) = ver_start st + length (copies_of (target_ver (settled st)) ds)"
    by blast+
qed

lemma object_base_newest:
  assumes "in_object st ds"
  shows "e_base (hd ds) = ck_oid st" "max_ver st = e_version (hd ds)"
    "n_unstable st > 0 \<longleftrightarrow> (\<exists>e \<in> set ds. \<not> e_stable e)" "versions_desc ds" "ds \<noteq> []"
  using assms unfolding in_object_def Let_def by (auto simp: filter_empty_conv length_greater_0_conv)

lemma counters_pg:
  assumes "pg_size pg' = pg_size (ck_pg st)" "cur_set pg' = cur_set (ck_pg st)"
  shows "counters (st\<lparr>ck_pg := pg'\<rparr>) cur = counters st cur"
proof -
  have "entry_valid pg' = entry_valid (ck_pg st)" "entry_mismatched pg' = entry_mismatched (ck_pg st)"
    using assms by (simp_all add: fun_eq_iff entry_valid_def entry_mismatched_def)
  then show ?thesis
    by (simp add: counters_def Let_def roles_of_cong [OF assms(1)])
qed

lemma finish_object_effect:
  assumes wf: "check_wf st" and inv: "in_object st ds" and seg: "segment (ck_list st) (obj_start st) (list_pos st) = ds"
    and pos: "list_pos st = obj_start st + length ds" "list_pos st \<le> length (ck_list st)"
  shows "map_option ck_pg (finish_object st) = object_effect (ck_pg st) (replicated st) ds"
proof -
  let ?s = "settled st" and ?pg = "ck_pg st" and ?rep = "replicated st"
  let ?v = "kept_version ?pg ?rep ds"
  note sv = settled_version [OF wf inv pos(1)] and ob = object_base_newest [OF inv]
  let ?s' = "if n_unstable st > 0
     then ?s\<lparr>ck_pg := ?pg\<lparr>pg_state := pg_state ?pg OR PG_HAS_UNCLEAN, flush_actions :=
        flush_pieces ?v (object_pieces ?v ds) (flush_actions ?pg)\<rparr>\<rparr> else ?s"
  have fin: "finish_object st =
     (if n_invalid st > 0
      then Some (?s\<lparr>ck_pg := ?pg\<lparr>pg_state := pg_state ?pg OR PG_HAS_INVALID, total_count := total_count ?pg + 1\<rparr>\<rparr>)
      else if ?v = 0 then Some ?s' else file_object ?s')"
    unfolding finish_object_settled Let_def settled_frame sv(1) seg ..
  have pg': "ck_pg ?s' = flush_object ?pg ?v ds"
    using ob(3) by (simp add: flush_object_def)
  consider "n_invalid st > 0" | "n_invalid st = 0" "?v = 0" | "n_invalid st = 0" "?v \<noteq> 0" by blast
  then show ?thesis
  proof cases
    case 1
    then show ?thesis using fin sv(2) by (simp add: object_effect_def Let_def)
  next
    case 2
    have "map_option ck_pg (finish_object st) = Some (ck_pg ?s')"
      using 2 fin by simp
    then show ?thesis using 2 sv(2) pg' by (simp add: object_effect_def Let_def)
  next
    case 3
    have c: "counters st (copies_of ?v ds)" "ver_start st = obj_start st + length (newer_than ?v ds)"
      "ver_end ?s = ver_start st + length (copies_of ?v ds)"
      using sv(3) 3(2) unfolding sv(1) by blast+
    have le: "obj_start st \<le> list_pos st" "ver_end ?s \<le> list_pos st"
      using pos c(2,3) arg_cong [where f = length, OF versions_split [OF ob(4), of ?v]] by simp_all
    note segs = chosen_segments [OF seg le(1) pos(2) ob(4) c(2,3)]
    have "counters ?s' (copies_of ?v ds)"
      using c(1) by (simp add: counters_pg)
    then have "map_option ck_pg (file_object ?s') = file_version (ck_pg ?s') (replicated ?s') (ck_oid ?s')
        (target_ver ?s') (max_ver ?s') (copies_of ?v ds) (older_than ?v ds)"
      by (rule file_object_effect) (use segs le pos(2) in simp_all)
    moreover have "replicated ?s' = ?rep" "ck_oid ?s' = e_base (hd ds)" "target_ver ?s' = ?v"
      "max_ver ?s' = e_version (hd ds)"
      using ob(1,2) sv(1) by simp_all
    ultimately show ?thesis
      using 3 fin sv(2) pg' by (simp add: object_effect_def Let_def)
  qed
qed

section \<open>The walk over all objects\<close>

text \<open>The entries of one object are next to each other.\<close>

function object_groups :: "obj_ver_role list \<Rightarrow> obj_ver_role list list" where
  "object_groups [] = []"
| "object_groups (e # es) =
     (e # takeWhile (\<lambda>f. e_base f = e_base e) es) # object_groups (dropWhile (\<lambda>f. e_base f = e_base e) es)"
  by pat_completeness auto
termination
  by (relation "measure length") (auto simp: le_imp_less_Suc length_dropWhile_le)

primrec objects_effect :: "bool \<Rightarrow> obj_ver_role list list \<Rightarrow> pg \<Rightarrow> pg option" where
  "objects_effect rep [] pg = Some pg"
| "objects_effect rep (g # gs) pg = Option.bind (object_effect pg rep g) (objects_effect rep gs)"

text \<open>Objects do not change the configuration of their group.\<close>

definition same_config :: "pg \<Rightarrow> pg \<Rightarrow> bool" where
  "same_config pg pg' \<longleftrightarrow> pg_scheme pg' = pg_scheme pg \<and> pg_cursize pg' = pg_cursize pg \<and>
     pg_size pg' = pg_size pg \<and> pg_data_size pg' = pg_data_size pg \<and> pg_epoch pg' = pg_epoch pg \<and>
     all_peers pg' = all_peers pg \<and> cur_peers pg' = cur_peers pg \<and> cur_set pg' = cur_set pg"

text \<open>What filing an object in a non-clean state does: an entry of \<open>state_dict\<close> is created or counted, and
  the object goes into one of the four object maps.\<close>

lemma add_object_to_state_cases:
  assumes "add_object_to_state o_id state osd_set pg = Some pg'"
  obtains s where
    "pg' = in_state_map state o_id osd_set (pg\<lparr>state_dict := (state_dict pg)(osd_set \<mapsto> s)\<rparr>)"
    "object_count s = (case state_dict pg osd_set of None \<Rightarrow> 1 | Some s0 \<Rightarrow> object_count s0 + 1)"
proof (cases "state_dict pg osd_set")
  case None
  with assms obtain rt where "calc_read_target pg osd_set = Some rt"
    by (cases "calc_read_target pg osd_set") (simp_all add: add_object_to_state_def)
  with None assms show ?thesis
    by (intro that [of "\<lparr>read_target = rt, ss_osd_set = osd_set, ss_state = state, object_count = 1\<rparr>"])
      (simp_all add: add_object_to_state_def)
next
  case (Some s0)
  with assms show ?thesis
    by (intro that [of "s0\<lparr>object_count := object_count s0 + 1\<rparr>"]) (simp_all add: add_object_to_state_def)
qed

lemma add_object_config: "add_object_to_state o_id s os pg = Some pg' \<Longrightarrow> same_config pg pg'"
  by (erule add_object_to_state_cases) (simp add: same_config_def in_state_map_def)

lemma same_config_trans: "same_config a b \<Longrightarrow> same_config b c \<Longrightarrow> same_config a c"
  by (simp add: same_config_def)

lemma file_version_config: "file_version pg rep o_id v n cur old = Some pg' \<Longrightarrow> same_config pg pg'"
  unfolding file_version_def Let_def case_prod_beta bind_eq_Some_conv
  by (auto simp: same_config_def split: if_splits dest!: add_object_config)

lemma flush_object_config: "same_config pg (flush_object pg v es)"
  by (simp add: flush_object_def same_config_def)

lemma object_effect_config:
  assumes "object_effect pg rep es = Some pg'"
  shows "same_config pg pg'"
proof (cases "has_invalid pg rep es \<or> kept_version pg rep es = 0")
  case True
  then show ?thesis
    using assms flush_object_config [of pg 0 es]
    by (auto simp: object_effect_def Let_def same_config_def split: if_splits)
next
  case False
  then show ?thesis
    using assms same_config_trans [OF flush_object_config file_version_config]
    by (simp add: object_effect_def Let_def)
qed

lemma same_config_wf: "same_config pg pg' \<Longrightarrow> pg_wf pg \<Longrightarrow> pg_wf pg'"
  by (simp add: same_config_def pg_wf_def)

lemma finish_object_check_wf:
  assumes "check_wf st" "in_object st ds" "segment (ck_list st) (obj_start st) (list_pos st) = ds"
    "list_pos st = obj_start st + length ds" "list_pos st \<le> length (ck_list st)"
    and "finish_object st = Some st'"
  shows "check_wf st'"
proof -
  have "object_effect (ck_pg st) (replicated st) ds = Some (ck_pg st')"
    using finish_object_effect [OF assms(1-5)] assms(6) by simp
  then have "same_config (ck_pg st) (ck_pg st')"
    by (rule object_effect_config)
  then show ?thesis
    using assms(1) finish_object_frame [OF assms(6)] same_config_wf
    by (auto simp: check_wf_def same_config_def)
qed

text \<open>The lists the walk is made for: real inodes and versions, and newer versions of an object first.\<close>

definition walk_list :: "obj_ver_role list \<Rightarrow> bool" where
  "walk_list es \<longleftrightarrow> (\<forall>e \<in> set es. inode (e_oid e) \<noteq> 0 \<and> e_version e \<noteq> 0) \<and>
     sorted_wrt (\<lambda>a b. e_base a = e_base b \<longrightarrow> e_version b \<le> e_version a) es"

definition walk_rest :: "nat \<Rightarrow> check \<Rightarrow> pg option" where
  "walk_rest n st = map_option ck_pg (Option.bind (walk_loop n st)
     (\<lambda>s. if inode (ck_oid s) \<noteq> 0 then finish_object s else Some s))"

lemma segment_snoc:
  "i \<le> j \<Longrightarrow> j < length xs \<Longrightarrow> segment xs i (Suc j) = segment xs i j @ [xs ! j]"
  by (simp add: segment_def take_Suc_conv_app_nth)

lemma segment_self [simp]: "segment xs i i = []"
  by (simp add: segment_def)

lemma in_object_list_pos [simp]: "in_object (st\<lparr>list_pos := n\<rparr>) ds = in_object st ds"
  by (simp add: in_object_def counters_def)

lemma check_wf_list_pos [simp]: "check_wf (st\<lparr>list_pos := n\<rparr>) = check_wf st"
  by (simp add: check_wf_def)

text \<open>Where the walk stands: inside an object whose entries \<open>ds\<close> have been seen.\<close>

definition walking :: "check \<Rightarrow> obj_ver_role list \<Rightarrow> bool" where
  "walking st ds \<longleftrightarrow> check_wf st \<and> in_object st ds \<and> segment (ck_list st) (obj_start st) (list_pos st) = ds \<and>
     list_pos st = obj_start st + length ds \<and> list_pos st \<le> length (ck_list st) \<and> walk_list (ck_list st)"

lemma walking_last:
  assumes "walking st ds" "list_pos st < length (ck_list st)" "e_base (cur_entry st) = ck_oid st"
  shows "e_version (cur_entry st) \<le> e_version (last ds)"
proof -
  let ?xs = "ck_list st" and ?p = "list_pos st"
  have ds: "ds \<noteq> []" "segment ?xs (obj_start st) ?p = ds" "\<forall>d \<in> set ds. e_base d = ck_oid st"
    "?p = obj_start st + length ds"
    using assms(1) by (auto simp: walking_def in_object_def Let_def)
  have "ds = drop (obj_start st) (take ?p ?xs)"
    using ds(2) by (simp add: segment_def)
  then have "last ds = last (take ?p ?xs)"
    using ds(1) by (metis drop_eq_Nil last_drop not_le)
  also have "\<dots> = ?xs ! (?p - 1)"
    using assms(2) ds(1,4) by (subst last_conv_nth) (auto simp: min_def)
  finally have "last ds = ?xs ! (?p - 1)" "0 < ?p"
    using ds(1,4) by auto
  moreover have "last ds \<in> set ds" using ds(1) by simp
  moreover
  have "sorted_wrt (\<lambda>a b. e_base a = e_base b \<longrightarrow> e_version b \<le> e_version a) ?xs"
    using assms(1) by (simp add: walking_def walk_list_def)
  then have "e_base (?xs ! (?p - 1)) = e_base (?xs ! ?p) \<longrightarrow> e_version (?xs ! ?p) \<le> e_version (?xs ! (?p - 1))"
    by (rule sorted_wrt_nth_less) (use assms(2) \<open>0 < ?p\<close> in auto)
  ultimately show ?thesis
    using assms(3) ds(3) by auto
qed

lemma walk_entry_same:
  assumes "walking st ds" "list_pos st < length (ck_list st)" "e = cur_entry st" "e_base e = ck_oid st"
  obtains st' where "walk_entry st = Some st'" "walking st' (ds @ [e])" "ck_pg st' = ck_pg st"
    "replicated st' = replicated st" "ck_oid st' = ck_oid st" "ck_list st' = ck_list st"
    "list_pos st' = Suc (list_pos st)"
proof -
  have w: "check_wf st" "in_object st ds" "list_pos st = obj_start st + length ds" "walk_list (ck_list st)"
    "segment (ck_list st) (obj_start st) (list_pos st) = ds"
    using assms(1) unfolding walking_def by blast+
  have "e_version e \<noteq> 0"
    using w(4) assms(2,3) by (simp add: walk_list_def)
  from handle_version_step [OF w(1,2) assms(3,4) this _ w(3)] walking_last [OF assms(1,2)] assms(3,4)
  obtain st1 where st1: "handle_version st = Some st1" "in_object st1 (ds @ [e])" "same_frame st st1"
    by auto
  let ?st' = "st1\<lparr>list_pos := list_pos st1 + 1\<rparr>"
  have "walk_entry st = Some ?st'"
    using assms(3,4) st1(1) by (simp add: walk_entry_def)
  moreover have "walking ?st' (ds @ [e])"
    using st1 w assms(2,3) check_wf_frame [OF st1(3)] segment_snoc [of "obj_start st" "list_pos st" "ck_list st"]
    by (simp add: walking_def same_frame_def)
  ultimately show ?thesis
    using that [of ?st'] st1(3) by (simp add: same_frame_def)
qed

lemma walk_entry_start:
  assumes "check_wf st" "walk_list (ck_list st)" "list_pos st < length (ck_list st)" "e = cur_entry st"
  obtains st' where "Option.bind (handle_version (start_object st)) (\<lambda>st. Some (st\<lparr>list_pos := list_pos st + 1\<rparr>)) = Some st'"
    "walking st' [e]" "ck_pg st' = ck_pg st" "replicated st' = replicated st" "ck_oid st' = e_base e"
    "ck_list st' = ck_list st" "list_pos st' = Suc (list_pos st)"
proof -
  have "e_version e \<noteq> 0"
    using assms(2,3,4) by (simp add: walk_list_def)
  from handle_version_first [OF assms(1,4) this]
  obtain st1 where st1: "handle_version (start_object st) = Some st1" "in_object st1 [e]"
    "same_frame (start_object st) st1" by blast
  have fr: "ck_pg st1 = ck_pg st" "replicated st1 = replicated st" "ck_list st1 = ck_list st"
    "list_pos st1 = list_pos st" "obj_start st1 = list_pos st" "ck_oid st1 = e_base e"
    using st1(3) assms(4) by (simp_all add: same_frame_def start_object_def Let_def)
  let ?st' = "st1\<lparr>list_pos := list_pos st1 + 1\<rparr>"
  have "walking ?st' [e]"
    using st1(2) fr assms segment_snoc [of "list_pos st" "list_pos st" "ck_list st"]
    by (simp add: walking_def check_wf_def)
  then show ?thesis
    using that [of ?st'] st1(1) fr by simp
qed

lemma walking_effect:
  assumes "walking st ds"
  shows "map_option ck_pg (finish_object st) = object_effect (ck_pg st) (replicated st) ds"
  using assms finish_object_effect unfolding walking_def by blast

lemma walking_inode: "walking st ds \<Longrightarrow> inode (ck_oid st) \<noteq> 0"
proof -
  assume w: "walking st ds"
  then have "hd ds \<in> set ds" "set ds \<subseteq> set (ck_list st)" "e_base (hd ds) = ck_oid st"
    by (auto simp: walking_def in_object_def Let_def segment_def dest!: in_set_dropD in_set_takeD)
  moreover have "\<forall>e \<in> set (ck_list st). inode (e_oid e) \<noteq> 0"
    using w by (simp add: walking_def walk_list_def)
  moreover have "inode (e_base (hd ds)) = inode (e_oid (hd ds))"
    by (simp add: e_base_def)
  ultimately show ?thesis
    by auto
qed

text \<open>The rest of the walk, with entries \<open>es\<close> to come.\<close>

lemma walk_rest_effect:
  assumes "walking st ds" "drop (list_pos st) (ck_list st) = es"
  shows "walk_rest (length es) st =
    Option.bind (object_effect (ck_pg st) (replicated st) (ds @ takeWhile (\<lambda>e. e_base e = ck_oid st) es))
      (objects_effect (replicated st) (object_groups (dropWhile (\<lambda>e. e_base e = ck_oid st) es)))"
  using assms
proof (induction es arbitrary: st ds)
  case Nil
  show ?case
    using walking_effect [OF Nil(1)] walking_inode [OF Nil(1)]
    by (simp add: walk_rest_def split: Option.bind_split)
next
  case (Cons e es)
  have pos: "list_pos st < length (ck_list st)"
    using Cons.prems(2) by (metis drop_all list.distinct(1) not_le)
  then have e: "e = cur_entry st" and es: "drop (Suc (list_pos st)) (ck_list st) = es"
    using Cons.prems(2) by (simp_all add: Cons_nth_drop_Suc [symmetric])
  show ?case
  proof (cases "e_base e = ck_oid st")
    case True
    obtain st' where st': "walk_entry st = Some st'" "walking st' (ds @ [e])" "ck_pg st' = ck_pg st"
      "replicated st' = replicated st" "ck_oid st' = ck_oid st" "ck_list st' = ck_list st"
      "list_pos st' = Suc (list_pos st)"
      by (rule walk_entry_same [OF Cons.prems(1) pos e True]) (rule that)
    have "walk_rest (length (e # es)) st = walk_rest (length es) st'"
      using st'(1) by (simp add: walk_rest_def)
    then show ?thesis
      using Cons.IH [OF st'(2)] st'(3-) es True by simp
  next
    case False
    have fe: "map_option ck_pg (finish_object st) = object_effect (ck_pg st) (replicated st) ds"
      using walking_effect [OF Cons.prems(1)] .
    have entry: "walk_entry st = Option.bind (finish_object st) (\<lambda>s.
        Option.bind (handle_version (start_object s)) (\<lambda>s. Some (s\<lparr>list_pos := list_pos s + 1\<rparr>)))"
      using False e walking_inode [OF Cons.prems(1)] by (simp add: walk_entry_def)
    show ?thesis
    proof (cases "finish_object st")
      case None
      then show ?thesis
        using entry fe False by (simp add: walk_rest_def)
    next
      case (Some s)
      have s: "replicated s = replicated st" "ck_list s = ck_list st" "list_pos s = list_pos st" "check_wf s"
        using finish_object_frame [OF Some] finish_object_check_wf [OF _ _ _ _ _ Some] Cons.prems(1)
        by (auto simp: walking_def)
      have "walk_list (ck_list s)" "list_pos s < length (ck_list s)" "e = cur_entry s"
        using s pos e Cons.prems(1) by (simp_all add: walking_def)
      from walk_entry_start [OF s(4) this]
      obtain st' where st': "Option.bind (handle_version (start_object s))
          (\<lambda>s. Some (s\<lparr>list_pos := list_pos s + 1\<rparr>)) = Some st'"
        "walking st' [e]" "ck_pg st' = ck_pg s" "replicated st' = replicated s" "ck_oid st' = e_base e"
        "ck_list st' = ck_list s" "list_pos st' = Suc (list_pos s)" by blast
      have "walk_rest (length (e # es)) st = walk_rest (length es) st'"
        using st'(1) entry Some by (simp add: walk_rest_def)
      moreover have "object_effect (ck_pg st) (replicated st) ds = Some (ck_pg s)"
        using fe Some by simp
      ultimately show ?thesis
        using Cons.IH [OF st'(2)] st'(3-) s es False by simp
    qed
  qed
qed

lemma walk_effect:
  assumes "pg_wf pg" "walk_list es"
  shows "map_option ck_pg (walk (new_check pg es)) =
    map_option activate (objects_effect (pg_scheme pg = POOL_SCHEME_REPLICATED) (object_groups es)
      (pg\<lparr>clean_count := 0, total_count := 0, pg_state := 0\<rparr>))"
proof -
  let ?pg0 = "pg\<lparr>clean_count := 0, total_count := 0, pg_state := 0\<rparr>"
  let ?st = "new_check ?pg0 es" and ?rep = "pg_scheme pg = POOL_SCHEME_REPLICATED"
  have "(new_check pg es)\<lparr>list_pos := 0, ck_pg := ?pg0\<rparr> = ?st"
    by (simp add: new_check_def)
  then have "map_option ck_pg (walk (new_check pg es)) = map_option activate (walk_rest (length es) ?st)"
    by (simp add: walk_def walk_rest_def set_pg_def new_check_def option.map_comp comp_def map_option_bind)
  also have "walk_rest (length es) ?st = objects_effect ?rep (object_groups es) ?pg0"
  proof (cases es)
    case Nil
    then show ?thesis by (simp add: walk_rest_def new_check_def)
  next
    case (Cons e es')
    have s: "check_wf ?st" "walk_list (ck_list ?st)" "list_pos ?st < length (ck_list ?st)" "e = cur_entry ?st"
      "inode (ck_oid ?st) = 0" "ck_oid ?st \<noteq> e_base e"
      using assms Cons by (auto simp: new_check_def check_wf_def pg_wf_def walk_list_def e_base_def)
    from walk_entry_start [OF s(1-4)]
    obtain st' where st': "Option.bind (handle_version (start_object ?st))
        (\<lambda>s. Some (s\<lparr>list_pos := list_pos s + 1\<rparr>)) = Some st'"
      "walking st' [e]" "ck_pg st' = ck_pg ?st" "replicated st' = replicated ?st" "ck_oid st' = e_base e"
      "ck_list st' = ck_list ?st" "list_pos st' = Suc (list_pos ?st)" by blast
    have "walk_entry ?st = Some st'"
      using s(4-6) st'(1) by (simp add: walk_entry_def)
    then have "walk_rest (length es) ?st = walk_rest (length es') st'"
      by (simp add: walk_rest_def Cons)
    then show ?thesis
      using walk_rest_effect [OF st'(2), of es'] st'(3-) Cons by (simp add: new_check_def)
  qed
  finally show ?thesis .
qed

end
