(* ===== verification/Pg_Peering_Flush.thy ===== *)
theory Pg_Peering_Flush
  imports Pg_Peering_Walk
begin

text \<open>
  Two ingredients of the properties of peering: sorting puts the versions of every object together, the
  newest first, and the flush actions of an object are determined by the newest, the newest stable and
  the newest kept version of each of its copies.
\<close>

section \<open>Sorting\<close>

definition weak_order :: "('a \<Rightarrow> 'a \<Rightarrow> bool) \<Rightarrow> bool" where
  "weak_order lt \<longleftrightarrow> (\<forall>a b. lt a b \<longrightarrow> \<not> lt b a) \<and> (\<forall>a b c. \<not> lt b a \<longrightarrow> \<not> lt c b \<longrightarrow> \<not> lt c a)"

lemma weak_order_key: "weak_order (\<lambda>a b. f a < (f b :: 'b::linorder))"
  by (auto simp: weak_order_def)

lemma weak_orderI:
  "(\<And>a b. lt a b \<Longrightarrow> \<not> lt b a) \<Longrightarrow> (\<And>a b c. \<not> lt b a \<Longrightarrow> \<not> lt c b \<Longrightarrow> \<not> lt c a) \<Longrightarrow> weak_order lt"
  unfolding weak_order_def by blast

lemma weak_orderD:
  "weak_order lt \<Longrightarrow> lt a b \<Longrightarrow> \<not> lt b a"
  "weak_order lt \<Longrightarrow> \<not> lt b a \<Longrightarrow> \<not> lt c b \<Longrightarrow> \<not> lt c a"
  unfolding weak_order_def by blast+

lemma weak_order_lex:
  fixes f :: "'a \<Rightarrow> 'b::linorder"
  assumes "weak_order lt"
  shows "weak_order (\<lambda>a b. f a < f b \<or> f a = f b \<and> lt a b)"
    and "weak_order (\<lambda>a b. f b < f a \<or> f a = f b \<and> lt a b)"
proof -
  show "weak_order (\<lambda>a b. f a < f b \<or> f a = f b \<and> lt a b)"
  proof (rule weak_orderI)
    fix a b c
    assume *: "\<not> (f b < f a \<or> f b = f a \<and> lt b a)" "\<not> (f c < f b \<or> f c = f b \<and> lt c b)"
    then have "f a \<le> f b" "f b \<le> f c" by auto
    then consider "f a < f c" | "f a = f b" "f b = f c" by fastforce
    then show "\<not> (f c < f a \<or> f c = f a \<and> lt c a)"
      using * weak_orderD(2) [OF assms, of b a c] by cases auto
  qed (auto dest: weak_orderD(1) [OF assms])
  show "weak_order (\<lambda>a b. f b < f a \<or> f a = f b \<and> lt a b)"
  proof (rule weak_orderI)
    fix a b c
    assume *: "\<not> (f a < f b \<or> f b = f a \<and> lt b a)" "\<not> (f b < f c \<or> f c = f b \<and> lt c b)"
    then have "f b \<le> f a" "f c \<le> f b" by auto
    then consider "f c < f a" | "f a = f b" "f b = f c" by fastforce
    then show "\<not> (f a < f c \<or> f c = f a \<and> lt c a)"
      using * weak_orderD(2) [OF assms, of b a c] by cases auto
  qed (auto dest: weak_orderD(1) [OF assms])
qed

lemma obj_ver_role_lt_order: "weak_order obj_ver_role_lt"
proof -
  have eq: "obj_ver_role_lt = (\<lambda>a b. inode (e_oid a) < inode (e_oid b) \<or> inode (e_oid a) = inode (e_oid b) \<and>
    (e_stripe a < e_stripe b \<or> e_stripe a = e_stripe b \<and> (e_version b < e_version a \<or>
     e_version a = e_version b \<and> (stripe (e_oid a) < stripe (e_oid b) \<or>
       stripe (e_oid a) = stripe (e_oid b) \<and> e_osd a < e_osd b))))"
    by (simp add: fun_eq_iff obj_ver_role_lt_def)
  show ?thesis
    by (subst eq) (intro weak_order_lex weak_order_key)
qed

lemma sorted_entries: "sorted_wrt (\<lambda>a b. \<not> obj_ver_role_lt b a) (sort_by obj_ver_role_lt es)"
  using obj_ver_role_lt_order unfolding weak_order_def by (intro sort_by_sorted) blast+

lemma sorted_walk_list:
  assumes "\<forall>e \<in> set es. inode (e_oid e) \<noteq> 0 \<and> e_version e \<noteq> 0"
  shows "walk_list (sort_by obj_ver_role_lt es)"
proof -
  have "sorted_wrt (\<lambda>a b. e_base a = e_base b \<longrightarrow> e_version b \<le> e_version a) (sort_by obj_ver_role_lt es)"
    by (rule sorted_wrt_mono_rel [OF _ sorted_entries])
      (auto simp: obj_ver_role_lt_def e_base_def not_less)
  with assms show ?thesis
    by (simp add: walk_list_def)
qed

section \<open>Objects\<close>

text \<open>In a sorted list the groups are the entries of the objects, each object once.\<close>

definition base_sorted :: "obj_ver_role list \<Rightarrow> bool" where
  "base_sorted es \<longleftrightarrow> sorted_wrt (\<lambda>a b. e_base a \<le> e_base b) es"

lemma sorted_base_sorted: "base_sorted (sort_by obj_ver_role_lt es)"
  unfolding base_sorted_def
  by (rule sorted_wrt_mono_rel [OF _ sorted_entries])
    (auto simp: obj_ver_role_lt_def e_base_def not_less less_eq_object_id_def object_id_lt_def
      simp del: object_id_lt_less)

lemma base_sorted_split:
  assumes "base_sorted (e # es)"
  shows "takeWhile (\<lambda>f. e_base f = e_base e) es = filter (\<lambda>f. e_base f = e_base e) es"
    and "dropWhile (\<lambda>f. e_base f = e_base e) es = filter (\<lambda>f. e_base f \<noteq> e_base e) es"
proof -
  have "takeWhile (\<lambda>f. e_base f = e_base e) es = filter (\<lambda>f. e_base f = e_base e) es \<and>
      dropWhile (\<lambda>f. e_base f = e_base e) es = filter (\<lambda>f. e_base f \<noteq> e_base e) es"
    using assms
  proof (induction es)
    case (Cons f fs)
    show ?case
    proof (cases "e_base f = e_base e")
      case True
      then show ?thesis using Cons by (simp add: base_sorted_def)
    next
      case False
      have "e_base g \<noteq> e_base e" if "g \<in> set fs" for g
        using False Cons.prems that by (auto simp: base_sorted_def dest!: bspec [of _ _ g])
      then have "filter (\<lambda>f. e_base f = e_base e) fs = []" "filter (\<lambda>f. e_base f \<noteq> e_base e) fs = fs"
        by (simp_all add: filter_empty_conv filter_id_conv)
      with False show ?thesis by simp
    qed
  qed simp
  then show "takeWhile (\<lambda>f. e_base f = e_base e) es = filter (\<lambda>f. e_base f = e_base e) es"
    "dropWhile (\<lambda>f. e_base f = e_base e) es = filter (\<lambda>f. e_base f \<noteq> e_base e) es" by simp_all
qed

lemma base_sorted_filter: "base_sorted es \<Longrightarrow> base_sorted (filter P es)"
  by (simp add: base_sorted_def sorted_wrt_filter)

text \<open>The objects of a list in order.\<close>

definition objects_of :: "obj_ver_role list \<Rightarrow> object_id list" where
  "objects_of es = map (\<lambda>g. e_base (hd g)) (object_groups es)"

definition entries_of :: "object_id \<Rightarrow> obj_ver_role list \<Rightarrow> obj_ver_role list" where
  "entries_of b es = filter (\<lambda>e. e_base e = b) es"

lemma object_groups_sorted:
  "base_sorted es \<Longrightarrow> object_groups es = map (\<lambda>b. entries_of b es) (objects_of es) \<and>
     distinct (objects_of es) \<and> set (objects_of es) = e_base ` set es"
proof (induction es rule: object_groups.induct)
  case (2 e es)
  let ?rest = "filter (\<lambda>f. e_base f \<noteq> e_base e) es"
  have sp: "object_groups (e # es) = entries_of (e_base e) (e # es) # object_groups ?rest"
    using base_sorted_split [OF 2(2)] by (simp add: entries_of_def)
  have IH: "object_groups ?rest = map (\<lambda>b. entries_of b ?rest) (objects_of ?rest)"
    "distinct (objects_of ?rest)" "set (objects_of ?rest) = e_base ` set ?rest"
    using 2 base_sorted_split(2) [OF 2(2)] base_sorted_filter [of es] by (auto simp: base_sorted_def)
  have ob: "objects_of (e # es) = e_base e # objects_of ?rest"
    using sp by (simp add: objects_of_def entries_of_def)
  have "entries_of b ?rest = entries_of b (e # es)" if "b \<in> set (objects_of ?rest)" for b
    using that IH(3) by (auto simp: entries_of_def intro: filter_cong)
  then show ?case
    using sp IH ob by auto
qed (simp add: objects_of_def)

section \<open>Flush actions\<close>

text \<open>The version of the first entry with a property, zero if there is none.\<close>

fun newest :: "(obj_ver_role \<Rightarrow> bool) \<Rightarrow> obj_ver_role list \<Rightarrow> version" where
  "newest P [] = 0"
| "newest P (e # es) = (if P e then e_version e else newest P es)"

lemma newest_ge: "versions_desc es \<Longrightarrow> e \<in> set es \<Longrightarrow> P e \<Longrightarrow> e_version e \<le> newest P es"
  by (induction es) (auto simp: versions_desc_def)

lemma newest_in: "newest P es \<noteq> 0 \<Longrightarrow> \<exists>e \<in> set es. P e \<and> e_version e = newest P es"
  by (induction es) (auto split: if_splits)

lemma newest_mono: "versions_desc es \<Longrightarrow> (\<And>e. e \<in> set es \<Longrightarrow> P e \<Longrightarrow> Q e) \<Longrightarrow> newest P es \<le> newest Q es"
  by (metis newest_ge newest_in word_zero_le)

lemma fold_piece_see:
  "\<forall>e \<in> set es. e_version e \<noteq> 0 \<Longrightarrow> fold (piece_see v) es p =
     \<lparr>pv_max_ver = (if pv_max_ver p = 0 then newest (\<lambda>_. True) es else pv_max_ver p),
      pv_stable_ver = (if pv_stable_ver p = 0 then newest e_stable es else pv_stable_ver p),
      pv_max_target = (if pv_max_target p = 0 then newest (\<lambda>e. e_version e \<le> v) es else pv_max_target p)\<rparr>"
  by (induction es arbitrary: p) (simp_all add: piece_see_def Let_def)

lemma hmap_modify_get:
  "map_of (hmap_modify k f d m) k' =
     (if k' = k then Some (f (case map_of m k of None \<Rightarrow> d | Some v \<Rightarrow> v)) else map_of m k')"
  by (induction m) auto

lemma hmap_modify_keys: "fst ` set (hmap_modify k f d m) = insert k (fst ` set m)"
  by (induction m) auto

lemma hmap_modify_distinct: "distinct (map fst m) \<Longrightarrow> distinct (map fst (hmap_modify k f d m))"
proof (induction m)
  case (Cons p m)
  then show ?case
    using hmap_modify_keys [of k f d m] by (auto simp: image_iff)
qed simp

lemma object_pieces_fold:
  "map_of (fold (\<lambda>e. hmap_modify (e_piece e) (piece_see v e) empty_piece) es m) k =
     (let P = filter (\<lambda>e. e_piece e = k) es in
      if P = [] then map_of m k
      else Some (fold (piece_see v) P (case map_of m k of None \<Rightarrow> empty_piece | Some p \<Rightarrow> p)))"
  by (induction es arbitrary: m) (auto simp: hmap_modify_get Let_def)

lemma object_pieces_distinct: "distinct (map fst (object_pieces v es))"
proof -
  have "distinct (map fst m) \<Longrightarrow>
      distinct (map fst (fold (\<lambda>e. hmap_modify (e_piece e) (piece_see v e) empty_piece) es m))" for m
    by (induction es arbitrary: m) (auto simp: hmap_modify_distinct)
  then show ?thesis by (simp add: object_pieces_def)
qed

lemma flush_pieces_get:
  "distinct (map fst ps) \<Longrightarrow> flush_pieces v ps acts k =
     (case map_of ps k of
        None \<Rightarrow> acts k
      | Some pcs \<Rightarrow> if pv_stable_ver pcs < pv_max_ver pcs
                   then Some (flush_piece v pcs (case acts k of None \<Rightarrow> no_action | Some a \<Rightarrow> a))
                   else acts k)"
proof (induction ps arbitrary: acts)
  case (Cons p ps)
  obtain k' pcs where p: "p = (k', pcs)" by (rule prod.exhaust)
  have "map_of ps k' = None"
    using Cons.prems p by (auto simp: map_of_eq_None_iff)
  then show ?case
    using Cons p by (auto simp: flush_pieces_def split: option.split)
qed (simp add: flush_pieces_def)

text \<open>The action for the copies \<open>P\<close> of an object on one OSD when version \<open>v\<close> is kept.\<close>

definition piece_action :: "version \<Rightarrow> obj_ver_role list \<Rightarrow> flush_action option" where
  "piece_action v P =
     (let top = newest (\<lambda>_. True) P; stab = newest e_stable P; keep = newest (\<lambda>e. e_version e \<le> v) P;
          goal = (if top > v then keep else top)
      in if stab = top then None
         else Some \<lparr>act_rollback = (top > v), make_stable = (stab < goal),
                   stable_to = (if stab < goal then goal else 0), rollback_to = (if top > v then keep else 0)\<rparr>)"

lemma flush_pieces_action:
  assumes "versions_desc es" "\<forall>e \<in> set es. e_version e \<noteq> 0" "acts k = None"
  shows "flush_pieces v (object_pieces v es) acts k = piece_action v (filter (\<lambda>e. e_piece e = k) es)"
proof -
  let ?P = "filter (\<lambda>e. e_piece e = k) es"
  have P: "versions_desc ?P" "\<forall>e \<in> set ?P. e_version e \<noteq> 0"
    using assms(1,2) by (auto simp: versions_desc_def sorted_wrt_filter)
  have le: "newest e_stable ?P \<le> newest (\<lambda>_. True) ?P"
    using P(1) by (rule newest_mono) simp
  have m: "map_of (object_pieces v es) k = (if ?P = [] then None else Some (fold (piece_see v) ?P empty_piece))"
    by (simp add: object_pieces_def object_pieces_fold Let_def)
  show ?thesis
  proof (cases "?P = []")
    case True
    then show ?thesis
      using m assms(3) by (simp only: flush_pieces_get [OF object_pieces_distinct]) (simp add: piece_action_def)
  next
    case False
    have "newest e_stable ?P = newest (\<lambda>_. True) ?P \<or> newest e_stable ?P < newest (\<lambda>_. True) ?P"
      using le by auto
    then show ?thesis
      using False m assms(3) P(2)
      by (elim disjE) (simp_all add: flush_pieces_get [OF object_pieces_distinct] fold_piece_see
          empty_piece_def piece_action_def flush_piece_def no_action_def Let_def)
  qed
qed

lemma all_stable_no_action: "\<forall>e \<in> set P. e_stable e \<Longrightarrow> piece_action v P = None"
proof -
  assume "\<forall>e \<in> set P. e_stable e"
  then have "newest e_stable P = newest (\<lambda>_. True) P" by (induction P) auto
  then show ?thesis by (simp add: piece_action_def)
qed

text \<open>Whether a version is kept depends on the configuration and the set of entries only.\<close>

definition same_sizes :: "pg \<Rightarrow> pg \<Rightarrow> bool" where
  "same_sizes pg pg' \<longleftrightarrow> pg_size pg' = pg_size pg \<and> pg_data_size pg' = pg_data_size pg"

lemma same_config_sizes: "same_config pg pg' \<Longrightarrow> same_sizes pg pg'"
  by (simp add: same_config_def same_sizes_def)

lemma entry_valid_sizes: "same_sizes pg pg' \<Longrightarrow> entry_valid pg' = entry_valid pg"
  by (simp add: fun_eq_iff entry_valid_def same_sizes_def)

lemma version_kept_ok_sizes: "same_sizes pg pg' \<Longrightarrow> version_kept_ok pg' = version_kept_ok pg"
  by (simp add: fun_eq_iff version_kept_ok_def roles_of_def entry_valid_sizes) (simp add: same_sizes_def)

lemma kept_version_sizes: "same_sizes pg pg' \<Longrightarrow> kept_version pg' = kept_version pg"
  by (simp add: fun_eq_iff kept_version_def version_kept_ok_sizes)

lemma has_invalid_sizes: "same_sizes pg pg' \<Longrightarrow> has_invalid pg' = has_invalid pg"
  by (simp add: fun_eq_iff has_invalid_def entry_valid_sizes kept_version_sizes)

lemma kept_version_ge:
  assumes "e \<in> set es" "entry_valid pg rep e" "e_stable e"
  shows "e_version e \<le> kept_version pg rep es"
proof -
  let ?vs = "filter (version_kept_ok pg rep es) (map e_version es)"
  have "version_kept_ok pg rep es (e_version e)"
    using assms by (auto simp: version_kept_ok_def)
  then have v: "e_version e \<in> set ?vs" using assms(1) by simp
  then obtain w ws where ws: "?vs = w # ws" by (cases ?vs) auto
  then have "kept_version pg rep es = Max (set ?vs)"
    by (simp add: kept_version_def)
  then show ?thesis
    using v by simp
qed

text \<open>The version kept is the newest one that is stable somewhere or has enough parts.\<close>

lemma kept_version_char:
  assumes "0 < pg_data_size pg" "\<forall>e \<in> set es. e_version e \<noteq> 0"
  shows "if \<exists>v. version_kept_ok pg rep es v
    then version_kept_ok pg rep es (kept_version pg rep es) \<and>
      (\<forall>w. version_kept_ok pg rep es w \<longrightarrow> w \<le> kept_version pg rep es) \<and>
      kept_version pg rep es \<in> e_version ` set es
    else kept_version pg rep es = 0"
proof (cases "\<exists>v. version_kept_ok pg rep es v")
  case True
  let ?K = "{v. version_kept_ok pg rep es v}"
  have K: "finite ?K" "?K \<noteq> {}" "?K \<subseteq> e_version ` set es"
    using True version_kept_ok_in [OF assms(1)] finite_subset [of ?K "e_version ` set es"] by auto
  have "kept_version pg rep es = Max ?K"
    by (rule kept_version_eq) (use K Max_in [OF K(1,2)] Max_ge [OF K(1)] in \<open>auto simp: not_le [symmetric]\<close>)
  then show ?thesis
    using True K Max_in [OF K(1,2)] by auto
next
  case False
  then show ?thesis using kept_version_none by simp
qed

lemma add_object_flush: "add_object_to_state o_id s os pg = Some pg' \<Longrightarrow> flush_actions pg' = flush_actions pg"
  by (erule add_object_to_state_cases) (simp add: in_state_map_def)

lemma file_version_flush: "file_version pg rep o_id v n cur old = Some pg' \<Longrightarrow> flush_actions pg' = flush_actions pg"
  unfolding file_version_def Let_def case_prod_beta bind_eq_Some_conv
  by (auto split: if_splits dest!: add_object_flush)

lemma object_effect_flush:
  assumes "object_effect pg rep es = Some pg'" "versions_desc es" "\<forall>e \<in> set es. e_version e \<noteq> 0"
    "flush_actions pg k = None"
  shows "flush_actions pg' k =
    (if has_invalid pg rep es then None else piece_action (kept_version pg rep es) (filter (\<lambda>e. e_piece e = k) es))"
proof (cases "has_invalid pg rep es")
  case True
  then show ?thesis using assms by (auto simp: object_effect_def Let_def)
next
  case False
  have "flush_actions pg' = flush_actions (flush_object pg (kept_version pg rep es) es)"
    using assms(1) False file_version_flush by (auto simp: object_effect_def Let_def split: if_splits)
  then show ?thesis
    using False flush_pieces_action [OF assms(2,3), of "flush_actions pg" k] assms(4) all_stable_no_action
    by (auto simp: flush_object_def)
qed

lemma object_effect_flush_other:
  assumes "object_effect pg rep es = Some pg'" "\<forall>e \<in> set es. e_piece e \<noteq> k"
  shows "flush_actions pg' k = flush_actions pg k"
proof -
  have "map_of (object_pieces v es) k = None" for v
    using assms(2) by (simp add: object_pieces_def object_pieces_fold Let_def filter_empty_conv)
  then have "flush_actions (flush_object pg v es) k = flush_actions pg k" for v
    by (simp add: flush_object_def flush_pieces_get [OF object_pieces_distinct])
  then show ?thesis
    using assms(1) file_version_flush by (auto simp: object_effect_def Let_def split: if_splits)
qed

definition piece_base :: "obj_piece_id \<Rightarrow> object_id" where
  "piece_base k = Object_id (inode (piece_oid k)) (stripe (piece_oid k) AND NOT STRIPE_MASK)"

lemma e_piece_base: "e_piece e = k \<Longrightarrow> e_base e = piece_base k"
  by (auto simp: e_piece_def piece_base_def e_base_def e_stripe_def)

lemma objects_effect_config: "objects_effect rep gs pg = Some pg' \<Longrightarrow> same_config pg pg'"
proof (induction gs arbitrary: pg)
  case (Cons g gs)
  then obtain pg1 where "object_effect pg rep g = Some pg1" "objects_effect rep gs pg1 = Some pg'"
    by (auto simp: bind_eq_Some_conv)
  then show ?case
    using Cons.IH object_effect_config same_config_trans by blast
qed (simp add: same_config_def)

lemma objects_effect_flush_other:
  "objects_effect rep (map (\<lambda>b. entries_of b es) bs) pg = Some pg' \<Longrightarrow> piece_base k \<notin> set bs \<Longrightarrow>
   flush_actions pg' k = flush_actions pg k"
proof (induction bs arbitrary: pg)
  case (Cons b bs)
  then obtain pg1 where 1: "object_effect pg rep (entries_of b es) = Some pg1"
    "objects_effect rep (map (\<lambda>b. entries_of b es) bs) pg1 = Some pg'"
    by (auto simp: bind_eq_Some_conv)
  have "\<forall>e \<in> set (entries_of b es). e_piece e \<noteq> k"
    using Cons.prems(2) e_piece_base by (auto simp: entries_of_def)
  then show ?case
    using object_effect_flush_other [OF 1(1)] Cons.IH [OF 1(2)] Cons.prems(2) by simp
qed simp

lemma entries_of_desc: "walk_list es \<Longrightarrow> versions_desc (entries_of b es)"
proof (induction es)
  case (Cons e es)
  then show ?case
    by (auto simp: walk_list_def versions_desc_def entries_of_def)
qed (simp add: entries_of_def versions_desc_def)

lemma objects_effect_flush:
  assumes "walk_list es" "objects_effect rep (map (\<lambda>b. entries_of b es) bs) pg = Some pg'" "distinct bs"
    "piece_base k \<in> set bs" "flush_actions pg k = None"
  shows "flush_actions pg' k =
    (let E = entries_of (piece_base k) es in
     if has_invalid pg rep E then None
     else piece_action (kept_version pg rep E) (filter (\<lambda>e. e_piece e = k) E))"
  using assms(2-)
proof (induction bs arbitrary: pg)
  case (Cons b bs)
  then obtain pg1 where 1: "object_effect pg rep (entries_of b es) = Some pg1"
    "objects_effect rep (map (\<lambda>b. entries_of b es) bs) pg1 = Some pg'"
    by (auto simp: bind_eq_Some_conv)
  have nz: "\<forall>e \<in> set (entries_of b es). e_version e \<noteq> 0"
    using assms(1) by (simp add: walk_list_def entries_of_def)
  show ?case
  proof (cases "b = piece_base k")
    case True
    then show ?thesis
      using object_effect_flush [OF 1(1) entries_of_desc [OF assms(1)] nz Cons.prems(4)]
        objects_effect_flush_other [OF 1(2)] Cons.prems(2) by (simp add: Let_def)
  next
    case False
    then have "\<forall>e \<in> set (entries_of b es). e_piece e \<noteq> k"
      using e_piece_base by (auto simp: entries_of_def)
    then have "flush_actions pg1 k = None"
      using object_effect_flush_other [OF 1(1)] Cons.prems(4) by simp
    then show ?thesis
      using Cons.IH [OF 1(2)] Cons.prems(2,3) False
        same_config_sizes [OF object_effect_config [OF 1(1)]]
      by (simp add: has_invalid_sizes kept_version_sizes Let_def)
  qed
qed simp

end
