(* ===== verification/Pg_Peering_Props.thy ===== *)
theory Pg_Peering_Props
  imports Pg_Peering_Flush
begin

text \<open>
  Properties of peering as a whole: it equals the reference account on the sorted lists of all peers;
  flush actions never discard a stable version and cover every unstable one; the counts and the object
  maps agree with the fate of every object; the state flags and the epoch of the group follow from the lists.
\<close>

section \<open>Counts and flags\<close>

lemma add_outdated_state:
  assumes "add_outdated cur old (os, s, ps) = Some (os', s', ps')"
    "s = 0 \<or> s = OBJ_INCOMPLETE \<or> s = OBJ_DEGRADED \<or> s = OBJ_MISPLACED"
  shows "s' = s \<and> ps' = ps \<or> (s = 0 \<or> s = OBJ_MISPLACED) \<and> s' = OBJ_MISPLACED \<and> ps' = ps OR PG_HAS_MISPLACED"
  using assms
proof (induction old arbitrary: os s ps)
  case (Cons e old)
  let ?skip = "add_outdated cur old (os, s, ps) = Some (os', s', ps')"
  let ?bad = "s AND (OBJ_INCOMPLETE OR OBJ_DEGRADED) = 0"
  have bad: "?bad \<longleftrightarrow> s = 0 \<or> s = OBJ_MISPLACED"
    using Cons.prems(2) by (auto simp: obj_state_defs)
  consider "?skip"
    | "add_outdated cur old (os @ [e_loc LOC_OUTDATED e], if ?bad then (s OR OBJ_MISPLACED, ps OR PG_HAS_MISPLACED)
         else (s, ps)) = Some (os', s', ps')"
    using Cons.prems(1) by (auto simp: bind_eq_Some_conv split: if_splits)
  then show ?case
  proof cases
    case 1
    then show ?thesis using Cons.IH Cons.prems(2) by blast
  next
    case 2
    show ?thesis
    proof (cases ?bad)
      case True
      then have "s OR OBJ_MISPLACED = OBJ_MISPLACED"
        using bad by auto
      then have "add_outdated cur old (os @ [e_loc LOC_OUTDATED e], OBJ_MISPLACED, ps OR PG_HAS_MISPLACED)
          = Some (os', s', ps')"
        using 2 True by simp
      from Cons.IH [OF this] show ?thesis
        using True bad by (auto simp: or.assoc)
    next
      case False
      then show ?thesis using 2 Cons.IH Cons.prems(2) by simp
    qed
  qed
qed simp

text \<open>The three flags and the three maps of objects agree, and every counted object is in one place.\<close>

text \<open>A copy of an older version that is neither on an OSD with the kept version nor in its own place.\<close>

definition outdated_copy :: "pg \<Rightarrow> osd_num set \<Rightarrow> obj_ver_role \<Rightarrow> bool" where
  "outdated_copy pg osds e \<longleftrightarrow> e_osd e \<notin> osds \<and> vec_at (cur_set pg) (e_role e) \<noteq> Some (e_osd e)"

lemma add_outdated_result:
  assumes "add_outdated (cur_set pg) old (os, s, ps) = Some (os', s', ps')"
    "s = 0 \<or> s = OBJ_INCOMPLETE \<or> s = OBJ_DEGRADED \<or> s = OBJ_MISPLACED"
  shows "s' = (if s = 0 \<and> (\<exists>e \<in> set old. outdated_copy pg (loc_osd ` set os) e) then OBJ_MISPLACED else s)"
  using assms
proof (induction old arbitrary: os s ps)
  case (Cons e old)
  let ?bad = "s AND (OBJ_INCOMPLETE OR OBJ_DEGRADED) = 0"
  have bad: "?bad \<longleftrightarrow> s = 0 \<or> s = OBJ_MISPLACED"
    using Cons.prems(2) by (auto simp: obj_state_defs)
  have mis: "OBJ_MISPLACED \<noteq> 0" "OBJ_INCOMPLETE \<noteq> 0" "OBJ_DEGRADED \<noteq> 0" by (simp_all add: obj_state_defs)
  show ?case
  proof (cases "\<exists>l \<in> set os. loc_osd l = e_osd e")
    case True
    then have "\<not> outdated_copy pg (loc_osd ` set os) e" by (force simp: outdated_copy_def)
    moreover have "add_outdated (cur_set pg) old (os, s, ps) = Some (os', s', ps')" using Cons.prems(1) True by simp
    ultimately show ?thesis using Cons.IH Cons.prems(2) by auto
  next
    case new: False
    obtain c where c: "vec_at (cur_set pg) (e_role e) = Some c" using Cons.prems(1) new by (auto simp: bind_eq_Some_conv)
    show ?thesis
    proof (cases "c = e_osd e")
      case True
      then have "\<not> outdated_copy pg (loc_osd ` set os) e" using c by (simp add: outdated_copy_def)
      moreover have "add_outdated (cur_set pg) old (os, s, ps) = Some (os', s', ps')"
        using Cons.prems(1) new c True by simp
      ultimately show ?thesis using Cons.IH Cons.prems(2) by auto
    next
      case False
      then have o: "outdated_copy pg (loc_osd ` set os) e" using c new by (auto simp: outdated_copy_def)
      have run: "add_outdated (cur_set pg) old (os @ [e_loc LOC_OUTDATED e], if ?bad then (s OR OBJ_MISPLACED, ps OR PG_HAS_MISPLACED)
          else (s, ps)) = Some (os', s', ps')"
        using Cons.prems(1) new c False by simp
      show ?thesis
      proof (cases ?bad)
        case True
        then have "s OR OBJ_MISPLACED = OBJ_MISPLACED" using bad by auto
        then have "s' = OBJ_MISPLACED" using Cons.IH [of _ OBJ_MISPLACED] run True mis by simp
        then show ?thesis using True bad o by auto
      next
        case False
        then have "s' = s" using Cons.IH [of _ s] run Cons.prems(2) bad by simp
        then show ?thesis using False bad by simp
      qed
    qed
  qed
qed simp

definition state_flag :: "u32 \<Rightarrow> nat" where
  "state_flag s = (if s = OBJ_INCOMPLETE then 8 else if s = OBJ_DEGRADED then 9 else 10)"

definition filed :: "pg \<Rightarrow> u32 \<Rightarrow> object_id set" where
  "filed pg s = (if s = OBJ_INCOMPLETE then dom (incomplete_objects pg)
     else if s = OBJ_DEGRADED then dom (degraded_objects pg) else dom (misplaced_objects pg))"

definition nonclean :: "u32 \<Rightarrow> bool" where
  "nonclean s \<longleftrightarrow> s = OBJ_INCOMPLETE \<or> s = OBJ_DEGRADED \<or> s = OBJ_MISPLACED"

lemma nonclean_flags:
  "nonclean OBJ_INCOMPLETE \<and> PG_HAS_INCOMPLETE = 2 ^ state_flag OBJ_INCOMPLETE"
  "nonclean OBJ_DEGRADED \<and> PG_HAS_DEGRADED = 2 ^ state_flag OBJ_DEGRADED"
  "nonclean OBJ_MISPLACED \<and> PG_HAS_MISPLACED = 2 ^ state_flag OBJ_MISPLACED"
  by (simp_all add: state_flag_def pg_state_defs obj_state_defs nonclean_def)

lemmas misplaced_flag = nonclean_flags(3) [THEN conjunct2] nonclean_flags(3) [THEN conjunct1]

lemma object_class_cases:
  "object_class pg rep cur = (0, 0) \<or>
   (\<exists>s. nonclean s \<and> object_class pg rep cur = (s, 2 ^ state_flag s))"
proof -
  have "object_class pg rep cur = (0, 0) \<or> object_class pg rep cur = (OBJ_INCOMPLETE, PG_HAS_INCOMPLETE) \<or>
      object_class pg rep cur = (OBJ_DEGRADED, PG_HAS_DEGRADED) \<or>
      object_class pg rep cur = (OBJ_MISPLACED, PG_HAS_MISPLACED)"
    unfolding object_class_def Let_def by meson
  then show ?thesis
    using nonclean_flags by (elim disjE) (simp_all only:, blast+)
qed

lemma outdated_class:
  assumes "object_class pg rep cur = (s, flag)" "add_outdated cs old (os, s, w OR flag) = Some (os', s', ps)"
  shows "s' = 0 \<and> ps = w \<or> nonclean s' \<and> ps = w OR 2 ^ state_flag s'"
proof -
  consider (none) "s = 0" "flag = 0" | (some) "nonclean s" "flag = 2 ^ state_flag s"
    using object_class_cases [of pg rep cur] unfolding assms(1) prod.inject by blast
  then show ?thesis
  proof cases
    case none
    have "s' = s \<and> ps = w OR flag \<or> s' = OBJ_MISPLACED \<and> ps = (w OR flag) OR PG_HAS_MISPLACED"
      using add_outdated_state [OF assms(2) disjI1 [OF none(1)]] by blast
    moreover have "w OR flag = w"
      unfolding none(2) by (rule or.right_neutral)
    ultimately show ?thesis
      using misplaced_flag(2) unfolding misplaced_flag(1) none(1) by (elim disjE) simp_all
  next
    case some
    then have d: "s = 0 \<or> s = OBJ_INCOMPLETE \<or> s = OBJ_DEGRADED \<or> s = OBJ_MISPLACED" and nz: "s \<noteq> 0"
      by (auto simp: nonclean_def obj_state_defs)
    from add_outdated_state [OF assms(2) d] show ?thesis
    proof (elim disjE conjE)
      assume "s' = s" "ps = w OR flag"
      then show ?thesis using some by simp
    next
      assume "s = OBJ_MISPLACED" "s' = OBJ_MISPLACED" "ps = (w OR flag) OR PG_HAS_MISPLACED"
      then show ?thesis
        using some misplaced_flag(1) by (simp only: or.assoc or.idem) simp
    qed (use nz in simp)
  qed
qed

lemma filed_frame [simp]:
  "filed (pg\<lparr>clean_count := k\<rparr>) = filed pg" "filed (pg\<lparr>state_dict := d\<rparr>) = filed pg"
  "filed (pg\<lparr>pg_state := w\<rparr>) = filed pg" "filed (pg\<lparr>total_count := k\<rparr>) = filed pg"
  "filed (pg\<lparr>ver_override := vo\<rparr>) = filed pg" "filed (pg\<lparr>flush_actions := fa\<rparr>) = filed pg"
  by (simp_all add: filed_def fun_eq_iff)

lemma filed_in_state_map:
  "nonclean s \<Longrightarrow> nonclean s' \<Longrightarrow>
   filed (in_state_map s o_id os pg) s' = (if s' = s then insert o_id (filed pg s') else filed pg s')"
  unfolding nonclean_def by (elim disjE) (simp_all add: in_state_map_def filed_def obj_state_defs)

lemma in_state_map_frame [simp]:
  "total_count (in_state_map s o_id os pg) = total_count pg" "clean_count (in_state_map s o_id os pg) = clean_count pg"
  "pg_state (in_state_map s o_id os pg) = pg_state pg"
  by (simp_all add: in_state_map_def)

text \<open>The state of an object with a kept version: its copies \<open>cur\<close>, the older ones \<open>old\<close>.\<close>

definition version_state :: "pg \<Rightarrow> bool \<Rightarrow> obj_ver_role list \<Rightarrow> obj_ver_role list \<Rightarrow> u32" where
  "version_state pg rep cur old =
     (let roles = card (roles_of pg rep cur) in
      if \<not> rep \<and> roles < pg_data_size pg then OBJ_INCOMPLETE
      else if (if rep then length cur else roles) < pg_cursize pg then OBJ_DEGRADED
      else if (\<exists>e \<in> set cur. entry_valid pg rep e \<and> entry_mismatched pg rep e) \<or>
        (\<exists>e \<in> set old. outdated_copy pg (e_osd ` set cur) e) then OBJ_MISPLACED
      else 0)"

lemma version_state_result:
  assumes "object_class pg rep cur = (s, flag)"
    "add_outdated (cur_set pg) old (map (e_loc 0) cur, s, w) = Some (os, s', ps)"
  shows "s' = version_state pg rep cur old"
proof -
  have "loc_osd ` set (map (e_loc 0) cur) = e_osd ` set cur" by (force simp: e_loc_def)
  moreover have "s = 0 \<or> s = OBJ_INCOMPLETE \<or> s = OBJ_DEGRADED \<or> s = OBJ_MISPLACED"
    using assms(1) by (auto simp: object_class_def Let_def split: if_splits)
  ultimately have s': "s' = (if s = 0 \<and> (\<exists>e \<in> set old. outdated_copy pg (e_osd ` set cur) e) then OBJ_MISPLACED else s)"
    using add_outdated_result [OF assms(2)] by simp
  define A B C where "A \<longleftrightarrow> \<not> rep \<and> card (roles_of pg rep cur) < pg_data_size pg"
    and "B \<longleftrightarrow> (if rep then length cur else card (roles_of pg rep cur)) < pg_cursize pg"
    and "C \<longleftrightarrow> (\<exists>e \<in> set cur. entry_valid pg rep e \<and> entry_mismatched pg rep e)"
  have "s = (if A then OBJ_INCOMPLETE else if B then OBJ_DEGRADED else if C then OBJ_MISPLACED else 0)"
    using assms(1) unfolding object_class_def Let_def A_def [symmetric] B_def [symmetric] C_def [symmetric]
    by (cases A; cases B; cases C) simp_all
  then show ?thesis
    unfolding s' version_state_def Let_def A_def [symmetric] B_def [symmetric] C_def [symmetric]
    by (cases A; cases B; cases C) (simp_all add: obj_state_defs)
qed

lemma file_version_cases:
  assumes "file_version pg rep o_id v n cur old = Some pg'"
  obtains (clean) "version_state pg rep cur old = 0" "total_count pg' = total_count pg + 1" "clean_count pg' = clean_count pg + 1"
      "filed pg' = filed pg" "pg_state pg' = pg_state pg"
    | (filed) s where "version_state pg rep cur old = s" "nonclean s" "total_count pg' = total_count pg + 1" "clean_count pg' = clean_count pg"
      "\<And>s'. nonclean s' \<Longrightarrow> filed pg' s' = (if s' = s then insert o_id (filed pg s') else filed pg s')"
      "pg_state pg' = pg_state pg OR 2 ^ state_flag s"
proof -
  obtain s flag where c: "object_class pg rep cur = (s, flag)" by (rule prod.exhaust)
  obtain r where "add_outdated (cur_set pg) old (map (e_loc 0) cur, s, pg_state pg OR flag) = Some r"
    using assms c by (auto simp: file_version_def Let_def bind_eq_Some_conv)
  moreover obtain os s' ps where r: "r = (os, s', ps)" by (rule prod_cases3)
  ultimately have ao: "add_outdated (cur_set pg) old (map (e_loc 0) cur, s, pg_state pg OR flag) = Some (os, s', ps)"
    by simp
  have vs: "version_state pg rep cur old = s'" by (rule version_state_result [OF c ao, symmetric])
  let ?pg0 = "pg\<lparr>total_count := total_count pg + 1, pg_state := ps\<rparr>"
  define pg1 where "pg1 = (if v < n then ?pg0\<lparr>ver_override := (ver_override ?pg0)(o_id \<mapsto> v)\<rparr> else ?pg0)"
  have pg1: "total_count pg1 = total_count pg + 1" "clean_count pg1 = clean_count pg" "pg_state pg1 = ps"
    "filed pg1 = filed pg"
    by (simp_all add: pg1_def)
  have res: "(if s' = 0 then Some (pg1\<lparr>clean_count := clean_count pg1 + 1\<rparr>)
      else add_object_to_state o_id s' os pg1) = Some pg'"
    using assms unfolding file_version_def Let_def c prod.case ao Option.bind.bind_lunit pg1_def .
  have st: "s' = 0 \<and> ps = pg_state pg \<or> nonclean s' \<and> ps = pg_state pg OR 2 ^ state_flag s'"
    using c ao by (rule outdated_class)
  show ?thesis
  proof (cases "s' = 0")
    case True
    then have "pg' = pg1\<lparr>clean_count := clean_count pg1 + 1\<rparr>" "ps = pg_state pg"
      using res st by (auto simp: nonclean_def obj_state_defs)
    then show ?thesis
      using pg1 vs True by (intro clean) simp_all
  next
    case False
    then have nc: "nonclean s'" "ps = pg_state pg OR 2 ^ state_flag s'" using st by auto
    obtain d where "pg' = in_state_map s' o_id os (pg1\<lparr>state_dict := (state_dict pg1)(os \<mapsto> d)\<rparr>)"
      using False res by (auto elim: add_object_to_state_cases)
    then show ?thesis
      using nc pg1 vs by (intro filed [of s']) (simp_all add: filed_in_state_map)
  qed
qed

text \<open>What becomes of an object: it has invalid copies, no version of it can be kept, or it has a state (0 is clean).\<close>

datatype fate = Invalid | Gone | State u32

definition object_fate :: "pg \<Rightarrow> bool \<Rightarrow> obj_ver_role list \<Rightarrow> fate" where
  "object_fate pg rep es =
     (let v = kept_version pg rep es in
      if has_invalid pg rep es then Invalid else if v = 0 then Gone
      else State (version_state pg rep (copies_of v es) (older_than v es)))"

lemma version_state_cong:
  assumes "pg_size pg' = pg_size pg" "pg_data_size pg' = pg_data_size pg" "pg_cursize pg' = pg_cursize pg" "cur_set pg' = cur_set pg"
  shows "version_state pg' = version_state pg"
  unfolding version_state_def roles_of_def entry_valid_def entry_mismatched_def outdated_copy_def assms ..

lemma object_fate_cong:
  assumes "pg_size pg' = pg_size pg" "pg_data_size pg' = pg_data_size pg" "pg_cursize pg' = pg_cursize pg" "cur_set pg' = cur_set pg"
  shows "object_fate pg' = object_fate pg"
proof -
  have sz: "same_sizes pg pg'" using assms by (simp add: same_sizes_def)
  show ?thesis
    unfolding object_fate_def version_state_cong [OF assms] kept_version_sizes [OF sz] has_invalid_sizes [OF sz] ..
qed

lemma object_fate_config: "same_config pg pg' \<Longrightarrow> object_fate pg' = object_fate pg"
  by (rule object_fate_cong) (simp_all add: same_config_def)

text \<open>The group accounts for the objects of a set according to their fates.\<close>

definition counted :: "pg \<Rightarrow> (object_id \<Rightarrow> fate) \<Rightarrow> object_id set \<Rightarrow> bool" where
  "counted pg f S \<longleftrightarrow> finite S \<and>
     (\<forall>s. nonclean s \<longrightarrow> filed pg s = {b \<in> S. f b = State s} \<and> (bit (pg_state pg) (state_flag s) \<longleftrightarrow> filed pg s \<noteq> {})) \<and>
     clean_count pg = card {b \<in> S. f b = State 0} \<and> total_count pg = card {b \<in> S. f b \<noteq> Gone} \<and>
     (bit (pg_state pg) 12 \<longleftrightarrow> (\<exists>b \<in> S. f b = Invalid)) \<and> \<not> bit (pg_state pg) 3"

lemma card_insert_fate:
  assumes "finite S" "o_id \<notin> S"
  shows "card {b \<in> insert o_id S. P b} = card {b \<in> S. P b} + (if P o_id then 1 else 0)"
proof -
  have "{b \<in> insert o_id S. P b} = (if P o_id then insert o_id {b \<in> S. P b} else {b \<in> S. P b})" by auto
  then show ?thesis using assms by simp
qed

lemma nonclean_set: "{s. nonclean s} = {OBJ_INCOMPLETE, OBJ_DEGRADED, OBJ_MISPLACED}"
  by (auto simp: nonclean_def)

lemma nonclean_finite [simp]: "finite {s. nonclean s}"
  by (simp add: nonclean_set)

lemma state_flag_inj: "nonclean s \<Longrightarrow> nonclean s' \<Longrightarrow> state_flag s = state_flag s' \<longleftrightarrow> s = s'"
  by (auto simp: nonclean_def state_flag_def obj_state_defs)

lemma state_flag_bound: "state_flag s < 32" "state_flag s \<noteq> 12" "state_flag s \<noteq> 3" "state_flag s \<noteq> 11"
  by (simp_all add: state_flag_def)

lemma nonclean_nonzero: "nonclean s \<Longrightarrow> s \<noteq> 0"
  by (auto simp: nonclean_def obj_state_defs)

lemma counted_filed:
  assumes "counted pg f S" "o_id \<notin> S" "f o_id = State s" "nonclean s" "total_count pg' = total_count pg + 1"
    "clean_count pg' = clean_count pg" "pg_state pg' = pg_state pg OR 2 ^ state_flag s"
    "\<And>s'. nonclean s' \<Longrightarrow> filed pg' s' = (if s' = s then insert o_id (filed pg s') else filed pg s')"
  shows "counted pg' f (insert o_id S)"
proof -
  have fin: "finite S" using assms(1) by (simp add: counted_def)
  have bits: "bit (pg_state pg') i \<longleftrightarrow> bit (pg_state pg) i \<or> i = state_flag s" for i
    using assms(7) state_flag_bound(1) by (simp add: bit_or_single_iff)
  have "filed pg' t = {b \<in> insert o_id S. f b = State t} \<and> (bit (pg_state pg') (state_flag t) \<longleftrightarrow> filed pg' t \<noteq> {})"
    if "nonclean t" for t
    using assms(1,3) that state_flag_inj [OF that assms(4)] unfolding assms(8) [OF that] bits by (auto simp: counted_def)
  moreover have "0 \<noteq> s" using nonclean_nonzero [OF assms(4)] by simp
  ultimately show ?thesis
    using assms(1,3,5,6) fin state_flag_bound(2,3) [of s]
    unfolding counted_def card_insert_fate [OF fin assms(2)] by (auto simp: bits)
qed

lemma counted_plain:
  assumes "counted pg f S" "o_id \<notin> S" "f o_id = State 0 \<or> f o_id = Gone" "filed pg' = filed pg" "pg_state pg' = pg_state pg"
    "total_count pg' = total_count pg + (if f o_id = Gone then 0 else 1)"
    "clean_count pg' = clean_count pg + (if f o_id = Gone then 0 else 1)"
  shows "counted pg' f (insert o_id S)"
proof -
  have fin: "finite S" using assms(1) by (simp add: counted_def)
  have "{b \<in> insert o_id S. f b = State t} = {b \<in> S. f b = State t}" if "nonclean t" for t
    using assms(3) nonclean_nonzero [OF that] by auto
  then show ?thesis
    using assms(1,3-7) fin unfolding counted_def card_insert_fate [OF fin assms(2)] by auto
qed

lemma counted_invalid:
  assumes "counted pg f S" "o_id \<notin> S" "f o_id = Invalid"
  shows "counted (pg\<lparr>pg_state := pg_state pg OR PG_HAS_INVALID, total_count := total_count pg + 1\<rparr>) f (insert o_id S)"
proof -
  have fin: "finite S" using assms(1) by (simp add: counted_def)
  have "{b \<in> insert o_id S. f b = State t} = {b \<in> S. f b = State t}" for t
    using assms(3) by auto
  then show ?thesis
    using assms(1,3) fin state_flag_bound(2,3) unfolding counted_def card_insert_fate [OF fin assms(2)]
    by (auto simp: bit_or_pg_flags)
qed

lemma counted_flush: "counted (flush_object pg v es) f S = counted pg f S"
proof -
  have "bit (pg_state (flush_object pg v es)) i \<longleftrightarrow>
      bit (pg_state pg) i \<or> i = 11 \<and> (\<exists>e \<in> set es. \<not> e_stable e)" for i
    by (auto simp: flush_object_def bit_or_pg_flags)
  moreover have "filed (flush_object pg v es) = filed pg" "total_count (flush_object pg v es) = total_count pg"
    "clean_count (flush_object pg v es) = clean_count pg"
    by (simp_all add: flush_object_def)
  ultimately show ?thesis
    using state_flag_bound(4) by (simp add: counted_def)
qed

lemma object_effect_counted:
  assumes "counted pg f S" "o_id \<notin> S" "object_effect pg rep es = Some pg'" "e_base (hd es) = o_id" "f o_id = object_fate pg rep es"
  shows "counted pg' f (insert o_id S)"
proof (cases "has_invalid pg rep es")
  case True
  then have "pg' = pg\<lparr>pg_state := pg_state pg OR PG_HAS_INVALID, total_count := total_count pg + 1\<rparr>" "f o_id = Invalid"
    using assms(3,5) by (simp_all add: object_effect_def object_fate_def Let_def)
  then show ?thesis using counted_invalid [OF assms(1,2)] by simp
next
  case False
  let ?v = "kept_version pg rep es" and ?pg = "flush_object pg (kept_version pg rep es) es"
  have c: "counted ?pg f S" using assms(1) counted_flush by blast
  show ?thesis
  proof (cases "?v = 0")
    case True
    then have "f o_id = Gone" "pg' = ?pg"
      using assms(3,5) False by (simp_all add: object_effect_def object_fate_def Let_def)
    then show ?thesis using counted_plain [OF c assms(2)] by simp
  next
    case v: False
    have "version_state ?pg = version_state pg"
      by (rule version_state_cong) (simp_all add: flush_object_def)
    then have f: "f o_id = State (version_state ?pg rep (copies_of ?v es) (older_than ?v es))"
      using assms(5) False v by (simp add: object_fate_def Let_def)
    have "file_version ?pg rep o_id ?v (e_version (hd es)) (copies_of ?v es) (older_than ?v es) = Some pg'"
      using assms(3,4) False v by (simp add: object_effect_def Let_def)
    then show ?thesis
    proof (cases rule: file_version_cases)
      case clean
      then show ?thesis using counted_plain [OF c assms(2), of pg'] f by simp
    next
      case (filed s)
      then show ?thesis using counted_filed [OF c assms(2), of s pg'] f by simp
    qed
  qed
qed

lemma entries_of_base: "entries_of b es \<noteq> [] \<Longrightarrow> e_base (hd (entries_of b es)) = b"
  using hd_in_set [of "entries_of b es"] by (auto simp: entries_of_def)

lemma objects_effect_counted:
  assumes "objects_effect rep (map (\<lambda>b. entries_of b es) bs) pg = Some pg'" "counted pg f S" "distinct bs"
    "set bs \<inter> S = {}" "set bs \<subseteq> e_base ` set es" "\<And>b. b \<in> set bs \<Longrightarrow> f b = object_fate pg rep (entries_of b es)"
  shows "counted pg' f (S \<union> set bs)"
  using assms
proof (induction bs arbitrary: pg S)
  case (Cons b bs)
  then obtain pg1 where 1: "object_effect pg rep (entries_of b es) = Some pg1"
    "objects_effect rep (map (\<lambda>b. entries_of b es) bs) pg1 = Some pg'"
    by (auto simp: bind_eq_Some_conv)
  have "entries_of b es \<noteq> []"
    using Cons.prems(5) by (auto simp: entries_of_def filter_empty_conv)
  then have base: "e_base (hd (entries_of b es)) = b" by (rule entries_of_base)
  have "counted pg1 f (insert b S)"
    using object_effect_counted [OF Cons.prems(2) _ 1(1) base] Cons.prems(4,6) by simp
  from Cons.IH [OF 1(2) this] Cons.prems(3-6)
  show ?case
    by (simp add: object_fate_config [OF object_effect_config [OF 1(1)]])
qed simp

section \<open>Properties\<close>

text \<open>The sorted list of the versions of all peers, and the entries of one object in it.\<close>

abbreviation peered_entries :: "(osd_num \<times> pg_list_result) list \<Rightarrow> obj_ver_role list" where
  "peered_entries lr \<equiv> sort_by obj_ver_role_lt (all_entries lr)"

definition lists_ok :: "(osd_num \<times> pg_list_result) list \<Rightarrow> bool" where
  "lists_ok lr \<longleftrightarrow> (\<forall>e \<in> set (all_entries lr). inode (e_oid e) \<noteq> 0 \<and> e_version e \<noteq> 0)"

abbreviation is_replicated :: "pg \<Rightarrow> bool" where
  "is_replicated pg \<equiv> pg_scheme pg = POOL_SCHEME_REPLICATED"

text \<open>What remains after the objects: activation and the new epoch.\<close>

definition new_epoch :: "pg \<Rightarrow> pg outcome" where
  "new_epoch pg =
     (if pg_state pg \<noteq> PG_ACTIVE
      then if pg_epoch pg = push_bit PG_EPOCH_BITS 1 - 1 then Inl (Assert_failed ''epoch'')
           else Inr (pg\<lparr>pg_epoch := pg_epoch pg + 1\<rparr>)
      else Inr pg)"

abbreviation start_pg :: "(osd_num \<times> pg_list_result) list \<Rightarrow> pg \<Rightarrow> pg" where
  "start_pg lr pg \<equiv> pg\<lparr>pg_epoch := list_epoch (all_entries lr), clean_count := 0, total_count := 0, pg_state := 0\<rparr>"

lemma peered_walk_list: "lists_ok lr \<Longrightarrow> walk_list (peered_entries lr)"
  using sorted_walk_list by (simp add: lists_ok_def)

lemma calc_object_states_effect:
  assumes "pg_wf pg" "lists_ok lr"
  shows "calc_object_states lr pg =
    (case objects_effect (is_replicated pg)
            (map (\<lambda>b. entries_of b (peered_entries lr)) (objects_of (peered_entries lr))) (start_pg lr pg) of
       None \<Rightarrow> Inl (Out_of_bounds ''cur_set'')
     | Some pg' \<Rightarrow> new_epoch (activate pg'))"
proof -
  let ?pg = "pg\<lparr>pg_epoch := list_epoch (all_entries lr)\<rparr>"
  have "pg_wf ?pg" using assms(1) by (simp add: pg_wf_def)
  from walk_effect [OF this peered_walk_list [OF assms(2)]]
    object_groups_sorted [OF sorted_base_sorted, of "all_entries lr"]
  have "map_option ck_pg (walk (new_check ?pg (peered_entries lr))) = map_option activate
      (objects_effect (is_replicated pg)
        (map (\<lambda>b. entries_of b (peered_entries lr)) (objects_of (peered_entries lr))) (start_pg lr pg))"
    by simp
  then show ?thesis
    by (cases "walk (new_check ?pg (peered_entries lr))")
      (auto simp: calc_object_states_def new_epoch_def Let_def map_option_case split: option.splits)
qed

lemma calc_object_states_cases:
  assumes "pg_wf pg" "lists_ok lr" "calc_object_states lr pg = Inr pg'"
  obtains pg1 where "objects_effect (is_replicated pg)
      (map (\<lambda>b. entries_of b (peered_entries lr)) (objects_of (peered_entries lr))) (start_pg lr pg) = Some pg1"
    "new_epoch (activate pg1) = Inr pg'"
  using assms by (auto simp: calc_object_states_effect split: option.splits)

lemma activate_frame [simp]:
  "flush_actions (activate pg) = flush_actions pg" "clean_count (activate pg) = clean_count pg"
  "total_count (activate pg) = total_count pg" "pg_epoch (activate pg) = pg_epoch pg"
  "incomplete_objects (activate pg) = incomplete_objects pg"
  "degraded_objects (activate pg) = degraded_objects pg" "misplaced_objects (activate pg) = misplaced_objects pg"
  "inconsistent_objects (activate pg) = inconsistent_objects pg"
  by (simp_all add: activate_def Let_def)

lemma new_epoch_frame:
  "new_epoch pg = Inr pg' \<Longrightarrow> pg' = pg\<lparr>pg_epoch := pg_epoch pg'\<rparr>"
  by (auto simp: new_epoch_def split: if_splits)

text \<open>A small group: two replicas, one object whose newest version is unstable on the first OSD.\<close>

definition example_pg :: pg where
  "example_pg = \<lparr>pg_state = 0, pg_scheme = POOL_SCHEME_REPLICATED, pg_cursize = 2, pg_size = 2, pg_data_size = 1,
     clean_count = 0, total_count = 0, pg_epoch = 0, all_peers = [1, 2], cur_peers = [1, 2], cur_set = [1, 2],
     state_dict = Map.empty, inconsistent_objects = Map.empty, incomplete_objects = Map.empty,
     degraded_objects = Map.empty, misplaced_objects = Map.empty, flush_actions = Map.empty, ver_override = Map.empty\<rparr>"

definition example_lists :: "(osd_num \<times> pg_list_result) list" where
  "example_lists =
     [(1, \<lparr>lr_buf = [Obj_ver_id (Object_id 1 0) 1, Obj_ver_id (Object_id 1 0) 2], lr_stable_count = 1\<rparr>),
      (2, \<lparr>lr_buf = [Obj_ver_id (Object_id 1 0) 1], lr_stable_count = 1\<rparr>)]"

lemma example_ok: "pg_wf example_pg" "lists_ok example_lists" "flush_actions example_pg = Map.empty"
  "incomplete_objects example_pg = Map.empty" "degraded_objects example_pg = Map.empty"
  "misplaced_objects example_pg = Map.empty"
  by (simp_all add: example_pg_def pg_wf_def lists_ok_def example_lists_def all_entries_def list_entries_def)

lemma example_run:
  obtains pg' where "calc_object_states example_lists example_pg = Inr pg'"
    "flush_actions pg' (Obj_piece_id (Object_id 1 0) 1) =
       Some \<lparr>act_rollback = True, make_stable = False, stable_to = 0, rollback_to = 1\<rparr>"
    "pg_state pg' = PG_ACTIVE OR PG_HAS_UNCLEAN" "total_count pg' = 1"
proof -
  have "case calc_object_states example_lists example_pg of
      Inr pg \<Rightarrow> flush_actions pg (Obj_piece_id (Object_id 1 0) 1) =
        Some \<lparr>act_rollback = True, make_stable = False, stable_to = 0, rollback_to = 1\<rparr> \<and>
        pg_state pg = PG_ACTIVE OR PG_HAS_UNCLEAN \<and> total_count pg = 1
    | Inl e \<Rightarrow> False"
    by code_simp
  then show ?thesis
    using that by (auto split: sum.splits)
qed

text \<open>C1: peering is equal to its reference account: the entries of all peers are grouped by object, every
  object has its effect, given by the newest version that is stable or restorable, in the order of the
  objects, and then the group is activated and its epoch advanced. The one-pass walk with its counters
  and positions reads outside the current OSD set exactly when the reference does.\<close>

theorem calc_object_states_reference:
  assumes "pg_wf pg" "lists_ok lr"
  shows "calc_object_states lr pg =
    (case objects_effect (is_replicated pg)
            (map (\<lambda>b. entries_of b (peered_entries lr)) (objects_of (peered_entries lr))) (start_pg lr pg) of
       None \<Rightarrow> Inl (Out_of_bounds ''cur_set'')
     | Some pg' \<Rightarrow> new_epoch (activate pg'))"
  using assms by (rule calc_object_states_effect)

theorem calc_object_states_reference_witness:
  "pg_wf example_pg \<and> lists_ok example_lists \<and>
   (\<exists>pg'. objects_effect (is_replicated example_pg)
        (map (\<lambda>b. entries_of b (peered_entries example_lists)) (objects_of (peered_entries example_lists)))
        (start_pg example_lists example_pg) = Some pg')"
  by (rule example_run)
    (use example_ok calc_object_states_reference [OF example_ok(1,2)] in \<open>auto split: option.splits\<close>)

lemma piece_entries:
  "filter (\<lambda>e. e_piece e = k) (entries_of (piece_base k) es) = filter (\<lambda>e. e_piece e = k) es"
  using e_piece_base by (auto simp: entries_of_def intro!: filter_cong)

lemma calc_flush_actions:
  assumes "pg_wf pg" "lists_ok lr" "flush_actions pg = Map.empty" "calc_object_states lr pg = Inr pg'"
  shows "flush_actions pg' k =
    (let E = entries_of (piece_base k) (peered_entries lr) in
     if has_invalid pg (is_replicated pg) E then None
     else piece_action (kept_version pg (is_replicated pg) E) (filter (\<lambda>e. e_piece e = k) (peered_entries lr)))"
proof -
  let ?es = "peered_entries lr" and ?rep = "is_replicated pg"
  obtain pg1 where pg1: "objects_effect ?rep (map (\<lambda>b. entries_of b ?es) (objects_of ?es)) (start_pg lr pg) = Some pg1"
    "new_epoch (activate pg1) = Inr pg'"
    by (rule calc_object_states_cases [OF assms(1,2,4)])
  have fl: "flush_actions pg' = flush_actions pg1"
    using new_epoch_frame [OF pg1(2)] by (metis activate_frame(1) pg.select_convs(17) pg.surjective pg.update_convs(8))
  have cfg: "has_invalid (start_pg lr pg) = has_invalid pg" "kept_version (start_pg lr pg) = kept_version pg"
    by (intro has_invalid_sizes kept_version_sizes; simp add: same_sizes_def)+
  note ob = object_groups_sorted [OF sorted_base_sorted, of "all_entries lr"]
  show ?thesis
  proof (cases "piece_base k \<in> set (objects_of ?es)")
    case True
    then show ?thesis
      using objects_effect_flush [OF peered_walk_list [OF assms(2)] pg1(1) _ True] ob assms(3) fl
      by (simp add: cfg Let_def piece_entries)
  next
    case False
    then have "\<forall>e \<in> set ?es. e_piece e \<noteq> k"
      using ob e_piece_base by force
    then have "filter (\<lambda>e. e_piece e = k) ?es = []"
      by (simp add: filter_empty_conv)
    then show ?thesis
      using objects_effect_flush_other [OF pg1(1) False] assms(3) fl by (simp add: Let_def piece_action_def)
  qed
qed

lemma peered_piece_desc:
  assumes "lists_ok lr"
  shows "versions_desc (filter (\<lambda>e. e_piece e = k) (peered_entries lr))"
  using entries_of_desc [OF peered_walk_list [OF assms], of "piece_base k"] piece_entries [of k "peered_entries lr"]
  by (metis sorted_wrt_filter versions_desc_def)

lemma piece_action_safe:
  assumes "versions_desc P" "\<forall>e \<in> set P. e_stable e \<longrightarrow> e_version e \<le> v" "piece_action v P = Some act"
  shows "(act_rollback act \<longrightarrow> rollback_to act \<le> v \<and> (\<forall>e \<in> set P. e_stable e \<longrightarrow> e_version e \<le> rollback_to act)) \<and>
    (make_stable act \<longrightarrow> stable_to act \<le> v \<and> (\<exists>e \<in> set P. e_version e = stable_to act))"
proof -
  let ?top = "newest (\<lambda>_. True) P" and ?stab = "newest e_stable P" and ?keep = "newest (\<lambda>e. e_version e \<le> v) P"
  let ?goal = "if ?top > v then ?keep else ?top"
  have "?stab \<noteq> ?top"
    using assms(3) by (auto simp: piece_action_def)
  with assms(3) have "act = \<lparr>act_rollback = (?top > v), make_stable = (?stab < ?goal),
      stable_to = (if ?stab < ?goal then ?goal else 0), rollback_to = (if ?top > v then ?keep else 0)\<rparr>"
    unfolding piece_action_def Let_def by (simp only: if_False option.inject)
  then have act: "act_rollback act = (?top > v)" "make_stable act = (?stab < ?goal)"
    "?stab < ?goal \<Longrightarrow> stable_to act = ?goal" "?top > v \<Longrightarrow> rollback_to act = ?keep"
    by (simp_all only: flush_action.select_convs if_True)
  have ex: "\<exists>e \<in> set P. Q e \<and> e_version e = newest Q P" if "newest Q P \<noteq> 0" for Q
    using that by (rule newest_in)
  have keep: "?keep \<le> v"
  proof (cases "?keep = 0")
    case False
    from ex [OF this] show ?thesis by (elim bexE conjE) (simp only:)
  qed simp
  have "e_version e \<le> ?keep" if "e \<in> set P" "e_stable e" for e
    using newest_ge [OF assms(1) that(1), of "\<lambda>e. e_version e \<le> v"] assms(2) that by simp
  moreover have "\<exists>e \<in> set P. e_version e = ?goal" if "?stab < ?goal"
  proof -
    have "?goal \<noteq> 0"
    proof
      assume "?goal = 0"
      with that show False by simp
    qed
    then show ?thesis
      using ex [of "\<lambda>_. True"] ex [of "\<lambda>e. e_version e \<le> v"] by (cases "?top > v") (simp_all, blast+)
  qed
  moreover have "?goal \<le> v" using keep by (cases "?top > v") simp_all
  ultimately show ?thesis
    using act keep by simp
qed

text \<open>C2: peering never gives up a stable version. When it tells an OSD to roll an object back, the target
  of the rollback is at most the version kept and at least every version that OSD holds as stable; when
  it tells an OSD to make a version stable, that OSD holds the version and it is at most the one kept.\<close>

theorem peering_flush_safe:
  assumes "pg_wf pg" "lists_ok lr" "flush_actions pg = Map.empty" "calc_object_states lr pg = Inr pg'"
    and "flush_actions pg' k = Some act"
  shows "let v = kept_version pg (is_replicated pg) (entries_of (piece_base k) (peered_entries lr));
             P = filter (\<lambda>e. e_piece e = k) (peered_entries lr)
    in (act_rollback act \<longrightarrow> rollback_to act \<le> v \<and> (\<forall>e \<in> set P. e_stable e \<longrightarrow> e_version e \<le> rollback_to act)) \<and>
       (make_stable act \<longrightarrow> stable_to act \<le> v \<and> (\<exists>e \<in> set P. e_version e = stable_to act))"
proof -
  let ?E = "entries_of (piece_base k) (peered_entries lr)" and ?P = "filter (\<lambda>e. e_piece e = k) (peered_entries lr)"
  let ?v = "kept_version pg (is_replicated pg) ?E"
  have inv: "\<not> has_invalid pg (is_replicated pg) ?E" and pa: "piece_action ?v ?P = Some act"
    using calc_flush_actions [OF assms(1-4), of k] assms(5) by (auto simp: Let_def split: if_splits)
  have "e_version e \<le> ?v" if "e \<in> set ?P" "e_stable e" for e
  proof (cases "entry_valid pg (is_replicated pg) e")
    case True
    then show ?thesis
      using kept_version_ge [of e ?E] that e_piece_base by (auto simp: entries_of_def)
  next
    case False
    moreover have "e \<in> set ?E" using that e_piece_base by (auto simp: entries_of_def)
    ultimately show ?thesis using inv by (auto simp: has_invalid_def)
  qed
  then show ?thesis
    unfolding Let_def using piece_action_safe [OF peered_piece_desc [OF assms(2)] _ pa] by blast
qed

theorem peering_flush_safe_witness:
  "\<exists>pg' act. calc_object_states example_lists example_pg = Inr pg' \<and>
     flush_actions pg' (Obj_piece_id (Object_id 1 0) 1) = Some act \<and> act_rollback act \<and> rollback_to act = 1 \<and>
     1 \<le> kept_version example_pg (is_replicated example_pg)
       (entries_of (piece_base (Obj_piece_id (Object_id 1 0) 1)) (peered_entries example_lists))"
proof -
  obtain pg' where pg': "calc_object_states example_lists example_pg = Inr pg'"
    "flush_actions pg' (Obj_piece_id (Object_id 1 0) 1) =
       Some \<lparr>act_rollback = True, make_stable = False, stable_to = 0, rollback_to = 1\<rparr>"
    using example_run by blast
  from peering_flush_safe [OF example_ok(1-3) this] pg' show ?thesis
    by (simp add: Let_def)
qed

lemma start_counted:
  assumes "incomplete_objects pg = Map.empty" "degraded_objects pg = Map.empty" "misplaced_objects pg = Map.empty"
  shows "counted (start_pg lr pg) f {}"
proof -
  have "filed (start_pg lr pg) s = {}" for s
    using assms by (simp add: filed_def)
  then show ?thesis by (simp add: counted_def)
qed

lemma counted_maps:
  assumes "counted pg f S"
  shows "total_count pg = card {b \<in> S. f b \<noteq> Gone}" "clean_count pg = card {b \<in> S. f b = State 0}"
    and "dom (incomplete_objects pg) = {b \<in> S. f b = State OBJ_INCOMPLETE}"
    and "dom (degraded_objects pg) = {b \<in> S. f b = State OBJ_DEGRADED}"
    and "dom (misplaced_objects pg) = {b \<in> S. f b = State OBJ_MISPLACED}"
    and "bit (pg_state pg) 8 \<longleftrightarrow> dom (incomplete_objects pg) \<noteq> {}" "bit (pg_state pg) 9 \<longleftrightarrow> dom (degraded_objects pg) \<noteq> {}"
      "bit (pg_state pg) 10 \<longleftrightarrow> dom (misplaced_objects pg) \<noteq> {}" "bit (pg_state pg) 12 \<longleftrightarrow> (\<exists>b \<in> S. f b = Invalid)"
proof -
  have ne: "OBJ_INCOMPLETE \<noteq> OBJ_DEGRADED" "OBJ_INCOMPLETE \<noteq> OBJ_MISPLACED" "OBJ_DEGRADED \<noteq> OBJ_MISPLACED"
    by (simp_all add: obj_state_defs)
  have f: "filed pg OBJ_INCOMPLETE = dom (incomplete_objects pg)" "filed pg OBJ_DEGRADED = dom (degraded_objects pg)"
    "filed pg OBJ_MISPLACED = dom (misplaced_objects pg)" "state_flag OBJ_INCOMPLETE = 8"
    "state_flag OBJ_DEGRADED = 9" "state_flag OBJ_MISPLACED = 10"
    using ne by (simp_all add: filed_def state_flag_def)
  note nc = nonclean_flags [THEN conjunct1]
  note c = assms [unfolded counted_def]
  from c show "total_count pg = card {b \<in> S. f b \<noteq> Gone}" "clean_count pg = card {b \<in> S. f b = State 0}"
    "bit (pg_state pg) 12 \<longleftrightarrow> (\<exists>b \<in> S. f b = Invalid)"
    by blast+
  from c nc show "dom (incomplete_objects pg) = {b \<in> S. f b = State OBJ_INCOMPLETE}"
    "dom (degraded_objects pg) = {b \<in> S. f b = State OBJ_DEGRADED}"
    "dom (misplaced_objects pg) = {b \<in> S. f b = State OBJ_MISPLACED}"
    unfolding f(1-3) [symmetric] by blast+
  from c nc f show "bit (pg_state pg) 8 \<longleftrightarrow> dom (incomplete_objects pg) \<noteq> {}"
    "bit (pg_state pg) 9 \<longleftrightarrow> dom (degraded_objects pg) \<noteq> {}" "bit (pg_state pg) 10 \<longleftrightarrow> dom (misplaced_objects pg) \<noteq> {}"
    by metis+
qed

lemma activate_state:
  "if bit (pg_state pg) 12 then pg_state (activate pg) = PG_INCOMPLETE OR PG_HAS_INVALID
   else bit (pg_state (activate pg)) 3 \<and>
     (\<forall>i \<in> {8, 9, 10}. bit (pg_state (activate pg)) i = bit (pg_state pg) i)"
  using and_pg_flags(5) [of "pg_state pg"] by (simp add: activate_def Let_def bit_or_pg_flags)

text \<open>C3: every object is accounted for according to its fate. The total is the number of objects that have invalid copies or a
  version to keep; objects none of whose versions can be kept are not counted. The clean count is the number of objects in the
  state 0, and the maps of incomplete, degraded and misplaced objects hold exactly the objects in those states. The group gets
  no further than incomplete exactly when there are objects with invalid copies; otherwise it is active, and each of the
  three object flags is set exactly when there are objects in that state.\<close>

theorem peering_counts:
  assumes "pg_wf pg" "lists_ok lr" "calc_object_states lr pg = Inr pg'"
    and "incomplete_objects pg = Map.empty" "degraded_objects pg = Map.empty" "misplaced_objects pg = Map.empty"
  shows "let Obj = set (objects_of (peered_entries lr));
             fate = (\<lambda>b. object_fate pg (is_replicated pg) (entries_of b (peered_entries lr)));
             I = dom (incomplete_objects pg'); D = dom (degraded_objects pg'); M = dom (misplaced_objects pg')
    in total_count pg' = card {b \<in> Obj. fate b \<noteq> Gone} \<and> clean_count pg' = card {b \<in> Obj. fate b = State 0} \<and>
       I = {b \<in> Obj. fate b = State OBJ_INCOMPLETE} \<and> D = {b \<in> Obj. fate b = State OBJ_DEGRADED} \<and>
       M = {b \<in> Obj. fate b = State OBJ_MISPLACED} \<and>
       (if Invalid \<in> fate ` Obj then pg_state pg' = PG_INCOMPLETE OR PG_HAS_INVALID
        else pg_state pg' AND PG_ACTIVE \<noteq> 0 \<and>
          (pg_state pg' AND PG_HAS_INCOMPLETE \<noteq> 0 \<longleftrightarrow> I \<noteq> {}) \<and>
          (pg_state pg' AND PG_HAS_DEGRADED \<noteq> 0 \<longleftrightarrow> D \<noteq> {}) \<and>
          (pg_state pg' AND PG_HAS_MISPLACED \<noteq> 0 \<longleftrightarrow> M \<noteq> {}))"
proof -
  let ?es = "peered_entries lr" and ?rep = "is_replicated pg"
  let ?f = "\<lambda>b. object_fate pg ?rep (entries_of b ?es)" and ?O = "set (objects_of (peered_entries lr))"
  obtain pg1 where pg1: "objects_effect ?rep (map (\<lambda>b. entries_of b ?es) (objects_of ?es)) (start_pg lr pg) = Some pg1"
    "new_epoch (activate pg1) = Inr pg'"
    by (rule calc_object_states_cases [OF assms(1-3)])
  have "object_fate (start_pg lr pg) = object_fate pg" by (rule object_fate_cong) simp_all
  then have "counted pg1 ?f ?O"
    using objects_effect_counted [OF pg1(1) start_counted [OF assms(4-6)], of ?f]
      object_groups_sorted [OF sorted_base_sorted, of "all_entries lr"] by simp
  note c = counted_maps [OF this]
  have inv: "Invalid \<in> ?f ` ?O \<longleftrightarrow> bit (pg_state pg1) 12" unfolding c(9) by (auto simp: image_iff eq_commute)
  have eq: "total_count pg' = total_count pg1" "clean_count pg' = clean_count pg1"
    "pg_state pg' = pg_state (activate pg1)" "incomplete_objects pg' = incomplete_objects pg1"
    "degraded_objects pg' = degraded_objects pg1" "misplaced_objects pg' = misplaced_objects pg1"
    by (subst new_epoch_frame [OF pg1(2)], simp)+
  have st: "if bit (pg_state pg1) 12 then pg_state (activate pg1) = PG_INCOMPLETE OR PG_HAS_INVALID
      else bit (pg_state (activate pg1)) 3 \<and>
        (bit (pg_state (activate pg1)) 8 \<longleftrightarrow> dom (incomplete_objects pg1) \<noteq> {}) \<and>
        (bit (pg_state (activate pg1)) 9 \<longleftrightarrow> dom (degraded_objects pg1) \<noteq> {}) \<and>
        (bit (pg_state (activate pg1)) 10 \<longleftrightarrow> dom (misplaced_objects pg1) \<noteq> {})"
    using activate_state [of pg1] c(6-8) by (simp split: if_splits)
  show ?thesis
    unfolding Let_def eq and_pg_flags inv by (intro conjI; (rule c(1-5) st))
qed

theorem peering_counts_witness:
  "\<exists>pg'. calc_object_states example_lists example_pg = Inr pg' \<and> pg_state pg' AND PG_ACTIVE \<noteq> 0 \<and>
     card {b \<in> set (objects_of (peered_entries example_lists)).
       object_fate example_pg (is_replicated example_pg) (entries_of b (peered_entries example_lists)) \<noteq> Gone} = 1"
proof -
  obtain pg' where pg': "calc_object_states example_lists example_pg = Inr pg'"
    "pg_state pg' = PG_ACTIVE OR PG_HAS_UNCLEAN" "total_count pg' = 1"
    using example_run by blast
  have "pg_state pg' AND PG_ACTIVE \<noteq> 0"
    using pg'(2) by (simp add: pg_state_defs)
  then show ?thesis
    using peering_counts [OF example_ok(1,2) pg'(1) example_ok(4-6)] pg'(1,3)
    unfolding Let_def by (metis (no_types, lifting))
qed

lemma list_epoch_ge: "e \<in> set es \<Longrightarrow> ver_epoch (e_version e) \<le> list_epoch es"
proof -
  have "(\<forall>e \<in> set es. ver_epoch (e_version e) \<le> fold (\<lambda>e ep. if ver_epoch (e_version e) > ep
      then ver_epoch (e_version e) else ep) es x) \<and>
    x \<le> fold (\<lambda>e ep. if ver_epoch (e_version e) > ep then ver_epoch (e_version e) else ep) es x" for x
    by (induction es arbitrary: x) (auto simp: not_less intro: order_trans less_imp_le)
  then show "e \<in> set es \<Longrightarrow> ver_epoch (e_version e) \<le> list_epoch es"
    by (simp add: list_epoch_def)
qed

lemma ver_epoch_bound: "unat (ver_epoch v) < 2 ^ 48"
proof -
  have "unat v < 2 ^ LENGTH(64)"
    by (rule unsigned_less)
  then have "unat v div 2 ^ 16 < 2 ^ 48"
    by (simp add: less_mult_imp_div_less)
  then show ?thesis
    by (simp add: ver_epoch_def PG_EPOCH_BITS_def drop_bit_eq_div unat_div_distrib)
qed

lemma list_epoch_bound: "unat (list_epoch es) < 2 ^ 48"
proof -
  have "unat x < 2 ^ 48 \<Longrightarrow> unat (fold (\<lambda>e ep. if ver_epoch (e_version e) > ep
      then ver_epoch (e_version e) else ep) es x) < 2 ^ 48" for x
    by (induction es arbitrary: x) (use ver_epoch_bound in auto)
  from this [of 0] show ?thesis by (simp add: list_epoch_def)
qed

text \<open>C21: the epoch after peering covers every version seen. If the group is simply active its epoch is at
  least the epoch of every version; in every other state it is larger than all of them, so that
  new versions of any object sort after the old ones. It stays within its 48 bits.\<close>

theorem peering_epoch:
  assumes "pg_wf pg" "lists_ok lr" "calc_object_states lr pg = Inr pg'" "e \<in> set (all_entries lr)"
  shows "(if pg_state pg' = PG_ACTIVE then ver_epoch (e_version e) \<le> pg_epoch pg'
     else ver_epoch (e_version e) < pg_epoch pg') \<and> unat (pg_epoch pg') < 2 ^ 48"
proof -
  let ?ep = "list_epoch (all_entries lr)"
  obtain pg1 where pg1: "objects_effect (is_replicated pg) (map (\<lambda>b. entries_of b (peered_entries lr))
      (objects_of (peered_entries lr))) (start_pg lr pg) = Some pg1" "new_epoch (activate pg1) = Inr pg'"
    by (rule calc_object_states_cases [OF assms(1-3)])
  have ep: "pg_epoch pg1 = ?ep"
    using objects_effect_config [OF pg1(1)] by (simp add: same_config_def)
  note ge = list_epoch_ge [OF assms(4)] and bd = list_epoch_bound [of "all_entries lr"]
  show ?thesis
  proof (cases "pg_state (activate pg1) = PG_ACTIVE")
    case True
    then show ?thesis
      using pg1(2) ep ge bd by (auto simp: new_epoch_def)
  next
    case False
    then have pg': "pg' = (activate pg1)\<lparr>pg_epoch := ?ep + 1\<rparr>" "?ep \<noteq> push_bit 48 1 - 1"
      using pg1(2) ep by (auto simp: new_epoch_def PG_EPOCH_BITS_def split: if_splits)
    have "unat ?ep \<noteq> 2 ^ 48 - 1"
    proof
      assume "unat ?ep = 2 ^ 48 - 1"
      then have "?ep = of_nat (2 ^ 48 - 1)"
        by (metis of_nat_unat ucast_id)
      with pg'(2) show False by simp
    qed
    then have u: "unat (?ep + 1) = unat ?ep + 1" "unat ?ep + 1 < 2 ^ 48"
      using bd by (simp_all add: unat_word_ariths)
    then have "?ep < ?ep + 1"
      by (simp add: word_less_nat_alt)
    then show ?thesis
      using False pg'(1) ge u by (auto intro: order_le_less_trans)
  qed
qed

theorem peering_epoch_witness:
  "\<exists>pg'. calc_object_states example_lists example_pg = Inr pg' \<and> ver_epoch 2 < pg_epoch pg'"
proof -
  obtain pg' where pg': "calc_object_states example_lists example_pg = Inr pg'"
    "pg_state pg' = PG_ACTIVE OR PG_HAS_UNCLEAN"
    using example_run by blast
  have "Obj_ver_role (Object_id 1 0) 2 1 False \<in> set (all_entries example_lists)"
    by (simp add: example_lists_def all_entries_def list_entries_def)
  from peering_epoch [OF example_ok(1,2) pg'(1) this] pg' show ?thesis
    by (auto simp: pg_state_defs split: if_splits)
qed

end
