(* ===== verification/Memory.thy ===== *)
theory Memory
  imports Prelude
begin

text \<open>
  The memory the buffer-handling code works on: one flat address space of bytes. A pointer is an
  address (\<open>NULL\<close> is 0) and pointer arithmetic is arithmetic on addresses, so that two pointers into
  the same buffer alias in the model exactly when they do in the program. The contents of memory
  nobody wrote are arbitrary: a statement that holds for every memory cannot depend on them.

  \<open>memxor\<close> is \<open>src/src/util/xor.h\<close>; \<open>memcpy\<close> and \<open>memcmp\<close> are the C library's. 32-bit unsigned
  arithmetic on values kept as \<open>nat\<close> is \<open>add32\<close>, \<open>sub32\<close>, \<open>mul32\<close>.
\<close>

section \<open>Unsigned 32-bit arithmetic on numbers\<close>

abbreviation U32_MAX :: nat where
  "U32_MAX \<equiv> 4294967295"

definition add32 :: "nat \<Rightarrow> nat \<Rightarrow> nat" where
  "add32 a b = (a + b) mod 2 ^ 32"

definition sub32 :: "nat \<Rightarrow> nat \<Rightarrow> nat" where
  "sub32 a b = (a + 2 ^ 32 - b mod 2 ^ 32) mod 2 ^ 32"

definition mul32 :: "nat \<Rightarrow> nat \<Rightarrow> nat" where
  "mul32 a b = (a * b) mod 2 ^ 32"

lemma add32_eq [simp]: "a + b \<le> U32_MAX \<Longrightarrow> add32 a b = a + b"
  by (simp add: add32_def)

lemma mul32_eq [simp]: "a * b \<le> U32_MAX \<Longrightarrow> mul32 a b = a * b"
  by (simp add: mul32_def)

lemma sub32_eq [simp]:
  assumes "b \<le> a" "a \<le> U32_MAX"
  shows "sub32 a b = a - b"
proof -
  have "a + 2 ^ 32 - b = (a - b) + 2 ^ 32" "b mod 2 ^ 32 = b"
    using assms by simp_all
  then have "sub32 a b = ((a - b) + 2 ^ 32) mod 2 ^ 32"
    unfolding sub32_def by metis
  also have "\<dots> = a - b"
    using assms(2) by (subst mod_add_self2) simp
  finally show ?thesis .
qed

section \<open>Bytes at addresses\<close>

type_synonym ptr = nat
type_synonym memory = "ptr \<Rightarrow> u8"

abbreviation (input) NULL :: ptr where
  "NULL \<equiv> 0"

definition memxor :: "ptr \<Rightarrow> ptr \<Rightarrow> ptr \<Rightarrow> nat \<Rightarrow> memory \<Rightarrow> memory" where
  "memxor r1 r2 res len m = fold (\<lambda>i m. m(res + i := m (r1 + i) XOR m (r2 + i))) [0..<len] m"

definition memcpy :: "ptr \<Rightarrow> ptr \<Rightarrow> nat \<Rightarrow> memory \<Rightarrow> memory" where
  "memcpy dst src len m = (\<lambda>a. if dst \<le> a \<and> a < dst + len then m (src + (a - dst)) else m a)"

definition memcmp_eq :: "ptr \<Rightarrow> ptr \<Rightarrow> nat \<Rightarrow> memory \<Rightarrow> bool" where
  "memcmp_eq p q len m = list_all (\<lambda>i. m (p + i) = m (q + i)) [0..<len]"

definition mem_bytes :: "memory \<Rightarrow> ptr \<Rightarrow> nat \<Rightarrow> u8 list" where
  "mem_bytes m p len = map (\<lambda>i. m (p + i)) [0..<len]"

definition mem_store :: "ptr \<Rightarrow> u8 list \<Rightarrow> memory \<Rightarrow> memory" where
  "mem_store p bs m = (\<lambda>a. if p \<le> a \<and> a < p + length bs then bs ! (a - p) else m a)"

text \<open>The addresses of a buffer, and two buffers that do not overlap.\<close>

definition region :: "ptr \<Rightarrow> nat \<Rightarrow> ptr set" where
  "region p len = {p..<p + len}"

definition apart :: "ptr \<Rightarrow> nat \<Rightarrow> ptr \<Rightarrow> nat \<Rightarrow> bool" where
  "apart p n q k \<longleftrightarrow> p + n \<le> q \<or> q + k \<le> p \<or> n = 0 \<or> k = 0"

lemma region_iff [simp]: "a \<in> region p len \<longleftrightarrow> p \<le> a \<and> a < p + len"
  by (auto simp: region_def)

lemma apartD: "apart p n q k \<Longrightarrow> a \<in> region p n \<Longrightarrow> a \<notin> region q k"
  by (auto simp: apart_def)

lemma apart_iff: "apart p n q k \<longleftrightarrow> region p n \<inter> region q k = {}"
  by (auto simp: apart_def region_def)

lemma apart_sym: "apart p n q k \<longleftrightarrow> apart q k p n"
  by (auto simp: apart_def)

lemma apart_sub:
  assumes "apart p n q k" "p \<le> p'" "p' + n' \<le> p + n" "q \<le> q'" "q' + k' \<le> q + k"
  shows "apart p' n' q' k'"
  using assms by (auto simp: apart_def)

lemma memcpy_at: "memcpy dst src len m a = (if a \<in> region dst len then m (src + (a - dst)) else m a)"
  by (simp add: memcpy_def)

lemma mem_bytes_length [simp]: "length (mem_bytes m p len) = len"
  by (simp add: mem_bytes_def)

lemma mem_bytes_nth [simp]: "i < len \<Longrightarrow> mem_bytes m p len ! i = m (p + i)"
  by (simp add: mem_bytes_def)

lemma mem_store_at: "mem_store p bs m a = (if a \<in> region p (length bs) then bs ! (a - p) else m a)"
  by (simp add: mem_store_def)

lemma mem_bytes_store [simp]: "mem_bytes (mem_store p bs m) p (length bs) = bs"
  by (rule nth_equalityI) (simp_all add: mem_store_at)

lemma mem_store_bytes [simp]: "mem_store p (mem_bytes m p len) m = m"
  by (rule ext) (auto simp: mem_store_at)

lemma mem_bytes_cong: "(\<And>i. i < len \<Longrightarrow> m (p + i) = m' (p + i)) \<Longrightarrow> mem_bytes m p len = mem_bytes m' p len"
  by (simp add: mem_bytes_def)

lemma memcmp_eq_iff: "memcmp_eq p q len m \<longleftrightarrow> mem_bytes m p len = mem_bytes m q len"
  by (auto simp: memcmp_eq_def mem_bytes_def list_all_iff)

text \<open>\<open>memxor\<close> when each source is the destination itself or does not overlap it.\<close>

lemma memxor_at:
  assumes "r1 = res \<or> apart r1 len res len" "r2 = res \<or> apart r2 len res len"
  shows "memxor r1 r2 res len m a =
    (if a \<in> region res len then m (r1 + (a - res)) XOR m (r2 + (a - res)) else m a)"
proof -
  have "memxor r1 r2 res n m a =
      (if a \<in> region res n then m (r1 + (a - res)) XOR m (r2 + (a - res)) else m a)" if "n \<le> len" for n a
    using that
  proof (induction n arbitrary: a)
    case (Suc n)
    then have IH: "memxor r1 r2 res n m a =
        (if a \<in> region res n then m (r1 + (a - res)) XOR m (r2 + (a - res)) else m a)" for a
      by simp
    have "memxor r1 r2 res n m (r1 + n) = m (r1 + n)" "memxor r1 r2 res n m (r2 + n) = m (r2 + n)"
      using assms Suc.prems by (auto simp: IH apart_def)
    moreover have "memxor r1 r2 res (Suc n) m =
        (let m' = memxor r1 r2 res n m in m'(res + n := m' (r1 + n) XOR m' (r2 + n)))"
      by (simp add: memxor_def Let_def)
    ultimately show ?case
      by (auto simp: IH Let_def less_Suc_eq)
  qed (auto simp: memxor_def)
  then show ?thesis by simp
qed

lemma memxor_outside:
  assumes "a \<notin> region res len"
  shows "memxor r1 r2 res len m a = m a"
proof -
  have "n \<le> len \<Longrightarrow> memxor r1 r2 res n m a = m a" for n
    using assms by (induction n) (auto simp: memxor_def)
  then show ?thesis by simp
qed

section \<open>The XOR of a family of bytes\<close>

primrec xsum :: "(nat \<Rightarrow> 'a::len word) \<Rightarrow> nat \<Rightarrow> 'a word" where
  "xsum f 0 = 0"
| "xsum f (Suc n) = xsum f n XOR f n"

lemma xsum_cong: "(\<And>i. i < n \<Longrightarrow> f i = g i) \<Longrightarrow> xsum f n = xsum g n"
  by (induction n) simp_all

lemma xsum_xor: "xsum (\<lambda>i. f i XOR g i) n = xsum f n XOR xsum g n"
  by (induction n) (simp_all add: ac_simps)

lemma xsum_zero [simp]: "xsum (\<lambda>_. 0) n = 0"
  by (induction n) simp_all

lemma xsum_remove: "r < n \<Longrightarrow> xsum f n = xsum (f(r := 0)) n XOR f r"
proof (induction n)
  case (Suc n)
  show ?case
  proof (cases "r = n")
    case True
    have "xsum (f(n := 0)) n = xsum f n"
      by (rule xsum_cong) simp
    then show ?thesis
      unfolding True xsum.simps by simp
  next
    case False
    with Suc show ?thesis by (simp add: ac_simps)
  qed
qed simp

text \<open>In a family whose XOR is zero each member is the XOR of the others.\<close>

lemma xsum_recover:
  assumes "xsum f n = 0" "r < n"
  shows "f r = xsum (f(r := 0)) n"
  using assms(1) xsum_remove [OF assms(2), of f] word_xor_left_cancel [of "xsum (f(r := 0)) n" "f r" "xsum (f(r := 0)) n"]
  by simp

end
