(* ===== verification/Rmw.thy ===== *)
theory Rmw
  imports Bitmap Memory Object_Id "HOL-Library.Monad_Syntax"
begin

text \<open>
  Read-modify-write of an erasure coded object (\<open>src/src/osd/osd_rmw.cpp\<close>, \<open>osd_rmw.h\<close>): how a
  request is split over the data chunks, what has to be read to reconstruct missing chunks and to
  compute the new parity, where the buffers lie, and the computation itself for the XOR scheme.

  The array of stripes is a list with one entry per role. The 32-bit fields hold numbers below
  \<open>2 ^ 32\<close>; sums, differences and products of them wrap as in the code. Buffers are addresses of
  the flat memory of theory \<open>Memory\<close>. A failed \<open>assert\<close> and a read past the end of a buffer list
  are \<open>None\<close>. The code compares \<open>read_osd_set\<close> and \<open>write_osd_set\<close> as pointers; the argument
  \<open>moved\<close> says that the pointers differ.
\<close>

section \<open>Stripes\<close>

record buf_len =
  bl_buf :: ptr
  bl_len :: nat

record osd_rmw_stripe =
  read_buf :: ptr
  write_buf :: ptr
  bmp_buf :: ptr
  req_start :: nat
  req_end :: nat
  read_start :: nat
  read_end :: nat
  write_start :: nat
  write_end :: nat
  st_osd_num :: osd_num
  st_role :: nat
  missing :: bool
  read_error :: bool
  not_exists :: bool

type_synonym stripes = "osd_rmw_stripe list"
type_synonym osd_set = "osd_num list"

definition extend_read :: "nat \<Rightarrow> nat \<Rightarrow> osd_rmw_stripe \<Rightarrow> osd_rmw_stripe" where
  "extend_read start end s =
     (if end = U32_MAX
      then if read_end s = 0 then s\<lparr>read_start := 0, read_end := U32_MAX\<rparr> else s
      else if read_end s = U32_MAX
      then if end > 0 then s\<lparr>read_start := start, read_end := end\<rparr> else s
      else if read_end s = 0 then s\<lparr>read_start := start, read_end := end\<rparr>
      else
        let s = (if read_end s < end then s\<lparr>read_end := end\<rparr> else s)
        in if read_start s > start then s\<lparr>read_start := start\<rparr> else s)"

definition cover_read :: "nat \<Rightarrow> nat \<Rightarrow> osd_rmw_stripe \<Rightarrow> osd_rmw_stripe" where
  "cover_read start end s =
     (if start \<ge> req_start s \<and> end \<le> req_end s then s
      else
        let (start, end) =
          (if start \<le> req_start s \<and> end \<ge> req_start s \<and> end \<le> req_end s then (start, req_start s)
           else if start \<ge> req_start s \<and> start \<le> req_end s \<and> end \<ge> req_end s then (req_end s, end)
           else (start, end))
        in if read_end s = 0 then s\<lparr>read_start := start, read_end := end\<rparr>
           else
             let s = (if read_end s < end then s\<lparr>read_end := end\<rparr> else s)
             in if read_start s > start then s\<lparr>read_start := start\<rparr> else s)"

definition split_stripe :: "nat \<Rightarrow> nat \<Rightarrow> nat \<Rightarrow> nat \<Rightarrow> osd_rmw_stripe \<Rightarrow> osd_rmw_stripe" where
  "split_stripe bs start end role s =
     (if start < mul32 (1 + role) bs \<and> end > mul32 role bs
      then s\<lparr>req_start := (if start < mul32 role bs then 0 else sub32 start (mul32 role bs)),
             req_end := (if end > mul32 (role + 1) bs then bs else sub32 end (mul32 role bs))\<rparr>
      else s)"

definition split_stripes :: "nat \<Rightarrow> nat \<Rightarrow> nat \<Rightarrow> nat \<Rightarrow> stripes \<Rightarrow> stripes" where
  "split_stripes pg_minsize bs start len st =
     (if len = 0 then st
      else fold (\<lambda>role st. st[role := split_stripe bs start (add32 start len) role (st ! role)])
             [0..<pg_minsize] st)"

section \<open>Reconstruction of a missing chunk by XOR\<close>

definition reconstruct_one ::
  "stripes \<Rightarrow> nat \<Rightarrow> nat \<Rightarrow> nat \<Rightarrow> int \<times> memory \<Rightarrow> (int \<times> memory) option"
where
  "reconstruct_one st bitmap_size role other = (\<lambda>(prev, m).
     let s = st ! role; o' = st ! other; len = sub32 (read_end s) (read_start s) in
     if other = role then Some (prev, m)
     else if prev = -2 then Some (int other, m)
     else if prev \<ge> 0
     then
       let p = st ! nat prev in
       if read_end s \<noteq> U32_MAX \<and> \<not> (read_start s \<ge> read_start p \<and> read_start s \<ge> read_start o') then None
       else
         let m = (if read_end s \<noteq> U32_MAX
                  then memxor (read_buf p + (read_start s - read_start p))
                         (read_buf o' + (read_start s - read_start o')) (read_buf s) len m
                  else m)
         in Some (-1, memxor (bmp_buf p) (bmp_buf o') (bmp_buf s) bitmap_size m)
     else
       if read_end s \<noteq> U32_MAX \<and> \<not> read_start s \<ge> read_start o' then None
       else
         let m = (if read_end s \<noteq> U32_MAX
                  then memxor (read_buf s) (read_buf o' + (read_start s - read_start o')) (read_buf s) len m
                  else m)
         in Some (prev, memxor (bmp_buf s) (bmp_buf o') (bmp_buf s) bitmap_size m))"

primrec fold_opt :: "('a \<Rightarrow> 's \<Rightarrow> 's option) \<Rightarrow> 'a list \<Rightarrow> 's \<Rightarrow> 's option" where
  "fold_opt f [] s = Some s"
| "fold_opt f (x # xs) s = Option.bind (f x s) (fold_opt f xs)"

definition reconstruct_role :: "stripes \<Rightarrow> nat \<Rightarrow> nat \<Rightarrow> nat \<Rightarrow> memory \<Rightarrow> memory option" where
  "reconstruct_role st pg_size bitmap_size role m =
     (if read_end (st ! role) \<noteq> 0 \<and> missing (st ! role)
      then map_option snd (fold_opt (reconstruct_one st bitmap_size role) [0..<pg_size] (-2, m))
      else Some m)"

definition reconstruct_stripes_xor :: "stripes \<Rightarrow> nat \<Rightarrow> nat \<Rightarrow> memory \<Rightarrow> memory option" where
  "reconstruct_stripes_xor st pg_size bitmap_size m =
     fold_opt (reconstruct_role st pg_size bitmap_size) [0..<pg_size] m"

section \<open>What to read\<close>

text \<open>The inner loop of \<open>extend_missing_stripes\<close> and of \<open>calc_rmw\<close>: the range of \<open>role\<close> is read from
  the first \<open>pg_minsize\<close> existing chunks.\<close>

definition extend_to_existing ::
  "nat \<Rightarrow> osd_set \<Rightarrow> nat \<Rightarrow> nat \<Rightarrow> stripes \<Rightarrow> stripes \<times> nat"
where
  "extend_to_existing role osd_set pg_minsize pg_size st =
     fold (\<lambda>j (st, exist).
         if exist < pg_minsize \<and> osd_set ! j \<noteq> 0
         then (st[j := extend_read (read_start (st ! role)) (read_end (st ! role)) (st ! j)], exist + 1)
         else (st, exist))
       [0..<pg_size] (st, 0)"

definition extend_missing_step ::
  "osd_set \<Rightarrow> nat \<Rightarrow> nat \<Rightarrow> nat \<Rightarrow> stripes \<times> bool \<Rightarrow> stripes \<times> bool"
where
  "extend_missing_step osd_set pg_minsize pg_size role = (\<lambda>(st, ok).
     if ok \<and> read_end (st ! role) \<noteq> 0 \<and> osd_set ! role = 0
     then
       let (st, exist) = extend_to_existing role osd_set pg_minsize pg_size
             (st[role := (st ! role)\<lparr>missing := True\<rparr>])
       in (st, exist \<ge> pg_minsize)
     else (st, ok))"

text \<open>The boolean is \<open>True\<close> for the return value 0 and \<open>False\<close> for -1.\<close>

definition extend_missing_stripes :: "stripes \<Rightarrow> osd_set \<Rightarrow> nat \<Rightarrow> nat \<Rightarrow> stripes \<times> bool" where
  "extend_missing_stripes st osd_set pg_minsize pg_size =
     fold (extend_missing_step osd_set pg_minsize pg_size) [0..<pg_minsize] (st, True)"

definition reads_data :: "osd_rmw_stripe \<Rightarrow> bool" where
  "reads_data s \<longleftrightarrow> read_end s \<noteq> 0 \<and> read_end s \<noteq> U32_MAX"

definition read_len :: "osd_rmw_stripe \<Rightarrow> nat" where
  "read_len s = sub32 (read_end s) (read_start s)"

text \<open>The size of the allocated buffer and, given the address \<open>buf\<close> of the allocation, the placement
  of the read buffers in it.\<close>

definition read_buffer_size :: "stripes \<Rightarrow> nat \<Rightarrow> nat \<Rightarrow> nat" where
  "read_buffer_size st read_pg_size add_size =
     fold (\<lambda>role buf_size. if reads_data (st ! role) then buf_size + read_len (st ! role) else buf_size)
       [0..<read_pg_size] add_size"

definition alloc_read_buffer :: "stripes \<Rightarrow> nat \<Rightarrow> nat \<Rightarrow> ptr \<Rightarrow> stripes" where
  "alloc_read_buffer st read_pg_size add_size buf =
     fst (fold (\<lambda>role (st, buf_pos).
         if reads_data (st ! role)
         then (st[role := (st ! role)\<lparr>read_buf := buf + buf_pos\<rparr>], buf_pos + read_len (st ! role))
         else (st, buf_pos))
       [0..<read_pg_size] (st, add_size))"

section \<open>Planning a read-modify-write\<close>

text \<open>The written range of the data chunks, and its hull over all of them.\<close>

definition rmw_hull_step :: "nat \<Rightarrow> stripes \<times> nat \<times> nat \<Rightarrow> stripes \<times> nat \<times> nat" where
  "rmw_hull_step role = (\<lambda>(st, start, end).
     let s = st ! role in
     if req_end s \<noteq> 0
     then (st[role := s\<lparr>write_start := req_start s, write_end := req_end s\<rparr>],
           if end = 0 \<or> req_start s < start then req_start s else start, max (req_end s) end)
     else (st, start, end))"

text \<open>The written range of the parity chunks: the hull, or everything when a parity chunk moves.\<close>

definition rmw_parity_step ::
  "osd_set \<Rightarrow> osd_set \<Rightarrow> nat \<Rightarrow> nat \<Rightarrow> nat \<Rightarrow> stripes \<times> nat \<times> nat \<times> nat \<Rightarrow> stripes \<times> nat \<times> nat \<times> nat"
where
  "rmw_parity_step read_osd_set write_osd_set pg_minsize chunk_size role = (\<lambda>(st, start, end, write_parity).
     if write_osd_set ! role \<noteq> 0
     then
       let (st, start, end) =
         (if write_osd_set ! role \<noteq> read_osd_set ! role
          then (fold (\<lambda>r2 st. if write_osd_set ! r2 \<noteq> 0
                   then st[r2 := (st ! r2)\<lparr>write_start := 0, write_end := chunk_size mod 2 ^ 32\<rparr>] else st)
                 [pg_minsize..<role] st, 0, chunk_size mod 2 ^ 32)
          else (st, start, end))
       in (st[role := (st ! role)\<lparr>write_start := start, write_end := end\<rparr>], start, end, write_parity + 1)
     else (st, start, end, write_parity))"

definition rmw_cover_stripe :: "nat \<Rightarrow> nat \<Rightarrow> nat \<Rightarrow> osd_rmw_stripe \<Rightarrow> osd_rmw_stripe" where
  "rmw_cover_stripe start end chunk_size s =
     (let s = cover_read start end s in
      if read_end s = 0 \<and> (req_start s \<noteq> 0 \<or> req_end s \<noteq> chunk_size)
      then s\<lparr>read_end := U32_MAX\<rparr> else s)"

definition rmw_moved_step ::
  "osd_set \<Rightarrow> osd_set \<Rightarrow> nat \<Rightarrow> nat \<Rightarrow> nat \<Rightarrow> stripes \<times> nat \<Rightarrow> stripes \<times> nat"
where
  "rmw_moved_step read_osd_set write_osd_set pg_minsize chunk_size role = (\<lambda>(st, pg_cursize).
     let s = st ! role;
         st = (if role < pg_minsize \<and> write_osd_set ! role \<noteq> read_osd_set ! role \<and> write_osd_set ! role \<noteq> 0 \<and>
                  (req_start s \<noteq> 0 \<or> req_end s \<noteq> chunk_size)
               then st[role := s\<lparr>read_start := 0, read_end := chunk_size mod 2 ^ 32\<rparr>] else st)
     in (st, if read_osd_set ! role \<noteq> 0 then pg_cursize + 1 else pg_cursize))"

definition rmw_missing_step :: "osd_set \<Rightarrow> nat \<Rightarrow> nat \<Rightarrow> nat \<Rightarrow> stripes \<times> bool \<Rightarrow> stripes \<times> bool" where
  "rmw_missing_step read_osd_set pg_minsize pg_size role = (\<lambda>(st, ok).
     if ok \<and> read_osd_set ! role = 0
     then
       let st = st[role := (st ! role)\<lparr>missing := True\<rparr>] in
       if read_end (st ! role) \<noteq> 0
       then
         let (st, found) = extend_to_existing role read_osd_set pg_minsize pg_size st
         in (st, found \<ge> pg_minsize)
       else (st, True)
     else (st, ok))"

definition rmw_place_step ::
  "ptr \<Rightarrow> ptr \<Rightarrow> osd_set \<Rightarrow> nat \<Rightarrow> nat \<Rightarrow> nat \<Rightarrow> nat \<Rightarrow> stripes \<times> nat \<times> nat \<Rightarrow> stripes \<times> nat \<times> nat"
where
  "rmw_place_step request_buf rmw_buf write_osd_set pg_minsize start end role = (\<lambda>(st, buf_pos, in_pos).
     let s = st ! role in
     if req_end s \<noteq> 0
     then (st[role := s\<lparr>write_buf := request_buf + in_pos\<rparr>], buf_pos, in_pos + sub32 (req_end s) (req_start s))
     else if role \<ge> pg_minsize \<and> write_osd_set ! role \<noteq> 0 \<and> end \<noteq> 0
     then (st[role := s\<lparr>write_buf := rmw_buf + buf_pos\<rparr>], buf_pos + sub32 end start, in_pos)
     else (st, buf_pos, in_pos))"

text \<open>The part of \<open>calc_rmw\<close> before the allocation: the stripes with their ranges, the parity range
  and the number of parity chunks to write, and whether the object is complete enough.\<close>

definition rmw_ranges ::
  "stripes \<Rightarrow> osd_set \<Rightarrow> nat \<Rightarrow> nat \<Rightarrow> nat \<Rightarrow> osd_set \<Rightarrow> bool \<Rightarrow> nat \<Rightarrow> (stripes \<times> nat \<times> nat \<times> nat) \<times> bool"
where
  "rmw_ranges st read_osd_set pg_size pg_minsize pg_cursize write_osd_set moved chunk_size =
     (let (st, start, end) = fold rmw_hull_step [0..<pg_minsize] (st, 0, 0);
          (st, start, end, write_parity) =
            fold (rmw_parity_step read_osd_set write_osd_set pg_minsize chunk_size) [pg_minsize..<pg_size]
              (st, start, end, 0);
          st = (if write_parity \<noteq> 0
                then fold (\<lambda>role st. st[role := rmw_cover_stripe start end chunk_size (st ! role)]) [0..<pg_minsize] st
                else st);
          (st, pg_cursize) =
            (if moved then fold (rmw_moved_step read_osd_set write_osd_set pg_minsize chunk_size) [0..<pg_size] (st, 0)
             else (st, pg_cursize));
          (st, ok) =
            (if pg_cursize < pg_size
             then fold (rmw_missing_step read_osd_set pg_minsize pg_size) [0..<pg_size] (st, True)
             else (st, True))
      in ((st, start, end, write_parity), ok))"

text \<open>\<open>rmw_buf\<close> is the address the allocation returns; the result is the address or \<open>NULL\<close>.\<close>

definition calc_rmw ::
  "ptr \<Rightarrow> stripes \<Rightarrow> osd_set \<Rightarrow> nat \<Rightarrow> nat \<Rightarrow> nat \<Rightarrow> osd_set \<Rightarrow> bool \<Rightarrow> nat \<Rightarrow> ptr \<Rightarrow> stripes \<times> ptr"
where
  "calc_rmw request_buf st read_osd_set pg_size pg_minsize pg_cursize write_osd_set moved chunk_size rmw_buf =
     (let ((st, start, end, write_parity), ok) =
        rmw_ranges st read_osd_set pg_size pg_minsize pg_cursize write_osd_set moved chunk_size
      in if \<not> ok then (st, NULL)
         else
           let st = alloc_read_buffer st pg_size (mul32 write_parity (sub32 end start)) rmw_buf;
               (st, buf_pos, in_pos) =
                 fold (rmw_place_step request_buf rmw_buf write_osd_set pg_minsize start end) [0..<pg_size] (st, 0, 0)
           in (st, rmw_buf))"

section \<open>The buffers of old and new data\<close>

definition get_old_new_buffers :: "osd_rmw_stripe \<Rightarrow> nat \<Rightarrow> nat \<Rightarrow> buf_len list" where
  "get_old_new_buffers s wr_start wr_end =
     (let (ns, ne) = (if write_end s > wr_start \<and> write_start s < wr_end
                      then (max (write_start s) wr_start, min (write_end s) wr_end) else (0, 0));
          (os, oe) = (if read_end s > wr_start \<and> read_start s < wr_end
                      then (max (read_start s) wr_start, min (read_end s) wr_end) else (0, 0))
      in if ne \<noteq> 0 \<and> (oe = 0 \<or> ns \<le> os)
         then
           let os = (if os < ne then ne else os)
           in \<lparr>bl_buf = write_buf s + ns - write_start s, bl_len = sub32 ne ns\<rparr> #
              (if oe > os then [\<lparr>bl_buf = read_buf s + os - read_start s, bl_len = sub32 oe os\<rparr>] else [])
         else if oe \<noteq> 0
         then
           if ne \<noteq> 0
           then \<lparr>bl_buf = read_buf s + os - read_start s, bl_len = sub32 ns os\<rparr> #
                \<lparr>bl_buf = write_buf s + ns - write_start s, bl_len = sub32 ne ns\<rparr> #
                (if oe > ne then [\<lparr>bl_buf = read_buf s + ne - read_start s, bl_len = sub32 oe ne\<rparr>] else [])
           else [\<lparr>bl_buf = read_buf s + os - read_start s, bl_len = sub32 oe os\<rparr>]
         else [])"

text \<open>The loop of \<open>xor_multiple_buffers\<close>; every turn moves on in one of the two lists.\<close>

function xor_buffers_loop ::
  "buf_len list \<Rightarrow> buf_len list \<Rightarrow> ptr \<Rightarrow> nat \<Rightarrow> nat \<Rightarrow> nat \<Rightarrow> nat \<Rightarrow> nat \<Rightarrow> nat \<Rightarrow> nat \<Rightarrow> nat \<Rightarrow> memory \<Rightarrow> memory option"
where
  "xor_buffers_loop xor1 xor2 dest len i1 i2 start1 start2 end1 end2 pos m =
     (if pos < len
      then
        if \<not> (i1 < length xor1 \<and> i2 < length xor2) then None
        else
          let end = min end1 end2;
              m = memxor (bl_buf (xor1 ! i1) + pos - start1) (bl_buf (xor2 ! i2) + pos - start2) (dest + pos)
                    (sub32 end pos) m;
              pos = end
          in if pos \<ge> end1 \<and> i1 + 1 \<ge> length xor1
             then if pos \<ge> end2 then Some m else None
             else
               let (i1, start1, end1) =
                     (if pos \<ge> end1 then (i1 + 1, end1, add32 end1 (bl_len (xor1 ! (i1 + 1)))) else (i1, start1, end1))
               in if pos \<ge> end2
                  then
                    if i2 + 1 < length xor2
                    then xor_buffers_loop xor1 xor2 dest len i1 (i2 + 1) start1 end2 end1
                           (add32 end2 (bl_len (xor2 ! (i2 + 1)))) pos m
                    else None
                  else xor_buffers_loop xor1 xor2 dest len i1 i2 start1 start2 end1 end2 pos m
      else Some m)"
  by pat_completeness auto
termination
  by (relation "measure (\<lambda>(xor1, xor2, dest, len, i1, i2, _). (length xor1 - i1) + (length xor2 - i2))")
    (auto split: if_splits)

declare xor_buffers_loop.simps [simp del]

definition xor_multiple_buffers ::
  "buf_len list \<Rightarrow> buf_len list \<Rightarrow> ptr \<Rightarrow> nat \<Rightarrow> memory \<Rightarrow> memory option"
where
  "xor_multiple_buffers xor1 xor2 dest len m =
     (if xor1 \<noteq> [] \<and> xor2 \<noteq> []
      then xor_buffers_loop xor1 xor2 dest len 0 0 0 0 (bl_len (xor1 ! 0) mod 2 ^ 32) (bl_len (xor2 ! 0) mod 2 ^ 32) 0 m
      else None)"

section \<open>Computing the new parity\<close>

definition parity_required :: "osd_set \<Rightarrow> nat \<Rightarrow> nat \<Rightarrow> bool" where
  "parity_required write_osd_set pg_minsize pg_size = list_ex (\<lambda>role. write_osd_set ! role \<noteq> 0) [pg_minsize..<pg_size]"

definition parity_moved :: "osd_set \<Rightarrow> osd_set \<Rightarrow> nat \<Rightarrow> nat \<Rightarrow> bool" where
  "parity_moved read_osd_set write_osd_set pg_minsize pg_size =
     list_ex (\<lambda>role. write_osd_set ! role \<noteq> 0 \<and> write_osd_set ! role \<noteq> read_osd_set ! role) [pg_minsize..<pg_size]"

definition copy_mod_hull :: "stripes \<Rightarrow> nat \<Rightarrow> nat \<times> nat \<Rightarrow> nat \<times> nat" where
  "copy_mod_hull st role = (\<lambda>(start, end).
     let s = st ! role in
     if req_end s \<noteq> 0
     then (if end = 0 \<or> req_start s < start then req_start s else start, max (req_end s) end)
     else (start, end))"

definition mem_bitmap_set :: "osd_rmw_stripe \<Rightarrow> nat \<Rightarrow> nat \<Rightarrow> memory \<Rightarrow> memory" where
  "mem_bitmap_set s bitmap_size g m =
     mem_store (bmp_buf s)
       (bitmap_set (mem_bytes m (bmp_buf s) bitmap_size) (req_start s) (sub32 (req_end s) (req_start s)) g) m"

definition copy_mod_step ::
  "osd_set \<Rightarrow> osd_set \<Rightarrow> nat \<Rightarrow> nat \<Rightarrow> stripes \<times> memory \<Rightarrow> stripes \<times> memory"
where
  "copy_mod_step read_osd_set write_osd_set chunk_size role = (\<lambda>(st, m).
     let s = st ! role in
     if write_osd_set ! role \<noteq> read_osd_set ! role \<and> write_osd_set ! role \<noteq> 0 \<and>
        (req_start s \<noteq> 0 \<or> req_end s \<noteq> chunk_size)
     then (st[role := s\<lparr>write_buf := read_buf s, write_start := 0, write_end := chunk_size\<rparr>],
           memcpy (read_buf s + req_start s) (write_buf s) (sub32 (req_end s) (req_start s)) m)
     else (st, m))"

definition calc_rmw_parity_copy_mod ::
  "stripes \<Rightarrow> nat \<Rightarrow> nat \<Rightarrow> osd_set \<Rightarrow> osd_set \<Rightarrow> bool \<Rightarrow> nat \<Rightarrow> nat \<Rightarrow> nat \<Rightarrow> memory \<Rightarrow>
    (stripes \<times> memory) \<times> nat \<times> nat"
where
  "calc_rmw_parity_copy_mod st pg_size pg_minsize read_osd_set write_osd_set moved chunk_size bitmap_size g m =
     (let end = (if parity_moved read_osd_set write_osd_set pg_minsize pg_size then chunk_size else 0);
          (start, end) =
            (if parity_required write_osd_set pg_minsize pg_size \<and> end \<noteq> chunk_size
             then fold (copy_mod_hull st) [0..<pg_minsize] (0, end) else (0, end));
          m = (if g > 0
               then fold (\<lambda>role m. if req_end (st ! role) \<noteq> 0 then mem_bitmap_set (st ! role) bitmap_size g m else m)
                      [0..<pg_minsize] m
               else m)
      in (if moved then fold (copy_mod_step read_osd_set write_osd_set chunk_size) [0..<pg_minsize] (st, m) else (st, m),
          start, end))"

definition copy_parity_step ::
  "osd_set \<Rightarrow> osd_set \<Rightarrow> nat \<Rightarrow> nat \<Rightarrow> nat \<Rightarrow> nat \<Rightarrow> stripes \<times> memory \<Rightarrow> stripes \<times> memory"
where
  "copy_parity_step read_osd_set write_osd_set chunk_size start end role = (\<lambda>(st, m).
     let s = st ! role in
     if write_osd_set ! role \<noteq> read_osd_set ! role \<and> write_osd_set ! role \<noteq> 0 \<and>
        (start \<noteq> 0 \<or> end \<noteq> chunk_size)
     then (st[role := s\<lparr>write_buf := read_buf s, write_start := 0, write_end := chunk_size\<rparr>],
           memcpy (read_buf s + start - read_start s) (write_buf s) (sub32 end start) m)
     else (st, m))"

definition calc_rmw_parity_copy_parity ::
  "stripes \<times> memory \<Rightarrow> nat \<Rightarrow> nat \<Rightarrow> osd_set \<Rightarrow> osd_set \<Rightarrow> bool \<Rightarrow> nat \<Rightarrow> nat \<Rightarrow> nat \<Rightarrow> stripes \<times> memory"
where
  "calc_rmw_parity_copy_parity sm pg_size pg_minsize read_osd_set write_osd_set moved chunk_size start end =
     (if moved \<and> end \<noteq> 0
      then fold (copy_parity_step read_osd_set write_osd_set chunk_size start end) [pg_minsize..<pg_size] sm
      else sm)"

definition xor_parity_step ::
  "stripes \<Rightarrow> nat \<Rightarrow> nat \<Rightarrow> nat \<Rightarrow> nat \<Rightarrow> nat \<Rightarrow> int \<times> memory \<Rightarrow> (int \<times> memory) option"
where
  "xor_parity_step st parity bitmap_size start end other = (\<lambda>(prev, m).
     if prev = -2 then Some (int other, m)
     else
       let s = st ! parity;
           xor1 = (if prev = -1 then [\<lparr>bl_buf = write_buf s, bl_len = sub32 end start\<rparr>]
                   else get_old_new_buffers (st ! nat prev) start end);
           m = memxor (if prev = -1 then bmp_buf s else bmp_buf (st ! nat prev)) (bmp_buf (st ! other)) (bmp_buf s)
                 bitmap_size m
       in map_option (\<lambda>m. (-1, m))
            (xor_multiple_buffers xor1 (get_old_new_buffers (st ! other) start end) (write_buf s) (sub32 end start) m))"

definition calc_rmw_parity_xor ::
  "stripes \<Rightarrow> nat \<Rightarrow> osd_set \<Rightarrow> osd_set \<Rightarrow> bool \<Rightarrow> nat \<Rightarrow> nat \<Rightarrow> memory \<Rightarrow> (stripes \<times> memory) option"
where
  "calc_rmw_parity_xor st pg_size read_osd_set write_osd_set moved chunk_size bitmap_size m =
     (let g = (if bitmap_size > 0 then chunk_size div bitmap_size div 8 else 0);
          pg_minsize = pg_size - 1
      in do {
        m \<leftarrow> reconstruct_stripes_xor st pg_size bitmap_size m;
        let ((st, m), start, end) =
          calc_rmw_parity_copy_mod st pg_size pg_minsize read_osd_set write_osd_set moved chunk_size bitmap_size g m;
        m \<leftarrow> (if write_osd_set ! pg_minsize \<noteq> 0 \<and> end \<noteq> 0
              then map_option snd (fold_opt (xor_parity_step st pg_minsize bitmap_size start end) [0..<pg_minsize] (-2, m))
              else Some m);
        Some (calc_rmw_parity_copy_parity (st, m) pg_size pg_minsize read_osd_set write_osd_set moved chunk_size start end)
      })"

end
