(* ===== verification/Rmw_Plan.thy ===== *)
theory Rmw_Plan
  imports Rmw
begin

text \<open>
  What the planning half of \<open>osd_rmw.cpp\<close> arranges: \<open>split_stripes\<close> gives every data chunk exactly
  its part of the request; \<open>extend_missing_stripes\<close> and \<open>calc_rmw\<close> leave ranges from which every
  missing range can be reconstructed and the parity recomputed; the buffers they place do not
  overlap.
\<close>

section \<open>Loops over the stripes\<close>

lemma fold_update_length [simp]:
  "length (fold (\<lambda>r st. st[r := f r (st ! r)]) rs st) = length st"
  by (induction rs arbitrary: st) simp_all

lemma fold_update_nth:
  assumes "distinct rs" "i < length st"
  shows "fold (\<lambda>r st. st[r := f r (st ! r)]) rs st ! i = (if i \<in> set rs then f i (st ! i) else st ! i)"
  using assms
proof (induction rs arbitrary: st)
  case (Cons r rs)
  then show ?case
    by (cases "i = r") (auto simp: nth_list_update)
qed simp

section \<open>Splitting a request\<close>

text \<open>The part of the bytes \<open>start..start + len\<close> of an object that falls into chunk \<open>role\<close>.\<close>

definition request_range :: "nat \<Rightarrow> nat \<Rightarrow> nat \<Rightarrow> nat \<Rightarrow> nat \<times> nat" where
  "request_range bs start len role =
     (if len \<noteq> 0 \<and> start < (role + 1) * bs \<and> role * bs < start + len
      then (start - role * bs, min (start + len) ((role + 1) * bs) - role * bs) else (0, 0))"

lemma split_stripe_range:
  assumes "(role + 1) * bs \<le> U32_MAX" "e \<le> U32_MAX"
  shows "split_stripe bs start e role s =
    (if start < (role + 1) * bs \<and> role * bs < e
     then s\<lparr>req_start := start - role * bs, req_end := min e ((role + 1) * bs) - role * bs\<rparr> else s)"
proof -
  have r: "mul32 (1 + role) bs = (role + 1) * bs" "mul32 (role + 1) bs = (role + 1) * bs"
      "mul32 role bs = role * bs"
    using assms(1) by (simp_all add: algebra_simps)
  show ?thesis
  proof (cases "start < (role + 1) * bs \<and> role * bs < e")
    case True
    have "(if start < role * bs then 0 else sub32 start (role * bs)) = start - role * bs"
      using True assms by auto
    moreover have "(if e > (role + 1) * bs then bs else sub32 e (role * bs)) = min e ((role + 1) * bs) - role * bs"
      using True assms by (auto simp: min_def)
    ultimately show ?thesis
      using True unfolding split_stripe_def r by simp
  next
    case False
    then show ?thesis unfolding split_stripe_def r by (simp only: if_False)
  qed
qed

lemma role_bound:
  assumes "role < k" "k * bs \<le> (n::nat)"
  shows "(role + 1) * bs \<le> n"
proof -
  have "(role + 1) * bs \<le> k * bs"
    using assms(1) by (intro mult_le_mono1) simp
  with assms(2) show ?thesis by simp
qed

lemma split_stripes_length [simp]: "length (split_stripes k bs start len st) = length st"
  by (simp add: split_stripes_def)

lemma split_stripes_nth:
  assumes "k \<le> length st" "k * bs \<le> U32_MAX" "start + len \<le> k * bs" "role < k"
    and "req_start (st ! role) = 0" "req_end (st ! role) = 0"
  shows "split_stripes k bs start len st ! role =
    (st ! role)\<lparr>req_start := fst (request_range bs start len role), req_end := snd (request_range bs start len role)\<rparr>"
proof (cases "len = 0")
  case True
  then show ?thesis
    using assms(5,6) by (simp add: split_stripes_def request_range_def)
next
  case False
  have "split_stripes k bs start len st ! role = split_stripe bs start (start + len) role (st ! role)"
    using assms False by (simp add: split_stripes_def fold_update_nth)
  also have "\<dots> = (st ! role)\<lparr>req_start := fst (request_range bs start len role),
      req_end := snd (request_range bs start len role)\<rparr>"
    using False assms(5,6)
    by (subst split_stripe_range [OF role_bound [OF assms(4,2)]]) (use assms(2,3) in \<open>auto simp: request_range_def\<close>)
  finally show ?thesis .
qed

lemma split_stripes_rest:
  assumes "k \<le> role" "role < length st"
  shows "split_stripes k bs start len st ! role = st ! role"
  using assms by (simp add: split_stripes_def fold_update_nth)

lemma request_range_wf:
  assumes "request_range bs start len role = (a, b)" "start + len \<le> k * bs"
  shows "b \<le> bs" "a = 0 \<and> b = 0 \<or> a < b"
  using assms by (auto simp: request_range_def split: if_splits)

text \<open>A byte of the object is in the request iff it is in the request of its chunk.\<close>

lemma request_range_iff:
  assumes "request_range bs start len role = (a, b)" "i < bs"
  shows "a \<le> i \<and> i < b \<longleftrightarrow> start \<le> role * bs + i \<and> role * bs + i < start + len"
  using assms by (auto simp: request_range_def split: if_splits)

section \<open>Ranges that cover others\<close>

text \<open>The bitmap, and the data range if there is one, that \<open>s\<close> reads is also read by \<open>o\<close>.\<close>

definition covers :: "osd_rmw_stripe \<Rightarrow> osd_rmw_stripe \<Rightarrow> bool" where
  "covers o' s \<longleftrightarrow> (read_end s \<noteq> 0 \<longrightarrow> read_end o' \<noteq> 0) \<and>
     (reads_data s \<longrightarrow> reads_data o' \<and> read_start o' \<le> read_start s \<and> read_end s \<le> read_end o')"

definition wf_read :: "nat \<Rightarrow> osd_rmw_stripe \<Rightarrow> bool" where
  "wf_read chunk_size s \<longleftrightarrow> (reads_data s \<longrightarrow> read_start s < read_end s \<and> read_end s \<le> chunk_size)"

text \<open>The fields other than the range to read and the \<open>missing\<close> mark.\<close>

definition same_plan :: "osd_rmw_stripe \<Rightarrow> osd_rmw_stripe \<Rightarrow> bool" where
  "same_plan s t \<longleftrightarrow> req_start t = req_start s \<and> req_end t = req_end s \<and> write_start t = write_start s \<and>
     write_end t = write_end s \<and> bmp_buf t = bmp_buf s \<and> read_buf t = read_buf s \<and> write_buf t = write_buf s"

definition grows :: "osd_rmw_stripe \<Rightarrow> osd_rmw_stripe \<Rightarrow> bool" where
  "grows s t \<longleftrightarrow> same_plan s t \<and> covers t s"

lemma covers_refl [simp]: "covers s s"
  by (simp add: covers_def)

lemma covers_trans: "covers u t \<Longrightarrow> covers t s \<Longrightarrow> covers u s"
  by (auto simp: covers_def)

lemma grows_refl [simp]: "grows s s"
  by (simp add: grows_def same_plan_def)

lemma grows_trans: "grows s t \<Longrightarrow> grows t u \<Longrightarrow> grows s u"
  by (auto simp: grows_def same_plan_def intro: covers_trans)

lemma grows_missing [simp]: "grows s (s\<lparr>missing := b\<rparr>)"
  by (simp add: grows_def same_plan_def covers_def reads_data_def)

lemma covers_missing [simp]:
  "covers (o'\<lparr>missing := b\<rparr>) s = covers o' s" "covers o' (s\<lparr>missing := b\<rparr>) = covers o' s"
  by (simp_all add: covers_def reads_data_def)

lemma wf_read_missing [simp]: "wf_read c (s\<lparr>missing := b\<rparr>) = wf_read c s"
  by (simp add: wf_read_def reads_data_def)

lemma extend_read_missing [simp]: "missing (extend_read a b s) = missing s"
  by (simp add: extend_read_def Let_def)

lemma extend_read_same_plan: "same_plan s (extend_read a b s)"
  by (simp add: extend_read_def same_plan_def Let_def)

lemma extend_read_covers:
  assumes "b \<le> U32_MAX"
  shows "covers (extend_read a b s) s"
  using assms by (auto simp: extend_read_def covers_def reads_data_def Let_def)

lemma extend_read_grows: "b \<le> U32_MAX \<Longrightarrow> grows s (extend_read a b s)"
  by (simp add: grows_def extend_read_same_plan extend_read_covers)

lemma extend_read_covers_other: "covers (extend_read (read_start s) (read_end s) o') s"
  by (auto simp: extend_read_def covers_def reads_data_def Let_def)

lemma extend_read_wf:
  assumes "wf_read c s" "wf_read c o'"
  shows "wf_read c (extend_read (read_start s) (read_end s) o')"
  using assms by (auto simp: extend_read_def wf_read_def reads_data_def Let_def)

section \<open>Reading from the first existing chunks\<close>

definition exist_count :: "osd_set \<Rightarrow> nat \<Rightarrow> nat" where
  "exist_count osd_set n = length (filter (\<lambda>j. osd_set ! j \<noteq> 0) [0..<n])"

definition chosen :: "osd_set \<Rightarrow> nat \<Rightarrow> nat \<Rightarrow> bool" where
  "chosen osd_set k j \<longleftrightarrow> osd_set ! j \<noteq> 0 \<and> exist_count osd_set j < k"

lemma exist_count_simps [simp]:
  "exist_count osd_set 0 = 0"
  "exist_count osd_set (Suc n) = exist_count osd_set n + (if osd_set ! n \<noteq> 0 then 1 else 0)"
  by (simp_all add: exist_count_def)

lemma exist_count_le: "exist_count osd_set n \<le> n"
  by (induction n) auto

lemma exist_count_missing: "r < n \<Longrightarrow> osd_set ! r = 0 \<Longrightarrow> exist_count osd_set n \<le> n - 1"
proof (induction n)
  case (Suc n)
  then show ?case
    using exist_count_le [of osd_set n] by (cases "r = n") auto
qed simp

lemma exist_count_mono: "i \<le> j \<Longrightarrow> exist_count osd_set i \<le> exist_count osd_set j"
  by (induction j) (auto simp: le_Suc_eq)

lemma exist_count_split: "i \<le> n \<Longrightarrow> exist_count osd_set n \<le> exist_count osd_set i + (n - i)"
  by (induction n) (auto simp: le_Suc_eq Suc_diff_le)

lemma two_missing:
  assumes "r < n" "osd_set ! r = 0" "s < n" "osd_set ! s = 0" "r < s"
  shows "exist_count osd_set n \<le> n - 2"
proof -
  have "exist_count osd_set n \<le> exist_count osd_set (Suc s) + (n - Suc s)"
    using assms by (intro exist_count_split) simp
  moreover have "exist_count osd_set s \<le> s - 1"
    using assms by (intro exist_count_missing)
  ultimately show ?thesis
    using assms by simp
qed

text \<open>When all but one of \<open>k + 1\<close> chunks exist, all of them are chosen.\<close>

lemma chosen_all_others:
  assumes "k \<le> exist_count osd_set (k + 1)" "r < k + 1" "osd_set ! r = 0" "j < k + 1" "j \<noteq> r"
  shows "chosen osd_set k j"
proof -
  have "osd_set ! j \<noteq> 0"
  proof
    assume "osd_set ! j = 0"
    with assms two_missing [of r "k + 1" osd_set j] two_missing [of j "k + 1" osd_set r]
    show False by (cases "r < j") auto
  qed
  moreover have "exist_count osd_set (Suc j) \<le> exist_count osd_set (k + 1)"
    using assms by (intro exist_count_mono) simp
  moreover have "exist_count osd_set (k + 1) \<le> k"
    using exist_count_missing [OF assms(2,3)] by simp
  ultimately show ?thesis
    by (simp add: chosen_def)
qed

lemma extend_to_existing_spec:
  assumes "osd_set ! role = 0" "role < length st" "n \<le> length st"
  shows "snd (extend_to_existing role osd_set k n st) = min k (exist_count osd_set n)"
    "length (fst (extend_to_existing role osd_set k n st)) = length st"
    "j < length st \<Longrightarrow> fst (extend_to_existing role osd_set k n st) ! j =
      (if j < n \<and> chosen osd_set k j then extend_read (read_start (st ! role)) (read_end (st ! role)) (st ! j) else st ! j)"
proof -
  have "snd (extend_to_existing role osd_set k n st) = min k (exist_count osd_set n) \<and>
    length (fst (extend_to_existing role osd_set k n st)) = length st \<and>
    (\<forall>j<length st. fst (extend_to_existing role osd_set k n st) ! j =
      (if j < n \<and> chosen osd_set k j then extend_read (read_start (st ! role)) (read_end (st ! role)) (st ! j) else st ! j))"
    using assms(3)
  proof (induction n)
    case 0
    then show ?case by (simp add: extend_to_existing_def)
  next
    case (Suc n)
    obtain st' e where se: "extend_to_existing role osd_set k n st = (st', e)"
      by fastforce
    have step: "extend_to_existing role osd_set k (Suc n) st =
        (if e < k \<and> osd_set ! n \<noteq> 0
         then (st'[n := extend_read (read_start (st' ! role)) (read_end (st' ! role)) (st' ! n)], e + 1)
         else (st', e))"
      using se by (simp add: extend_to_existing_def)
    have IH: "e = min k (exist_count osd_set n)" "length st' = length st"
      "\<And>j. j < length st \<Longrightarrow> st' ! j = (if j < n \<and> chosen osd_set k j
         then extend_read (read_start (st ! role)) (read_end (st ! role)) (st ! j) else st ! j)"
      using Suc se by auto
    have r: "st' ! role = st ! role"
      using IH(3) [OF assms(2)] assms(1) by (simp add: chosen_def)
    show ?case
      using Suc.prems IH(1,2) unfolding step
      by (auto simp: r IH(3) nth_list_update less_Suc_eq chosen_def min_def)
  qed
  then show "snd (extend_to_existing role osd_set k n st) = min k (exist_count osd_set n)"
    "length (fst (extend_to_existing role osd_set k n st)) = length st"
    "j < length st \<Longrightarrow> fst (extend_to_existing role osd_set k n st) ! j =
      (if j < n \<and> chosen osd_set k j then extend_read (read_start (st ! role)) (read_end (st ! role)) (st ! j) else st ! j)"
    by blast+
qed

section \<open>Recovering the missing chunks\<close>

text \<open>The first \<open>m\<close> roles are done: ranges only grew, those of missing chunks not at all, and whatever
  a missing chunk needs is read from all the chosen ones.\<close>

definition recovery :: "osd_set \<Rightarrow> nat \<Rightarrow> nat \<Rightarrow> nat \<Rightarrow> nat \<Rightarrow> stripes \<Rightarrow> stripes \<Rightarrow> bool" where
  "recovery osd_set c k n m st0 st \<longleftrightarrow> length st = length st0 \<and>
     (\<forall>j<length st. grows (st0 ! j) (st ! j) \<and> wf_read c (st ! j) \<and>
        (missing (st ! j) \<longrightarrow> missing (st0 ! j) \<or> osd_set ! j = 0) \<and>
        (osd_set ! j = 0 \<longrightarrow> read_start (st ! j) = read_start (st0 ! j) \<and> read_end (st ! j) = read_end (st0 ! j))) \<and>
     (\<forall>r<m. osd_set ! r = 0 \<and> read_end (st0 ! r) \<noteq> 0 \<longrightarrow>
        missing (st ! r) \<and> (\<forall>j<n. chosen osd_set k j \<longrightarrow> covers (st ! j) (st ! r)))"

lemma recoveryD:
  assumes "recovery osd_set c k n m st0 st"
  shows "length st = length st0"
    and "\<And>j. j < length st \<Longrightarrow> grows (st0 ! j) (st ! j)"
    and "\<And>j. j < length st \<Longrightarrow> wf_read c (st ! j)"
    and "\<And>j. j < length st \<Longrightarrow> missing (st ! j) \<Longrightarrow> missing (st0 ! j) \<or> osd_set ! j = 0"
    and "\<And>j. j < length st \<Longrightarrow> osd_set ! j = 0 \<Longrightarrow> read_end (st ! j) = read_end (st0 ! j)"
    and "\<And>r j. r < m \<Longrightarrow> osd_set ! r = 0 \<Longrightarrow> read_end (st0 ! r) \<noteq> 0 \<Longrightarrow> missing (st ! r)"
    and "\<And>r j. r < m \<Longrightarrow> osd_set ! r = 0 \<Longrightarrow> read_end (st0 ! r) \<noteq> 0 \<Longrightarrow> j < n \<Longrightarrow> chosen osd_set k j \<Longrightarrow>
      covers (st ! j) (st ! r)"
  using assms unfolding recovery_def by blast+

lemma recovery_start:
  assumes "\<And>j. j < length st \<Longrightarrow> wf_read c (st ! j)"
  shows "recovery osd_set c k n 0 st st"
  using assms by (simp add: recovery_def)

lemma recovery_skip:
  assumes "recovery osd_set c k n m st0 st" "osd_set ! m \<noteq> 0 \<or> read_end (st0 ! m) = 0"
  shows "recovery osd_set c k n (Suc m) st0 st"
  using assms by (auto simp: recovery_def less_Suc_eq)

lemma recovery_mark:
  assumes "recovery osd_set c k n m st0 st" "osd_set ! i = 0"
  shows "recovery osd_set c k n m st0 (st[i := (st ! i)\<lparr>missing := True\<rparr>])"
proof (cases "i < length st")
  case True
  let ?u = "st[i := (st ! i)\<lparr>missing := True\<rparr>]"
  have cov: "covers (?u ! j) (?u ! r) = covers (st ! j) (st ! r)" for j r
    using True by (cases "j = i"; cases "r = i") simp_all
  show ?thesis
    using assms True unfolding recovery_def cov by (auto simp: nth_list_update intro: grows_trans [OF _ grows_missing])
next
  case False
  with assms show ?thesis
    by (simp add: list_update_beyond)
qed

lemma recovery_step:
  assumes rec: "recovery osd_set c k n m st0 st" and m: "osd_set ! m = 0" "m < length st" "missing (st ! m)"
    and n: "n \<le> length st" and c: "c < U32_MAX"
    and re: "\<And>j. j < length st0 \<Longrightarrow> osd_set ! j = 0 \<Longrightarrow> read_end (st0 ! j) \<le> U32_MAX"
  shows "recovery osd_set c k n (Suc m) st0 (fst (extend_to_existing m osd_set k n st))"
proof -
  let ?u = "fst (extend_to_existing m osd_set k n st)"
  note ex = extend_to_existing_spec [OF m(1,2) n, where k = k]
  have u: "?u ! j = (if j < n \<and> chosen osd_set k j
      then extend_read (read_start (st ! m)) (read_end (st ! m)) (st ! j) else st ! j)" if "j < length st" for j
    using ex(3) that by blast
  have gap: "?u ! j = st ! j" if "j < length st" "osd_set ! j = 0" for j
    using u [OF that(1)] that(2) by (simp add: chosen_def)
  have b: "read_end (st ! m) \<le> U32_MAX"
    using recoveryD(1,5) [OF rec] m re by metis
  have g: "grows (st ! j) (?u ! j)" if "j < length st" for j
    using extend_read_grows [OF b] u [OF that] by simp
  have "grows (st0 ! j) (?u ! j)" if "j < length st" for j
    using grows_trans [OF recoveryD(2) [OF rec that] g [OF that]] .
  moreover have "wf_read c (?u ! j)" if "j < length st" for j
    using u [OF that] extend_read_wf [of c "st ! m" "st ! j"] recoveryD(3) [OF rec] that m(2) by simp
  moreover have "missing (?u ! j) = missing (st ! j)" if "j < length st" for j
    using u [OF that] by simp
  moreover have "covers (?u ! j) (?u ! r)" if r: "r < Suc m" "osd_set ! r = 0" "read_end (st0 ! r) \<noteq> 0"
    and j: "j < n" "chosen osd_set k j" for j r
  proof (cases "r = m")
    case True
    then show ?thesis
      using u [of j] gap [of m] m j n by (simp add: extend_read_covers_other)
  next
    case False
    then have "covers (st ! j) (st ! r)"
      using recoveryD(7) [OF rec, of r j] r j by simp
    moreover have "covers (?u ! j) (st ! j)"
      using g [of j] j n by (simp add: grows_def)
    ultimately show ?thesis
      using gap [of r] r m(2) covers_trans by simp
  qed
  ultimately show ?thesis
    using rec m(3) m(2) ex(2) gap unfolding recovery_def
    by (auto simp: less_Suc_eq)
qed

lemma recovery_mark_step:
  assumes "recovery osd_set c k n m st0 st" "osd_set ! m = 0" "m < n" "n \<le> length st0" "c < U32_MAX"
    and "\<And>j. j < length st0 \<Longrightarrow> read_end (st0 ! j) \<le> U32_MAX"
  shows "recovery osd_set c k n (Suc m) st0
      (fst (extend_to_existing m osd_set k n (st[m := (st ! m)\<lparr>missing := True\<rparr>])))"
    "snd (extend_to_existing m osd_set k n (st[m := (st ! m)\<lparr>missing := True\<rparr>])) = min k (exist_count osd_set n)"
proof -
  let ?v = "st[m := (st ! m)\<lparr>missing := True\<rparr>]"
  have rec: "recovery osd_set c k n m st0 ?v"
    by (rule recovery_mark [OF assms(1,2)])
  have v: "m < length ?v" "n \<le> length ?v" "missing (?v ! m)"
    using assms(3,4) recoveryD(1) [OF assms(1)] by simp_all
  show "recovery osd_set c k n (Suc m) st0 (fst (extend_to_existing m osd_set k n ?v))"
    by (rule recovery_step [OF rec assms(2) v(1,3,2) assms(5)]) (rule assms(6))
  show "snd (extend_to_existing m osd_set k n ?v) = min k (exist_count osd_set n)"
    by (rule extend_to_existing_spec [OF assms(2) v(1,2)])
qed

lemma extend_missing_recovery:
  assumes "\<And>j. j < length st \<Longrightarrow> wf_read c (st ! j)" "\<And>j. j < length st \<Longrightarrow> read_end (st ! j) \<le> U32_MAX"
    and "n \<le> length st" "m \<le> n" "c < U32_MAX"
    and "fold (extend_missing_step osd_set k n) [0..<m] (st, True) = (st', ok)"
  shows "(ok \<longrightarrow> recovery osd_set c k n m st st') \<and>
    (ok \<longleftrightarrow> (\<forall>r<m. osd_set ! r = 0 \<and> read_end (st ! r) \<noteq> 0 \<longrightarrow> k \<le> exist_count osd_set n))"
  using assms(4,6)
proof (induction m arbitrary: st' ok)
  case 0
  then show ?case using recovery_start [OF assms(1)] by simp
next
  case (Suc m)
  obtain u b where ub: "fold (extend_missing_step osd_set k n) [0..<m] (st, True) = (u, b)"
    by fastforce
  then have step: "extend_missing_step osd_set k n m (u, b) = (st', ok)"
    using Suc.prems by simp
  have IH: "b \<longrightarrow> recovery osd_set c k n m st u"
    "b \<longleftrightarrow> (\<forall>r<m. osd_set ! r = 0 \<and> read_end (st ! r) \<noteq> 0 \<longrightarrow> k \<le> exist_count osd_set n)"
    using Suc.IH [OF _ ub] Suc.prems by simp_all
  show ?case
  proof (cases "b \<and> osd_set ! m = 0")
    case True
    then have rec: "recovery osd_set c k n m st u" using IH by simp
    have re: "read_end (u ! m) = read_end (st ! m)"
      using recoveryD(5) [OF rec, of m] recoveryD(1) [OF rec] True Suc.prems assms(3) by simp
    have m: "m < n" using Suc.prems by simp
    show ?thesis
      using step recovery_mark_step [OF rec _ m assms(3,5,2)] recovery_skip [OF rec] True IH(2)
      by (auto simp: extend_missing_step_def re less_Suc_eq split: prod.splits if_splits)
  next
    case False
    then have "st' = u" "ok = b"
      using step by (auto simp: extend_missing_step_def)
    then show ?thesis
      using False IH recovery_skip by (auto simp: less_Suc_eq)
  qed
qed

lemma rmw_missing_recovery:
  assumes "\<And>j. j < length st \<Longrightarrow> wf_read c (st ! j)" "\<And>j. j < length st \<Longrightarrow> read_end (st ! j) \<le> U32_MAX"
    and "n \<le> length st" "m \<le> n" "c < U32_MAX"
    and "fold (rmw_missing_step osd_set k n) [0..<m] (st, True) = (st', ok)"
  shows "(ok \<longrightarrow> recovery osd_set c k n m st st') \<and>
    (ok \<longleftrightarrow> (\<forall>r<m. osd_set ! r = 0 \<and> read_end (st ! r) \<noteq> 0 \<longrightarrow> k \<le> exist_count osd_set n))"
  using assms(4,6)
proof (induction m arbitrary: st' ok)
  case 0
  then show ?case using recovery_start [OF assms(1)] by simp
next
  case (Suc m)
  obtain u b where ub: "fold (rmw_missing_step osd_set k n) [0..<m] (st, True) = (u, b)"
    by fastforce
  then have step: "rmw_missing_step osd_set k n m (u, b) = (st', ok)"
    using Suc.prems by simp
  have IH: "b \<longrightarrow> recovery osd_set c k n m st u"
    "b \<longleftrightarrow> (\<forall>r<m. osd_set ! r = 0 \<and> read_end (st ! r) \<noteq> 0 \<longrightarrow> k \<le> exist_count osd_set n)"
    using Suc.IH [OF _ ub] Suc.prems by simp_all
  show ?case
  proof (cases "b \<and> osd_set ! m = 0")
    case True
    then have rec: "recovery osd_set c k n m st u" using IH by simp
    have m: "m < length u" "m < n"
      using recoveryD(1) [OF rec] Suc.prems assms(3) by simp_all
    have re: "read_end (u ! m) = read_end (st ! m)"
      using recoveryD(5) [OF rec m(1)] True by simp
    show ?thesis
      using step m recovery_mark_step [OF rec _ m(2) assms(3,5,2)]
        recovery_skip [OF recovery_mark [OF rec, of m]] True IH(2)
      by (auto simp: rmw_missing_step_def re less_Suc_eq Let_def split: prod.splits if_splits)
  next
    case False
    then have "st' = u" "ok = b"
      using step by (auto simp: rmw_missing_step_def)
    then show ?thesis
      using False IH recovery_skip by (auto simp: less_Suc_eq)
  qed
qed

end
