(* ===== verification/Rmw_Ranges.thy ===== *)
theory Rmw_Ranges
  imports Rmw_Plan
begin

text \<open>
  The ranges \<open>calc_rmw\<close> decides on, loop by loop: the hull of the request, the range of the parity
  chunks, what is read of every data chunk. \<open>rmw_ranges_plan\<close> collects what the computation of the
  new chunks relies on.
\<close>

section \<open>The hull of the request\<close>

definition wf_req :: "nat \<Rightarrow> osd_rmw_stripe \<Rightarrow> bool" where
  "wf_req c s \<longleftrightarrow> (req_start s = 0 \<and> req_end s = 0 \<or> req_start s < req_end s) \<and> req_end s \<le> c"

definition is_hull :: "nat \<Rightarrow> nat \<Rightarrow> stripes \<Rightarrow> nat \<times> nat \<Rightarrow> bool" where
  "is_hull c m st = (\<lambda>(s, e). e \<le> c \<and> (e = 0 \<and> s = 0 \<or> s < e) \<and>
     (\<forall>j<m. req_end (st ! j) \<noteq> 0 \<longrightarrow> s \<le> req_start (st ! j) \<and> req_end (st ! j) \<le> e) \<and>
     (e = 0 \<longrightarrow> (\<forall>j<m. req_end (st ! j) = 0)))"

lemma copy_mod_hull_correct:
  assumes "\<And>j. j < m \<Longrightarrow> wf_req c (st ! j)"
  shows "is_hull c m st (fold (copy_mod_hull st) [0..<m] (0, 0))"
  using assms
proof (induction m)
  case (Suc m)
  obtain s e where se: "fold (copy_mod_hull st) [0..<m] (0, 0) = (s, e)" by fastforce
  then have "is_hull c m st (s, e)" using Suc by force
  moreover have "wf_req c (st ! m)" using Suc.prems by simp
  ultimately have "is_hull c (Suc m) st (copy_mod_hull st m (s, e))"
    by (auto simp: is_hull_def copy_mod_hull_def wf_req_def less_Suc_eq Let_def max_def)
  then show ?case
    using se by simp
qed (simp add: is_hull_def)

lemma copy_mod_hull_cong:
  assumes "\<And>j. j < m \<Longrightarrow> req_start (st ! j) = req_start (st' ! j) \<and> req_end (st ! j) = req_end (st' ! j)"
  shows "fold (copy_mod_hull st) [0..<m] se = fold (copy_mod_hull st') [0..<m] se"
  using assms by (intro fold_cong) (auto simp: copy_mod_hull_def Let_def)

definition with_write :: "nat \<Rightarrow> nat \<Rightarrow> osd_rmw_stripe \<Rightarrow> osd_rmw_stripe" where
  "with_write a b s = s\<lparr>write_start := a, write_end := b\<rparr>"

lemma rmw_hull_fold:
  assumes "m \<le> length st" "fold rmw_hull_step [0..<m] (st, 0, 0) = (st', se)"
  shows "length st' = length st \<and> se = fold (copy_mod_hull st) [0..<m] (0, 0) \<and>
    (\<forall>j<length st. st' ! j =
      (if j < m \<and> req_end (st ! j) \<noteq> 0 then with_write (req_start (st ! j)) (req_end (st ! j)) (st ! j) else st ! j))"
  using assms
proof (induction m arbitrary: st' se)
  case (Suc m)
  obtain u s e where u: "fold rmw_hull_step [0..<m] (st, 0, 0) = (u, s, e)"
    by (metis prod_cases3)
  then have IH: "length u = length st" "(s, e) = fold (copy_mod_hull st) [0..<m] (0, 0)"
    "\<And>j. j < length st \<Longrightarrow> u ! j = (if j < m \<and> req_end (st ! j) \<noteq> 0
      then with_write (req_start (st ! j)) (req_end (st ! j)) (st ! j) else st ! j)"
    using Suc.IH [of u "(s, e)"] Suc.prems by auto
  have m: "u ! m = st ! m" using IH(3) [of m] Suc.prems by simp
  have step: "rmw_hull_step m (u, s, e) = (st', se)" using Suc.prems u by simp
  have "se = copy_mod_hull st m (s, e)"
    using step m by (auto simp: rmw_hull_step_def copy_mod_hull_def Let_def split: if_splits)
  moreover have "st' = (if req_end (st ! m) \<noteq> 0
      then u[m := with_write (req_start (st ! m)) (req_end (st ! m)) (st ! m)] else u)"
    using step m by (auto simp: rmw_hull_step_def with_write_def Let_def split: if_splits)
  ultimately show ?case
    using IH Suc.prems(1) by (auto simp: nth_list_update less_Suc_eq)
qed simp

section \<open>The parity range\<close>

lemma parity_moved_Suc:
  "k \<le> m \<Longrightarrow> parity_moved rs ws k (Suc m) \<longleftrightarrow> parity_moved rs ws k m \<or> ws ! m \<noteq> 0 \<and> ws ! m \<noteq> rs ! m"
  by (auto simp: parity_moved_def)

lemma parity_required_Suc:
  "k \<le> m \<Longrightarrow> parity_required ws k (Suc m) \<longleftrightarrow> parity_required ws k m \<or> ws ! m \<noteq> 0"
  by (auto simp: parity_required_def)

lemma parity_write_fold:
  fixes ws :: osd_set and c k :: nat
  defines "f \<equiv> \<lambda>r2 st. if ws ! r2 \<noteq> 0 then st[r2 := (st ! r2)\<lparr>write_start := 0, write_end := c\<rparr>] else st"
  assumes "m \<le> length st"
  shows "length (fold f [k..<m] st) = length st \<and>
    (\<forall>j<length st. fold f [k..<m] st ! j = (if k \<le> j \<and> j < m \<and> ws ! j \<noteq> 0 then with_write 0 c (st ! j) else st ! j))"
  using assms(2)
proof (induction m)
  case (Suc m)
  show ?case
  proof (cases "k \<le> m")
    case True
    obtain u where u: "u = fold f [k..<m] st" by simp
    then have IH: "length u = length st"
      "\<And>j. j < length st \<Longrightarrow> u ! j = (if k \<le> j \<and> j < m \<and> ws ! j \<noteq> 0 then with_write 0 c (st ! j) else st ! j)"
      using Suc by simp_all
    have "fold f [k..<Suc m] st = f m u"
      using True by (simp add: u)
    also have "\<dots> = (if ws ! m \<noteq> 0 then u[m := with_write 0 c (st ! m)] else u)"
      using IH(2) [of m] Suc.prems by (simp add: f_def with_write_def)
    finally show ?thesis
      using IH True Suc.prems by (simp add: nth_list_update less_Suc_eq)
  next
    case False
    then have e: "[k..<Suc m] = []" and n: "\<And>j. \<not> (k \<le> j \<and> j < Suc m)" by auto
    show ?thesis unfolding e using n by auto
  qed
qed simp

lemma rmw_parity_fold:
  assumes "k \<le> m" "m \<le> length st" "c \<le> U32_MAX"
    and "fold (rmw_parity_step rs ws k c) [k..<m] (st, s, e, 0) = (st', s', e', wp)"
  shows "length st' = length st \<and> (s', e') = (if parity_moved rs ws k m then (0, c) else (s, e)) \<and>
    (wp \<noteq> 0 \<longleftrightarrow> parity_required ws k m) \<and> wp \<le> m - k \<and>
    (\<forall>j<length st. st' ! j = (if k \<le> j \<and> j < m \<and> ws ! j \<noteq> 0 then with_write s' e' (st ! j) else st ! j))"
  using assms
proof (induction m arbitrary: st' s' e' wp rule: dec_induct)
  case base
  then show ?case by (auto simp: parity_moved_def parity_required_def)
next
  case (step m)
  obtain u s1 e1 w1 where u: "fold (rmw_parity_step rs ws k c) [k..<m] (st, s, e, 0) = (u, s1, e1, w1)"
    by (metis prod_cases4)
  then have IH: "length u = length st" "(s1, e1) = (if parity_moved rs ws k m then (0, c) else (s, e))"
    "w1 \<noteq> 0 \<longleftrightarrow> parity_required ws k m" "w1 \<le> m - k"
    "\<And>j. j < length st \<Longrightarrow> u ! j = (if k \<le> j \<and> j < m \<and> ws ! j \<noteq> 0 then with_write s1 e1 (st ! j) else st ! j)"
    using step.IH [OF _ assms(3) u] step.prems by auto
  have c: "c mod 2 ^ 32 = c" using assms(3) by simp
  let ?v = "fold (\<lambda>r2 st. if ws ! r2 \<noteq> 0 then st[r2 := (st ! r2)\<lparr>write_start := 0, write_end := c\<rparr>] else st) [k..<m] u"
  have v: "length ?v = length st"
    "\<And>j. j < length st \<Longrightarrow> ?v ! j = (if k \<le> j \<and> j < m \<and> ws ! j \<noteq> 0 then with_write 0 c (st ! j) else st ! j)"
    using parity_write_fold [of m u ws c k] step.prems IH(1,5) by (auto simp: with_write_def)
  have st: "rmw_parity_step rs ws k c m (u, s1, e1, w1) = (st', s', e', wp)"
    using step.prems step.hyps u by simp
  consider (skip) "ws ! m = 0" | (move) "ws ! m \<noteq> 0" "ws ! m \<noteq> rs ! m" | (keep) "ws ! m \<noteq> 0" "ws ! m = rs ! m" by blast
  then show ?case
  proof cases
    case skip
    then show ?thesis
      using st IH step.hyps by (auto simp: rmw_parity_step_def parity_moved_Suc parity_required_Suc less_Suc_eq)
  next
    case move
    have "st' = ?v[m := (?v ! m)\<lparr>write_start := 0, write_end := c\<rparr>]" and eq: "s' = 0" "e' = c" "wp = w1 + 1"
      using st move unfolding rmw_parity_step_def c by (auto simp: Let_def)
    then have "st' = ?v[m := with_write 0 c (st ! m)]"
      using v(2) [of m] step.prems by (simp add: with_write_def)
    moreover obtain v' where "v' = ?v" by simp
    ultimately show ?thesis
      using move v IH(4) step.hyps step.prems eq
      by (simp add: parity_moved_Suc parity_required_Suc nth_list_update less_Suc_eq)
  next
    case keep
    have "st' = u[m := (u ! m)\<lparr>write_start := s1, write_end := e1\<rparr>]" and eq: "s' = s1" "e' = e1" "wp = w1 + 1"
      using st keep by (auto simp: rmw_parity_step_def Let_def)
    then have "st' = u[m := with_write s1 e1 (st ! m)]"
      using IH(5) [of m] step.prems by (simp add: with_write_def)
    then show ?thesis
      using keep IH step.hyps step.prems eq
      by (simp add: parity_moved_Suc parity_required_Suc nth_list_update less_Suc_eq)
  qed
qed

section \<open>What is read of a data chunk\<close>

text \<open>Inside the range \<open>s..e\<close> every byte is either overwritten by the request or read.\<close>

definition range_known :: "nat \<Rightarrow> nat \<Rightarrow> osd_rmw_stripe \<Rightarrow> bool" where
  "range_known s e t \<longleftrightarrow> (\<forall>i. s \<le> i \<and> i < e \<longrightarrow>
     req_start t \<le> i \<and> i < req_end t \<or> reads_data t \<and> read_start t \<le> i \<and> i < read_end t)"

definition whole_request :: "nat \<Rightarrow> osd_rmw_stripe \<Rightarrow> bool" where
  "whole_request c t \<longleftrightarrow> req_start t = 0 \<and> req_end t = c"

lemma range_known_grows: "range_known s e t \<Longrightarrow> grows t u \<Longrightarrow> range_known s e u"
  by (fastforce simp: range_known_def grows_def same_plan_def covers_def)

lemma whole_request_grows: "grows t u \<Longrightarrow> whole_request c u = whole_request c t"
  by (simp add: whole_request_def grows_def same_plan_def)

lemma cover_read_correct:
  assumes "wf_req c t" "read_end t = 0" "c < U32_MAX" "e = 0 \<and> s = 0 \<or> s < e" "e \<le> c"
  shows "same_plan t (cover_read s e t)" "missing (cover_read s e t) = missing t" "range_known s e (cover_read s e t)"
    "wf_read c (cover_read s e t)" "read_end (cover_read s e t) \<le> c"
  using assms by (auto simp: cover_read_def same_plan_def range_known_def reads_data_def wf_read_def wf_req_def)

lemma rmw_cover_stripe_correct:
  assumes "wf_req c t" "read_end t = 0" "c < U32_MAX" "e = 0 \<and> s = 0 \<or> s < e" "e \<le> c"
  defines "u \<equiv> rmw_cover_stripe s e c t"
  shows "same_plan t u" "missing u = missing t" "range_known s e u" "wf_read c u" "read_end u \<le> U32_MAX"
    "read_end u = 0 \<Longrightarrow> whole_request c u"
proof -
  let ?v = "cover_read s e t"
  note v = cover_read_correct [OF assms(1-5)]
  have u: "u = (if read_end ?v = 0 \<and> (req_start ?v \<noteq> 0 \<or> req_end ?v \<noteq> c) then ?v\<lparr>read_end := U32_MAX\<rparr> else ?v)"
    by (simp add: u_def rmw_cover_stripe_def Let_def)
  show "same_plan t u" "missing u = missing t"
    using v(1,2) by (simp_all add: u same_plan_def)
  show "range_known s e u" "wf_read c u"
    using v(3,4) by (auto simp: u range_known_def wf_read_def reads_data_def)
  show "read_end u \<le> U32_MAX"
    using v(5) assms(3) by (simp add: u)
  show "read_end u = 0 \<Longrightarrow> whole_request c u"
    by (auto simp: u whole_request_def split: if_splits)
qed

section \<open>Chunks that move\<close>

definition chunk_moves :: "osd_set \<Rightarrow> osd_set \<Rightarrow> nat \<Rightarrow> bool" where
  "chunk_moves rs ws role \<longleftrightarrow> ws ! role \<noteq> rs ! role \<and> ws ! role \<noteq> 0"

definition with_read :: "nat \<Rightarrow> nat \<Rightarrow> osd_rmw_stripe \<Rightarrow> osd_rmw_stripe" where
  "with_read a b s = s\<lparr>read_start := a, read_end := b\<rparr>"

lemma rmw_moved_fold:
  assumes "m \<le> length st" "c \<le> U32_MAX" "fold (rmw_moved_step rs ws k c) [0..<m] (st, 0) = (st', n)"
  shows "length st' = length st \<and> n = exist_count rs m \<and>
    (\<forall>j<length st. st' ! j =
      (if j < m \<and> j < k \<and> chunk_moves rs ws j \<and> \<not> whole_request c (st ! j) then with_read 0 c (st ! j) else st ! j))"
  using assms
proof (induction m arbitrary: st' n)
  case (Suc m)
  obtain u n1 where u: "fold (rmw_moved_step rs ws k c) [0..<m] (st, 0) = (u, n1)" by fastforce
  then have IH: "length u = length st" "n1 = exist_count rs m"
    "\<And>j. j < length st \<Longrightarrow> u ! j = (if j < m \<and> j < k \<and> chunk_moves rs ws j \<and> \<not> whole_request c (st ! j)
      then with_read 0 c (st ! j) else st ! j)"
    using Suc.IH [OF _ assms(2) u] Suc.prems by auto
  have c: "c mod 2 ^ 32 = c" using assms(2) by simp
  have m: "u ! m = st ! m" using IH(3) [of m] Suc.prems by simp
  have "rmw_moved_step rs ws k c m (u, n1) = (st', n)"
    using Suc.prems u by simp
  then have "st' = (if m < k \<and> chunk_moves rs ws m \<and> \<not> whole_request c (st ! m)
      then u[m := with_read 0 c (st ! m)] else u)" "n = (if rs ! m \<noteq> 0 then n1 + 1 else n1)"
    unfolding rmw_moved_step_def c chunk_moves_def whole_request_def with_read_def by (auto simp: m Let_def)
  then show ?case
    using IH Suc.prems(1) by (auto simp: nth_list_update less_Suc_eq)
qed simp

end
