(* ===== verification/Rmw_Layout.thy ===== *)
theory Rmw_Layout
  imports Rmw_Ranges
begin

text \<open>
  \<open>rmw_ranges\<close> as a whole (\<open>rmw_ranges_plan\<close>) and the placement of the buffers in memory.
\<close>

section \<open>The plan\<close>

definition parity_range :: "osd_set \<Rightarrow> osd_set \<Rightarrow> nat \<Rightarrow> nat \<Rightarrow> nat \<Rightarrow> stripes \<Rightarrow> nat \<times> nat" where
  "parity_range rs ws k n c st = (if parity_moved rs ws k n then (0, c) else fold (copy_mod_hull st) [0..<k] (0, 0))"

text \<open>What \<open>calc_rmw\<close> is called with: a request inside the data chunks, nothing read yet.\<close>

definition rmw_input :: "nat \<Rightarrow> nat \<Rightarrow> nat \<Rightarrow> stripes \<Rightarrow> bool" where
  "rmw_input c k n st \<longleftrightarrow> length st = n \<and> k \<le> n \<and> 0 < c \<and> c < U32_MAX \<and>
     (\<forall>j<n. read_end (st ! j) = 0 \<and> write_end (st ! j) = 0 \<and> \<not> missing (st ! j) \<and> wf_req c (st ! j)) \<and>
     (\<forall>j<n. k \<le> j \<longrightarrow> req_end (st ! j) = 0)"

definition same_input :: "osd_rmw_stripe \<Rightarrow> osd_rmw_stripe \<Rightarrow> bool" where
  "same_input s t \<longleftrightarrow> req_start t = req_start s \<and> req_end t = req_end s \<and> bmp_buf t = bmp_buf s"

definition planned_write :: "osd_set \<Rightarrow> nat \<Rightarrow> nat \<Rightarrow> nat \<Rightarrow> nat \<Rightarrow> osd_rmw_stripe \<Rightarrow> bool" where
  "planned_write ws k s e j t \<longleftrightarrow>
     (j < k \<and> req_end t \<noteq> 0 \<longrightarrow> write_start t = req_start t \<and> write_end t = req_end t) \<and>
     (j < k \<and> req_end t = 0 \<longrightarrow> write_end t = 0) \<and>
     (k \<le> j \<and> ws ! j \<noteq> 0 \<longrightarrow> write_start t = s \<and> write_end t = e)"

definition planned_read :: "osd_set \<Rightarrow> osd_set \<Rightarrow> nat \<Rightarrow> nat \<Rightarrow> nat \<Rightarrow> nat \<Rightarrow> nat \<Rightarrow> bool \<Rightarrow> nat \<Rightarrow> osd_rmw_stripe \<Rightarrow> bool" where
  "planned_read rs ws c k n s e moved j t \<longleftrightarrow> j < k \<longrightarrow>
     (parity_required ws k n \<longrightarrow> range_known s e t \<and> (read_end t = 0 \<longrightarrow> whole_request c t)) \<and>
     (moved \<and> chunk_moves rs ws j \<longrightarrow> whole_request c t \<or> read_start t = 0 \<and> read_end t = c)"

definition rmw_plan :: "osd_set \<Rightarrow> osd_set \<Rightarrow> nat \<Rightarrow> nat \<Rightarrow> nat \<Rightarrow> bool \<Rightarrow> stripes \<Rightarrow> nat \<Rightarrow> nat \<Rightarrow> stripes \<Rightarrow> bool" where
  "rmw_plan rs ws c k n moved st0 s e st \<longleftrightarrow> length st = n \<and>
     (\<forall>j<n. same_input (st0 ! j) (st ! j) \<and> planned_write ws k s e j (st ! j) \<and>
        planned_read rs ws c k n s e moved j (st ! j) \<and> wf_read c (st ! j) \<and> (missing (st ! j) \<longrightarrow> rs ! j = 0)) \<and>
     (\<forall>r<n. rs ! r = 0 \<and> read_end (st ! r) \<noteq> 0 \<longrightarrow> missing (st ! r) \<and> k \<le> exist_count rs n \<and>
        (\<forall>j<n. chosen rs k j \<longrightarrow> covers (st ! j) (st ! r)))"

lemma rmw_planD:
  assumes "rmw_plan rs ws c k n moved st0 s e st"
  shows "length st = n"
    and "\<And>j. j < n \<Longrightarrow> same_input (st0 ! j) (st ! j)"
    and "\<And>j. j < n \<Longrightarrow> planned_write ws k s e j (st ! j)"
    and "\<And>j. j < n \<Longrightarrow> planned_read rs ws c k n s e moved j (st ! j)"
    and "\<And>j. j < n \<Longrightarrow> wf_read c (st ! j)"
    and "\<And>j. j < n \<Longrightarrow> missing (st ! j) \<Longrightarrow> rs ! j = 0"
    and "\<And>r. r < n \<Longrightarrow> rs ! r = 0 \<Longrightarrow> read_end (st ! r) \<noteq> 0 \<Longrightarrow> missing (st ! r)"
    and "\<And>r. r < n \<Longrightarrow> rs ! r = 0 \<Longrightarrow> read_end (st ! r) \<noteq> 0 \<Longrightarrow> k \<le> exist_count rs n"
    and "\<And>r j. r < n \<Longrightarrow> rs ! r = 0 \<Longrightarrow> read_end (st ! r) \<noteq> 0 \<Longrightarrow> j < n \<Longrightarrow> chosen rs k j \<Longrightarrow> covers (st ! j) (st ! r)"
  using assms unfolding rmw_plan_def by blast+

lemma same_input_grows: "same_input s t \<Longrightarrow> grows t u \<Longrightarrow> same_input s u"
  by (simp add: same_input_def grows_def same_plan_def)

lemma planned_write_grows: "planned_write ws k s e j t \<Longrightarrow> grows t u \<Longrightarrow> planned_write ws k s e j u"
  by (simp add: planned_write_def grows_def same_plan_def)

lemma planned_read_grows:
  assumes "planned_read rs ws c k n s e moved j t" "grows t u" "wf_read c u" "0 < c" "c < U32_MAX"
  shows "planned_read rs ws c k n s e moved j u"
proof -
  have "read_start u = 0 \<and> read_end u = c" if "read_start t = 0" "read_end t = c"
    using that assms(2-5) by (auto simp: grows_def covers_def reads_data_def wf_read_def)
  moreover have "read_end u = 0 \<longrightarrow> read_end t = 0"
    using assms(2) by (auto simp: grows_def covers_def)
  moreover have "range_known s e t \<longrightarrow> range_known s e u" "whole_request c u = whole_request c t"
    using range_known_grows [OF _ assms(2)] whole_request_grows [OF assms(2)] by blast+
  ultimately show ?thesis
    using assms(1) unfolding planned_read_def by auto
qed

text \<open>A chunk before the missing chunks are looked at: what is read of it besides is only the
  \<open>moved\<close> rule.\<close>

lemma moved_stripe_planned:
  assumes "planned_read rs ws c k n s e False j t" "0 < c" "c < U32_MAX" "e \<le> c" "wf_req c t"
  shows "planned_read rs ws c k n s e True j
    (if j < k \<and> chunk_moves rs ws j \<and> \<not> whole_request c t then with_read 0 c t else t)"
  using assms
  by (auto simp: planned_read_def with_read_def whole_request_def range_known_def reads_data_def)

definition drafted :: "osd_set \<Rightarrow> osd_set \<Rightarrow> nat \<Rightarrow> nat \<Rightarrow> nat \<Rightarrow> bool \<Rightarrow> stripes \<Rightarrow> nat \<Rightarrow> nat \<Rightarrow> nat \<Rightarrow> osd_rmw_stripe \<Rightarrow> bool" where
  "drafted rs ws c k n moved st0 s e j t \<longleftrightarrow> same_input (st0 ! j) t \<and> planned_write ws k s e j t \<and>
     planned_read rs ws c k n s e moved j t \<and> wf_read c t \<and> wf_req c t \<and> \<not> missing t \<and> read_end t \<le> U32_MAX"

lemma drafted_ranges:
  assumes inp: "rmw_input c k n st"
    and h: "fold rmw_hull_step [0..<k] (st, 0, 0) = (st1, s1, e1)"
    and p: "fold (rmw_parity_step rs ws k c) [k..<n] (st1, s1, e1, 0) = (st2, s, e, wp)"
  shows "length st2 = n \<and> (s, e) = parity_range rs ws k n c st \<and> (wp \<noteq> 0 \<longleftrightarrow> parity_required ws k n) \<and> wp \<le> n - k \<and>
    (\<forall>j<n. same_input (st ! j) (st2 ! j) \<and> planned_write ws k s e j (st2 ! j) \<and> wf_req c (st2 ! j) \<and>
      \<not> missing (st2 ! j) \<and> read_end (st2 ! j) = 0)"
proof -
  have i: "length st = n" "k \<le> n" "c \<le> U32_MAX"
    "\<And>j. j < n \<Longrightarrow> read_end (st ! j) = 0 \<and> write_end (st ! j) = 0 \<and> \<not> missing (st ! j) \<and> wf_req c (st ! j)"
    "\<And>j. j < n \<Longrightarrow> k \<le> j \<Longrightarrow> req_end (st ! j) = 0"
    using inp by (auto simp: rmw_input_def)
  have A: "length st1 = n" "(s1, e1) = fold (copy_mod_hull st) [0..<k] (0, 0)"
    "\<And>j. j < n \<Longrightarrow> st1 ! j = (if j < k \<and> req_end (st ! j) \<noteq> 0
      then with_write (req_start (st ! j)) (req_end (st ! j)) (st ! j) else st ! j)"
    using rmw_hull_fold [OF _ h] i(1,2) by auto
  have B: "length st2 = n" "(s, e) = (if parity_moved rs ws k n then (0, c) else (s1, e1))"
    "wp \<noteq> 0 \<longleftrightarrow> parity_required ws k n" "wp \<le> n - k"
    "\<And>j. j < n \<Longrightarrow> st2 ! j = (if k \<le> j \<and> ws ! j \<noteq> 0 then with_write s e (st1 ! j) else st1 ! j)"
    using rmw_parity_fold [OF i(2) _ i(3) p] A(1) by auto
  have "same_input (st ! j) (st2 ! j) \<and> planned_write ws k s e j (st2 ! j) \<and> wf_req c (st2 ! j) \<and>
      \<not> missing (st2 ! j) \<and> read_end (st2 ! j) = 0" if "j < n" for j
    using i(4) [OF that] i(5) [OF that]
    by (auto simp: A(3) [OF that] B(5) [OF that] same_input_def planned_write_def with_write_def wf_req_def)
  then show ?thesis
    using A(2) B(1-4) by (auto simp: parity_range_def)
qed

lemma parity_range_bounds:
  assumes "rmw_input c k n st" "(s, e) = parity_range rs ws k n c st"
  shows "e \<le> c" "e = 0 \<and> s = 0 \<or> s < e"
    and "\<And>j. j < k \<Longrightarrow> req_end (st ! j) \<noteq> 0 \<Longrightarrow> s \<le> req_start (st ! j) \<and> req_end (st ! j) \<le> e"
proof -
  have w: "wf_req c (st ! j)" if "j < k" for j
    using that assms(1) by (auto simp: rmw_input_def)
  have "0 < c" using assms(1) by (simp add: rmw_input_def)
  with w have "is_hull c k st (s, e)"
    using copy_mod_hull_correct [of k c st] assms(2)
    by (cases "parity_moved rs ws k n") (auto simp: parity_range_def is_hull_def wf_req_def)
  then show "e \<le> c" "e = 0 \<and> s = 0 \<or> s < e"
    "\<And>j. j < k \<Longrightarrow> req_end (st ! j) \<noteq> 0 \<Longrightarrow> s \<le> req_start (st ! j) \<and> req_end (st ! j) \<le> e"
    by (auto simp: is_hull_def)
qed

lemma drafted_cover:
  assumes "same_input (st0 ! j) t" "planned_write ws k s e j t" "wf_req c t" "\<not> missing t" "read_end t = 0"
    and "c < U32_MAX" "e = 0 \<and> s = 0 \<or> s < e" "e \<le> c"
  shows "drafted rs ws c k n False st0 s e j
    (if parity_required ws k n \<and> j < k then rmw_cover_stripe s e c t else t)"
proof (cases "parity_required ws k n \<and> j < k")
  case True
  note u = rmw_cover_stripe_correct [OF assms(3,5,6,7,8)]
  have "wf_req c (rmw_cover_stripe s e c t)"
    using assms(3) u(1) by (simp add: wf_req_def same_plan_def)
  then show ?thesis
    using True assms(1,2,4) u by (simp add: drafted_def same_input_def same_plan_def planned_write_def planned_read_def)
next
  case False
  then show ?thesis
    using assms by (auto simp: drafted_def planned_read_def wf_read_def reads_data_def)
qed

lemma with_read_frame:
  "same_input s0 (with_read a b t) = same_input s0 t" "planned_write ws k s e j (with_read a b t) = planned_write ws k s e j t"
  "wf_req c (with_read a b t) = wf_req c t" "missing (with_read a b t) = missing t" "read_end (with_read a b t) = b"
  by (simp_all add: with_read_def same_input_def planned_write_def wf_req_def)

lemma drafted_moved:
  assumes "drafted rs ws c k n False st0 s e j t" "0 < c" "c < U32_MAX" "e \<le> c"
  shows "drafted rs ws c k n True st0 s e j
    (if j < k \<and> chunk_moves rs ws j \<and> \<not> whole_request c t then with_read 0 c t else t)"
proof (cases "j < k \<and> chunk_moves rs ws j \<and> \<not> whole_request c t")
  case True
  then have "planned_read rs ws c k n s e True j (with_read 0 c t)"
    using assms moved_stripe_planned [of rs ws c k n s e j t] by (simp add: drafted_def)
  moreover have "wf_read c (with_read 0 c t)"
    using assms(2) by (simp add: with_read_def wf_read_def)
  ultimately show ?thesis
    using True assms(1,3) by (simp add: drafted_def with_read_frame)
next
  case False
  then show ?thesis
    using assms moved_stripe_planned [of rs ws c k n s e j t] unfolding drafted_def by (simp only: if_False simp_thms)
qed

lemma rmw_plan_missing:
  assumes d: "\<And>j. j < n \<Longrightarrow> drafted rs ws c k n moved st0 s e j (st ! j)" and len: "length st = n" and c: "0 < c" "c < U32_MAX"
    and f: "(if exist_count rs n < n then fold (rmw_missing_step rs k n) [0..<n] (st, True) else (st, True)) = (st', ok)"
  shows "ok \<longrightarrow> rmw_plan rs ws c k n moved st0 s e st'" "k \<le> exist_count rs n \<longrightarrow> ok"
proof -
  have w: "wf_read c (st ! j)" "read_end (st ! j) \<le> U32_MAX" if "j < length st" for j
    using d [of j] that len by (auto simp: drafted_def)
  have R: "(ok \<longrightarrow> recovery rs c k n n st st') \<and>
    (ok \<longleftrightarrow> (\<forall>r<n. rs ! r = 0 \<and> read_end (st ! r) \<noteq> 0 \<longrightarrow> k \<le> exist_count rs n))"
  proof (cases "exist_count rs n < n")
    case True
    then show ?thesis
      using rmw_missing_recovery [OF w _ _ c(2), where m = n and osd_set = rs and k = k] f len by simp
  next
    case False
    then have "rs ! r \<noteq> 0" if "r < n" for r
      using exist_count_missing [OF that, of rs] that by fastforce
    moreover have "st' = st" "ok" using f False by auto
    ultimately show ?thesis
      using w by (auto simp: recovery_def)
  qed
  show "k \<le> exist_count rs n \<longrightarrow> ok" using R by blast
  show "ok \<longrightarrow> rmw_plan rs ws c k n moved st0 s e st'"
  proof
    assume ok: ok
    then have rec: "recovery rs c k n n st st'" using R by blast
    note D = recoveryD [OF rec]
    have g: "grows (st ! j) (st' ! j)" "wf_read c (st' ! j)" if "j < n" for j
      using D(1,2,3) that len by auto
    show "rmw_plan rs ws c k n moved st0 s e st'"
      unfolding rmw_plan_def
    proof (intro conjI allI impI)
      fix j assume j: "j < n"
      note d = d [OF j, unfolded drafted_def]
      show "same_input (st0 ! j) (st' ! j)" using d same_input_grows [OF _ g(1) [OF j]] by blast
      show "planned_write ws k s e j (st' ! j)" using d planned_write_grows [OF _ g(1) [OF j]] by blast
      show "planned_read rs ws c k n s e moved j (st' ! j)"
        using d planned_read_grows [OF _ g [OF j] c] by blast
      show "wf_read c (st' ! j)" by (rule g(2) [OF j])
      show "missing (st' ! j) \<Longrightarrow> rs ! j = 0" using D(4) [of j] D(1) d j len by auto
    next
      fix r assume r: "r < n" and m: "rs ! r = 0 \<and> read_end (st' ! r) \<noteq> 0"
      then have re: "read_end (st ! r) \<noteq> 0" using D(1,5) len by metis
      then show "missing (st' ! r)" "k \<le> exist_count rs n" using D(6) R ok r m by blast+
      show "covers (st' ! j) (st' ! r)" if "j < n" "chosen rs k j" for j using D(7) re r m that by blast
    qed (use D(1) len in simp)
  qed
qed

lemma rmw_ranges_plan:
  assumes inp: "rmw_input c k n st" and cur: "\<not> moved \<Longrightarrow> cur = exist_count rs n \<and> ws = rs"
    and r: "rmw_ranges st rs n k cur ws moved c = ((st', s, e, wp), ok)"
  shows "ok \<longrightarrow> rmw_plan rs ws c k n moved st s e st'" "k \<le> exist_count rs n \<longrightarrow> ok"
    "(s, e) = parity_range rs ws k n c st" "wp \<noteq> 0 \<longleftrightarrow> parity_required ws k n" "wp \<le> n - k"
proof -
  have i: "length st = n" "k \<le> n" "0 < c" "c < U32_MAX" using inp by (auto simp: rmw_input_def)
  obtain st1 s1 e1 where h: "fold rmw_hull_step [0..<k] (st, 0, 0) = (st1, s1, e1)" by (metis prod_cases3)
  obtain st2 s2 e2 wp2 where p: "fold (rmw_parity_step rs ws k c) [k..<n] (st1, s1, e1, 0) = (st2, s2, e2, wp2)"
    by (metis prod_cases4)
  define st3 where "st3 = (if wp2 \<noteq> 0 then fold (\<lambda>role st. st[role := rmw_cover_stripe s2 e2 c (st ! role)]) [0..<k] st2 else st2)"
  obtain st4 cur4 where m: "(if moved then fold (rmw_moved_step rs ws k c) [0..<n] (st3, 0) else (st3, cur)) = (st4, cur4)"
    by fastforce
  note A = drafted_ranges [OF inp h p]
  note cover = fold_update_length [where f = "\<lambda>_. rmw_cover_stripe s2 e2 c"]
    fold_update_nth [where f = "\<lambda>_. rmw_cover_stripe s2 e2 c"]
  have f: "(if cur4 < n then fold (rmw_missing_step rs k n) [0..<n] (st4, True) else (st4, True)) = (st', ok)"
    and eq: "s2 = s" "e2 = e" "wp2 = wp"
    using r unfolding rmw_ranges_def h p Let_def prod.case st3_def [symmetric] m by (auto split: prod.splits if_splits)
  show se: "(s, e) = parity_range rs ws k n c st" "wp \<noteq> 0 \<longleftrightarrow> parity_required ws k n" "wp \<le> n - k"
    using A eq by auto
  have l3: "length st3 = n" using A by (simp add: st3_def cover)
  have C: "drafted rs ws c k n False st s e j (st3 ! j)" if "j < n" for j
  proof -
    have "st3 ! j = (if parity_required ws k n \<and> j < k then rmw_cover_stripe s e c (st2 ! j) else st2 ! j)"
      using A that by (auto simp: st3_def cover eq [symmetric])
    then show "drafted rs ws c k n False st s e j (st3 ! j)"
      using drafted_cover [of st j "st2 ! j" ws k s e c rs n] A that i(4) parity_range_bounds [OF inp se(1)] eq by auto
  qed
  have D: "length st4 = n \<and> cur4 = exist_count rs n \<and> (\<forall>j<n. drafted rs ws c k n moved st s e j (st4 ! j))"
  proof (cases moved)
    case True
    then have m': "fold (rmw_moved_step rs ws k c) [0..<n] (st3, 0) = (st4, cur4)" using m by simp
    show ?thesis
      using rmw_moved_fold [OF _ _ m'] l3 i(3,4) True drafted_moved [OF C i(3,4)] parity_range_bounds(1) [OF inp se(1)]
      by auto
  next
    case False
    then have "st4 = st3" "cur4 = cur" using m by auto
    then show ?thesis using False C cur l3 by simp
  qed
  have f': "(if exist_count rs n < n then fold (rmw_missing_step rs k n) [0..<n] (st4, True) else (st4, True)) = (st', ok)"
    using f D by simp
  have d: "\<And>j. j < n \<Longrightarrow> drafted rs ws c k n moved st s e j (st4 ! j)" and l4: "length st4 = n"
    using D by blast+
  show "ok \<longrightarrow> rmw_plan rs ws c k n moved st s e st'" "k \<le> exist_count rs n \<longrightarrow> ok"
    using rmw_plan_missing [OF d l4 i(3,4) f'] by blast+
qed

end
