(* ===== verification/Rmw_Buffers.thy ===== *)
theory Rmw_Buffers
  imports Rmw_Layout
begin

text \<open>
  Where \<open>alloc_read_buffer\<close> and \<open>calc_rmw\<close> put the buffers: one allocation holds the new parity
  chunks followed by the read buffers, and the request is cut into the write buffers of the data
  chunks. Buffers of different roles do not overlap.
\<close>

section \<open>Consecutive buffers\<close>

definition offs :: "(nat \<Rightarrow> nat) \<Rightarrow> nat \<Rightarrow> nat" where
  "offs len r = (\<Sum>j<r. len j)"

lemma offs_simps [simp]: "offs len 0 = 0" "offs len (Suc r) = offs len r + len r"
  by (simp_all add: offs_def)

lemma offs_cong: "(\<And>j. j < r \<Longrightarrow> len j = len' j) \<Longrightarrow> offs len r = offs len' r"
  by (simp add: offs_def)

lemma offs_mono: "i \<le> j \<Longrightarrow> offs len i \<le> offs len j"
  by (induction j) (auto simp: le_Suc_eq)

lemma offs_next: "i < j \<Longrightarrow> offs len i + len i \<le> offs len j"
  using offs_mono [of "Suc i" j len] by simp

lemma offs_apart: "i \<noteq> j \<Longrightarrow> apart (p + offs len i) (len i) (p + offs len j) (len j)"
  using offs_next [of i j len] offs_next [of j i len] by (cases "i < j") (auto simp: apart_def)

section \<open>The read buffers\<close>

definition rd_len :: "osd_rmw_stripe \<Rightarrow> nat" where
  "rd_len t = (if reads_data t then read_len t else 0)"

lemma read_len_wf: "wf_read c t \<Longrightarrow> c < U32_MAX \<Longrightarrow> reads_data t \<Longrightarrow> read_len t = read_end t - read_start t"
  by (simp add: wf_read_def read_len_def)

lemma read_buffer_size_offs: "read_buffer_size st n a = a + offs (\<lambda>j. rd_len (st ! j)) n"
  by (induction n) (auto simp: read_buffer_size_def rd_len_def)

lemma alloc_read_buffer_nth:
  assumes "n \<le> length st"
  shows "length (alloc_read_buffer st n a buf) = length st"
    "j < length st \<Longrightarrow> alloc_read_buffer st n a buf ! j =
      (if j < n \<and> reads_data (st ! j) then (st ! j)\<lparr>read_buf := buf + (a + offs (\<lambda>j. rd_len (st ! j)) j)\<rparr> else st ! j)"
proof -
  let ?step = "\<lambda>role (st, buf_pos). if reads_data (st ! role)
    then (st[role := (st ! role)\<lparr>read_buf := buf + buf_pos\<rparr>], buf_pos + read_len (st ! role)) else (st, buf_pos)"
  have "\<exists>u. fold ?step [0..<m] (st, a) = (u, a + offs (\<lambda>j. rd_len (st ! j)) m) \<and> length u = length st \<and>
      (\<forall>j<length st. u ! j = (if j < m \<and> reads_data (st ! j)
        then (st ! j)\<lparr>read_buf := buf + (a + offs (\<lambda>j. rd_len (st ! j)) j)\<rparr> else st ! j))" if "m \<le> n" for m
    using that
  proof (induction m)
    case (Suc m)
    then obtain u where u: "fold ?step [0..<m] (st, a) = (u, a + offs (\<lambda>j. rd_len (st ! j)) m)" "length u = length st"
      "\<And>j. j < length st \<Longrightarrow> u ! j = (if j < m \<and> reads_data (st ! j)
        then (st ! j)\<lparr>read_buf := buf + (a + offs (\<lambda>j. rd_len (st ! j)) j)\<rparr> else st ! j)"
      by auto
    have m: "u ! m = st ! m" "m < length st" using u(3) [of m] Suc.prems assms by simp_all
    show ?case
      using u m by (cases "reads_data (st ! m)") (auto simp: rd_len_def nth_list_update less_Suc_eq)
  qed simp
  from this [of n] show "length (alloc_read_buffer st n a buf) = length st"
    "j < length st \<Longrightarrow> alloc_read_buffer st n a buf ! j =
      (if j < n \<and> reads_data (st ! j) then (st ! j)\<lparr>read_buf := buf + (a + offs (\<lambda>j. rd_len (st ! j)) j)\<rparr> else st ! j)"
    by (auto simp: alloc_read_buffer_def)
qed

section \<open>The write buffers\<close>

definition rq_len :: "osd_rmw_stripe \<Rightarrow> nat" where
  "rq_len t = (if req_end t \<noteq> 0 then sub32 (req_end t) (req_start t) else 0)"

definition pw_len :: "osd_set \<Rightarrow> nat \<Rightarrow> nat \<Rightarrow> nat \<Rightarrow> stripes \<Rightarrow> nat \<Rightarrow> nat" where
  "pw_len ws k s e st j = (if req_end (st ! j) = 0 \<and> j \<ge> k \<and> ws ! j \<noteq> 0 \<and> e \<noteq> 0 then sub32 e s else 0)"

definition placed :: "ptr \<Rightarrow> ptr \<Rightarrow> osd_set \<Rightarrow> nat \<Rightarrow> nat \<Rightarrow> nat \<Rightarrow> stripes \<Rightarrow> nat \<Rightarrow> osd_rmw_stripe" where
  "placed rb mb ws k s e st j =
     (if req_end (st ! j) \<noteq> 0 then (st ! j)\<lparr>write_buf := rb + offs (\<lambda>j. rq_len (st ! j)) j\<rparr>
      else if j \<ge> k \<and> ws ! j \<noteq> 0 \<and> e \<noteq> 0 then (st ! j)\<lparr>write_buf := mb + offs (pw_len ws k s e st) j\<rparr>
      else st ! j)"

lemma rmw_place_fold:
  assumes "m \<le> length st"
  shows "\<exists>u. fold (rmw_place_step rb mb ws k s e) [0..<m] (st, 0, 0) =
      (u, offs (pw_len ws k s e st) m, offs (\<lambda>j. rq_len (st ! j)) m) \<and> length u = length st \<and>
    (\<forall>j<length st. u ! j = (if j < m then placed rb mb ws k s e st j else st ! j))"
  using assms
proof (induction m)
  case (Suc m)
  then obtain u where u: "fold (rmw_place_step rb mb ws k s e) [0..<m] (st, 0, 0) =
      (u, offs (pw_len ws k s e st) m, offs (\<lambda>j. rq_len (st ! j)) m)" "length u = length st"
    "\<And>j. j < length st \<Longrightarrow> u ! j = (if j < m then placed rb mb ws k s e st j else st ! j)"
    by auto
  have m: "u ! m = st ! m" "m < length st" using u(3) [of m] Suc.prems by simp_all
  have step: "rmw_place_step rb mb ws k s e m (u, offs (pw_len ws k s e st) m, offs (\<lambda>j. rq_len (st ! j)) m) =
      (u[m := placed rb mb ws k s e st m], offs (pw_len ws k s e st) (Suc m), offs (\<lambda>j. rq_len (st ! j)) (Suc m))"
    using m list_update_id [of u m] by (auto simp: rmw_place_step_def Let_def placed_def rq_len_def pw_len_def)
  show ?case
    using u m by (auto simp: step nth_list_update less_Suc_eq)
qed simp

section \<open>The result of \<open>calc_rmw\<close>\<close>

definition rmw_buffer_size :: "stripes \<Rightarrow> osd_set \<Rightarrow> nat \<Rightarrow> nat \<Rightarrow> nat \<Rightarrow> osd_set \<Rightarrow> bool \<Rightarrow> nat \<Rightarrow> nat" where
  "rmw_buffer_size st rs n k cur ws moved c =
     (let ((st, s, e, wp), ok) = rmw_ranges st rs n k cur ws moved c
      in read_buffer_size st n (mul32 wp (sub32 e s)))"

definition rmw_placed :: "ptr \<Rightarrow> ptr \<Rightarrow> osd_set \<Rightarrow> nat \<Rightarrow> nat \<Rightarrow> nat \<Rightarrow> nat \<Rightarrow> nat \<Rightarrow> stripes \<Rightarrow> bool" where
  "rmw_placed rb mb ws k n s e a st \<longleftrightarrow> (\<forall>j<n.
     (reads_data (st ! j) \<longrightarrow> read_buf (st ! j) = mb + a + offs (\<lambda>j. rd_len (st ! j)) j) \<and>
     (req_end (st ! j) \<noteq> 0 \<longrightarrow> write_buf (st ! j) = rb + offs (\<lambda>j. rq_len (st ! j)) j) \<and>
     (req_end (st ! j) = 0 \<and> j \<ge> k \<and> ws ! j \<noteq> 0 \<and> e \<noteq> 0 \<longrightarrow> write_buf (st ! j) = mb + offs (pw_len ws k s e st) j))"

text \<open>The fields that say where buffers are do not matter for the plan.\<close>

definition same_ranges :: "osd_rmw_stripe \<Rightarrow> osd_rmw_stripe \<Rightarrow> bool" where
  "same_ranges t u \<longleftrightarrow> req_start u = req_start t \<and> req_end u = req_end t \<and> read_start u = read_start t \<and>
     read_end u = read_end t \<and> write_start u = write_start t \<and> write_end u = write_end t \<and> bmp_buf u = bmp_buf t \<and>
     missing u = missing t"

lemma rmw_plan_ranges:
  assumes "rmw_plan rs ws c k n moved st0 s e st" "length st' = n" "\<And>j. j < n \<Longrightarrow> same_ranges (st ! j) (st' ! j)"
  shows "rmw_plan rs ws c k n moved st0 s e st'"
proof -
  have t: "same_input (st0 ! j) (st' ! j) = same_input (st0 ! j) (st ! j)"
    "planned_write ws k s e j (st' ! j) = planned_write ws k s e j (st ! j)"
    "planned_read rs ws c k n s e moved j (st' ! j) = planned_read rs ws c k n s e moved j (st ! j)"
    "wf_read c (st' ! j) = wf_read c (st ! j)" "missing (st' ! j) = missing (st ! j)" "read_end (st' ! j) = read_end (st ! j)"
    if "j < n" for j
    using assms(3) [OF that] by (simp_all add: same_ranges_def same_input_def planned_write_def planned_read_def
      wf_read_def reads_data_def range_known_def whole_request_def)
  have "covers (st' ! j) (st' ! r) = covers (st ! j) (st ! r)" if "j < n" "r < n" for j r
    using assms(3) that by (simp add: same_ranges_def covers_def reads_data_def)
  with t assms(1,2) show ?thesis
    by (auto simp: rmw_plan_def)
qed

lemma placed_fields:
  fixes rb mb a s e k :: nat and ws :: osd_set
  assumes "n \<le> length st" "j < n"
  defines "t \<equiv> placed rb mb ws k s e (alloc_read_buffer st n a mb) j"
  shows "same_ranges (st ! j) t"
    "reads_data t \<Longrightarrow> read_buf t = mb + a + offs (\<lambda>j. rd_len (st ! j)) j"
    "req_end t \<noteq> 0 \<Longrightarrow> write_buf t = rb + offs (\<lambda>j. rq_len (alloc_read_buffer st n a mb ! j)) j"
    "req_end t = 0 \<Longrightarrow> j \<ge> k \<Longrightarrow> ws ! j \<noteq> 0 \<Longrightarrow> e \<noteq> 0 \<Longrightarrow>
      write_buf t = mb + offs (pw_len ws k s e (alloc_read_buffer st n a mb)) j"
  using assms(1,2) alloc_read_buffer_nth(2) [OF assms(1), of j a mb]
  by (auto simp: t_def placed_def same_ranges_def reads_data_def split: if_splits)

lemma calc_rmw_correct:
  assumes inp: "rmw_input c k n st" and cur: "\<not> moved \<Longrightarrow> cur = exist_count rs n \<and> ws = rs"
    and r: "calc_rmw rb st rs n k cur ws moved c mb = (st', p)" and ok: "k \<le> exist_count rs n \<or> p \<noteq> NULL"
    and se: "(s, e) = parity_range rs ws k n c st"
  shows "p = mb" "rmw_plan rs ws c k n moved st s e st'"
    "\<exists>wp. (wp \<noteq> 0 \<longleftrightarrow> parity_required ws k n) \<and> wp \<le> n - k \<and> rmw_placed rb mb ws k n s e (mul32 wp (sub32 e s)) st' \<and>
      rmw_buffer_size st rs n k cur ws moved c = read_buffer_size st' n (mul32 wp (sub32 e s))"
proof -
  obtain u s1 e1 wp b where rr: "rmw_ranges st rs n k cur ws moved c = ((u, s1, e1, wp), b)"
    by (metis prod_cases4 surj_pair)
  note P = rmw_ranges_plan [OF inp cur rr]
  have eq: "s1 = s" "e1 = e" using P(3) se by (metis prod.inject)+
  have b: b using P(2) ok r rr by (auto simp: calc_rmw_def split: prod.splits if_splits)
  then have plan: "rmw_plan rs ws c k n moved st s e u" using P(1) eq by blast
  then have lu: "length u = n" by (rule rmw_planD)
  define a where "a = mul32 wp (sub32 e s)"
  define v where "v = alloc_read_buffer u n a mb"
  have lv: "length v = n" using alloc_read_buffer_nth(1) [of n u a mb] lu by (simp add: v_def)
  obtain w where w: "fold (rmw_place_step rb mb ws k s e) [0..<n] (v, 0, 0) =
      (w, offs (pw_len ws k s e v) n, offs (\<lambda>j. rq_len (v ! j)) n)" "length w = n"
    "\<And>j. j < n \<Longrightarrow> w ! j = placed rb mb ws k s e v j"
    using rmw_place_fold [of n v rb mb ws k s e] lv by auto
  have res: "p = mb" "st' = w"
    using r rr b eq w(1) by (auto simp: calc_rmw_def a_def v_def Let_def)
  show "p = mb" by (rule res)
  have F: "same_ranges (u ! j) (w ! j)"
    "reads_data (w ! j) \<Longrightarrow> read_buf (w ! j) = mb + a + offs (\<lambda>j. rd_len (u ! j)) j"
    "req_end (w ! j) \<noteq> 0 \<Longrightarrow> write_buf (w ! j) = rb + offs (\<lambda>j. rq_len (v ! j)) j"
    "req_end (w ! j) = 0 \<Longrightarrow> j \<ge> k \<Longrightarrow> ws ! j \<noteq> 0 \<Longrightarrow> e \<noteq> 0 \<Longrightarrow> write_buf (w ! j) = mb + offs (pw_len ws k s e v) j"
    if "j < n" for j
    using placed_fields [of n u j rb mb ws k s e a] that lu by (simp_all add: w(3) v_def)
  show "rmw_plan rs ws c k n moved st s e st'"
    using rmw_plan_ranges [OF plan w(2) F(1)] res by simp
  have o: "offs (\<lambda>j. rd_len (u ! j)) j = offs (\<lambda>j. rd_len (w ! j)) j"
    "offs (\<lambda>j. rq_len (v ! j)) j = offs (\<lambda>j. rq_len (w ! j)) j"
    "offs (pw_len ws k s e v) j = offs (pw_len ws k s e w) j" if "j \<le> n" for j
    using F(1) that alloc_read_buffer_nth(2) [of n u _ a mb] lu
    by (auto intro!: offs_cong simp: same_ranges_def rd_len_def read_len_def reads_data_def rq_len_def pw_len_def v_def)
  have "rmw_placed rb mb ws k n s e a st'"
    using F(2-4) o by (simp add: rmw_placed_def res)
  moreover have "rmw_buffer_size st rs n k cur ws moved c = read_buffer_size st' n a"
    using rr eq o(1) [of n] by (simp add: rmw_buffer_size_def a_def read_buffer_size_offs res)
  ultimately show "\<exists>wp. (wp \<noteq> 0 \<longleftrightarrow> parity_required ws k n) \<and> wp \<le> n - k \<and> rmw_placed rb mb ws k n s e (mul32 wp (sub32 e s)) st' \<and>
      rmw_buffer_size st rs n k cur ws moved c = read_buffer_size st' n (mul32 wp (sub32 e s))"
    using P(4,5) unfolding a_def by blast
qed

end
