(* ===== verification/Rmw_Reconstruct.thy ===== *)
theory Rmw_Reconstruct
  imports Rmw_Buffers
begin

text \<open>
  \<open>reconstruct_stripes_xor\<close>: when the XOR of all chunks is zero and all chunks but one were read,
  the missing one ends up in its buffer, data and bitmap.
\<close>

section \<open>Loops that may fail\<close>

lemma fold_opt_append: "fold_opt f (xs @ ys) s = Option.bind (fold_opt f xs s) (fold_opt f ys)"
  by (induction xs arbitrary: s) (auto split: bind_splits)

lemma fold_opt_upt_Suc: "k \<le> m \<Longrightarrow> fold_opt f [k..<Suc m] s = Option.bind (fold_opt f [k..<m] s) (f m)"
  by (cases "fold_opt f [k..<m] s") (auto simp: fold_opt_append split: bind_splits)

section \<open>One missing chunk\<close>

abbreviation RB :: "osd_rmw_stripe \<Rightarrow> ptr set" where
  "RB t \<equiv> region (read_buf t) (rd_len t)"

abbreviation BB :: "nat \<Rightarrow> osd_rmw_stripe \<Rightarrow> ptr set" where
  "BB bs t \<equiv> region (bmp_buf t) bs"

text \<open>The address of byte \<open>i\<close> of a chunk in its read buffer.\<close>

definition rd_at :: "osd_rmw_stripe \<Rightarrow> nat \<Rightarrow> ptr" where
  "rd_at t i = read_buf t + (i - read_start t)"

text \<open>The XOR of the chunks other than \<open>role\<close> below \<open>m\<close>, in the buffers of \<open>role\<close>.\<close>

definition recon_mem :: "stripes \<Rightarrow> nat \<Rightarrow> nat \<Rightarrow> nat \<Rightarrow> memory \<Rightarrow> memory" where
  "recon_mem st bs role m M = (\<lambda>a. let s = st ! role in
     if a \<in> RB s then xsum (\<lambda>j. if j = role then 0 else M (rd_at (st ! j) (read_start s + (a - read_buf s)))) m
     else if a \<in> BB bs s then xsum (\<lambda>j. if j = role then 0 else M (bmp_buf (st ! j) + (a - bmp_buf s))) m
     else M a)"

definition recon_sep :: "stripes \<Rightarrow> nat \<Rightarrow> nat \<Rightarrow> nat \<Rightarrow> bool" where
  "recon_sep st bs role n \<longleftrightarrow> RB (st ! role) \<inter> BB bs (st ! role) = {} \<and>
     (\<forall>j<n. j \<noteq> role \<longrightarrow> RB (st ! j) \<inter> RB (st ! role) = {} \<and> RB (st ! j) \<inter> BB bs (st ! role) = {} \<and>
        BB bs (st ! j) \<inter> RB (st ! role) = {} \<and> BB bs (st ! j) \<inter> BB bs (st ! role) = {})"

lemma recon_mem_cases:
  "a \<in> RB (st ! role) \<Longrightarrow> recon_mem st bs role m M a =
    xsum (\<lambda>j. if j = role then 0 else M (rd_at (st ! j) (read_start (st ! role) + (a - read_buf (st ! role))))) m"
  "a \<notin> RB (st ! role) \<Longrightarrow> a \<in> BB bs (st ! role) \<Longrightarrow> recon_mem st bs role m M a =
    xsum (\<lambda>j. if j = role then 0 else M (bmp_buf (st ! j) + (a - bmp_buf (st ! role)))) m"
  "a \<notin> RB (st ! role) \<Longrightarrow> a \<notin> BB bs (st ! role) \<Longrightarrow> recon_mem st bs role m M a = M a"
  unfolding recon_mem_def Let_def by (simp_all only: if_True if_False simp_thms)

text \<open>Stripe \<open>o'\<close> can be combined into \<open>s\<close>: its buffers are apart from those of \<open>s\<close> and it holds the range.\<close>

definition feeds :: "nat \<Rightarrow> nat \<Rightarrow> osd_rmw_stripe \<Rightarrow> osd_rmw_stripe \<Rightarrow> bool" where
  "feeds c bs o' s \<longleftrightarrow> RB o' \<inter> RB s = {} \<and> RB o' \<inter> BB bs s = {} \<and> BB bs o' \<inter> RB s = {} \<and> BB bs o' \<inter> BB bs s = {} \<and>
     covers o' s \<and> wf_read c o'"

lemma feeds_apart:
  assumes "feeds c bs o' s" "wf_read c s" "c < U32_MAX"
  shows "reads_data s \<Longrightarrow> apart (rd_at o' (read_start s)) (rd_len s) (read_buf s) (rd_len s)"
    "reads_data s \<Longrightarrow> apart (rd_at o' (read_start s)) (rd_len s) (bmp_buf s) bs"
    "apart (bmp_buf o') bs (bmp_buf s) bs" "apart (bmp_buf o') bs (read_buf s) (rd_len s)"
    "reads_data s \<Longrightarrow> read_start o' \<le> read_start s"
proof -
  show "apart (bmp_buf o') bs (bmp_buf s) bs" "apart (bmp_buf o') bs (read_buf s) (rd_len s)"
    using assms(1) by (simp_all add: feeds_def apart_iff)
  assume r: "reads_data s"
  then have "reads_data o'" "read_start o' \<le> read_start s" "read_end s \<le> read_end o'"
    using assms(1) by (simp_all add: feeds_def covers_def)
  moreover have "wf_read c o'" using assms(1) by (simp add: feeds_def)
  ultimately have sub: "region (rd_at o' (read_start s)) (rd_len s) \<subseteq> RB o'"
    using r assms(2,3) read_len_wf [of c s] read_len_wf [of c o']
    by (auto simp: rd_at_def rd_len_def wf_read_def)
  show "read_start o' \<le> read_start s" by fact
  show "apart (rd_at o' (read_start s)) (rd_len s) (read_buf s) (rd_len s)"
    "apart (rd_at o' (read_start s)) (rd_len s) (bmp_buf s) bs"
    using sub assms(1) unfolding apart_iff feeds_def by blast+
qed

lemma combine_at:
  assumes "read_end s \<noteq> 0" "RB s \<inter> BB bs s = {}"
    and "reads_data s \<Longrightarrow> d1 = read_buf s \<or> apart d1 (rd_len s) (read_buf s) (rd_len s)"
    and "reads_data s \<Longrightarrow> d2 = read_buf s \<or> apart d2 (rd_len s) (read_buf s) (rd_len s)"
    and "b1 = bmp_buf s \<or> apart b1 bs (bmp_buf s) bs" "b2 = bmp_buf s \<or> apart b2 bs (bmp_buf s) bs"
    and "apart b1 bs (read_buf s) (rd_len s)" "apart b2 bs (read_buf s) (rd_len s)"
  shows "memxor b1 b2 (bmp_buf s) bs
      (if read_end s \<noteq> U32_MAX then memxor d1 d2 (read_buf s) (sub32 (read_end s) (read_start s)) M else M) a =
    (if a \<in> RB s then M (d1 + (a - read_buf s)) XOR M (d2 + (a - read_buf s))
     else if a \<in> BB bs s then M (b1 + (a - bmp_buf s)) XOR M (b2 + (a - bmp_buf s)) else M a)"
proof -
  let ?M = "if read_end s \<noteq> U32_MAX then memxor d1 d2 (read_buf s) (sub32 (read_end s) (read_start s)) M else M"
  have M: "?M a = (if a \<in> RB s then M (d1 + (a - read_buf s)) XOR M (d2 + (a - read_buf s)) else M a)" for a
  proof (cases "reads_data s")
    case True
    then have "?M = memxor d1 d2 (read_buf s) (rd_len s) M"
      by (simp add: reads_data_def rd_len_def read_len_def)
    then show ?thesis
      using memxor_at [OF assms(3) [OF True] assms(4) [OF True]] by simp
  next
    case False
    then show ?thesis using assms(1) by (auto simp: reads_data_def rd_len_def)
  qed
  have out: "?M (b + (a - bmp_buf s)) = M (b + (a - bmp_buf s))" if "apart b bs (read_buf s) (rd_len s)" "a \<in> BB bs s" for b a
    using that unfolding M apart_def by auto
  show ?thesis
    unfolding memxor_at [OF assms(5,6)]
  proof (cases "a \<in> BB bs s")
    case True
    with assms(2) have "a \<notin> RB s" by blast
    with True show "(if a \<in> BB bs s then ?M (b1 + (a - bmp_buf s)) XOR ?M (b2 + (a - bmp_buf s)) else ?M a) =
      (if a \<in> RB s then M (d1 + (a - read_buf s)) XOR M (d2 + (a - read_buf s))
       else if a \<in> BB bs s then M (b1 + (a - bmp_buf s)) XOR M (b2 + (a - bmp_buf s)) else M a)"
      using out [OF assms(7) True] out [OF assms(8) True] by (simp del: region_iff)
  next
    case False
    then show "(if a \<in> BB bs s then ?M (b1 + (a - bmp_buf s)) XOR ?M (b2 + (a - bmp_buf s)) else ?M a) =
      (if a \<in> RB s then M (d1 + (a - read_buf s)) XOR M (d2 + (a - read_buf s))
       else if a \<in> BB bs s then M (b1 + (a - bmp_buf s)) XOR M (b2 + (a - bmp_buf s)) else M a)"
      unfolding M by (simp del: region_iff)
  qed
qed

lemma rd_at_add: "read_start t \<le> b \<Longrightarrow> rd_at t (b + i) = rd_at t b + i"
  by (simp add: rd_at_def)

lemma RB_D: "a \<in> RB s \<Longrightarrow> reads_data s" "a \<in> RB s \<Longrightarrow> a - read_buf s < rd_len s"
  by (auto simp: rd_len_def split: if_splits)

text \<open>The number of chunks other than \<open>role\<close> seen before \<open>m\<close>, and the first of them.\<close>

definition others :: "nat \<Rightarrow> nat \<Rightarrow> nat" where
  "others role m = m - (if role < m then 1 else 0)"

definition first_other :: "nat \<Rightarrow> nat" where
  "first_other role = (if role = 0 then 1 else 0)"

definition recon_state :: "stripes \<Rightarrow> nat \<Rightarrow> nat \<Rightarrow> nat \<Rightarrow> memory \<Rightarrow> int \<times> memory" where
  "recon_state st bs role m M =
     (if others role m = 0 then (-2, M) else if others role m = 1 then (int (first_other role), M)
      else (-1, recon_mem st bs role m M))"

lemma xsum_first_other:
  assumes "others role m = 1"
  shows "xsum (\<lambda>j. if j = role then 0 else f j) m = f (first_other role)"
proof -
  have "m = 1 \<and> role \<noteq> 0 \<or> m = 2 \<and> role \<le> 1"
    using assms by (auto simp: others_def split: if_splits)
  then show ?thesis
    by (auto simp: first_other_def numeral_2_eq_2 le_Suc_eq)
qed

lemma recon_step:
  assumes f: "\<And>j. j < n \<Longrightarrow> j \<noteq> role \<Longrightarrow> feeds c bs (st ! j) (st ! role)"
    and s: "read_end (st ! role) \<noteq> 0" "RB (st ! role) \<inter> BB bs (st ! role) = {}" "wf_read c (st ! role)" "c < U32_MAX"
    and m: "m < n"
  shows "reconstruct_one st bs role m (recon_state st bs role m M) = Some (recon_state st bs role (Suc m) M)"
proof -
  let ?s = "st ! role" and ?o = "st ! m"
  consider (self) "m = role" | (zero) "m \<noteq> role" "others role m = 0" | (one) "m \<noteq> role" "others role m = 1"
    | (more) "m \<noteq> role" "others role m \<ge> 2" by linarith
  then show ?thesis
  proof cases
    case self
    then have "others role (Suc m) = others role m" "recon_mem st bs role (Suc m) M = recon_mem st bs role m M"
      by (auto simp: others_def recon_mem_def Let_def fun_eq_iff)
    then show ?thesis
      using self by (auto simp: recon_state_def reconstruct_one_def Let_def)
  next
    case zero
    then have "others role (Suc m) = 1" "first_other role = m"
      by (auto simp: others_def first_other_def split: if_splits)
    then show ?thesis
      using zero by (simp add: recon_state_def reconstruct_one_def Let_def)
  next
    case one
    let ?p = "st ! first_other role"
    have p: "first_other role < n" "first_other role \<noteq> role" and suc: "others role (Suc m) = 2"
      using one m by (auto simp: others_def first_other_def split: if_splits)
    note fp = feeds_apart [OF f [OF p] s(3,4)] and fo = feeds_apart [OF f [OF m one(1)] s(3,4)]
    have "reconstruct_one st bs role m (int (first_other role), M) =
        Some (-1, memxor (bmp_buf ?p) (bmp_buf ?o) (bmp_buf ?s) bs
          (if read_end ?s \<noteq> U32_MAX then memxor (rd_at ?p (read_start ?s)) (rd_at ?o (read_start ?s)) (read_buf ?s)
             (sub32 (read_end ?s) (read_start ?s)) M else M))"
      using one fp(5) fo(5) s(1) by (auto simp: reconstruct_one_def Let_def rd_at_def reads_data_def)
    also have "\<dots> = Some (-1, recon_mem st bs role (Suc m) M)"
    proof -
      have C: "memxor (bmp_buf ?p) (bmp_buf ?o) (bmp_buf ?s) bs
          (if read_end ?s \<noteq> U32_MAX then memxor (rd_at ?p (read_start ?s)) (rd_at ?o (read_start ?s)) (read_buf ?s)
             (sub32 (read_end ?s) (read_start ?s)) M else M) a =
        (if a \<in> RB ?s then M (rd_at ?p (read_start ?s) + (a - read_buf ?s)) XOR M (rd_at ?o (read_start ?s) + (a - read_buf ?s))
         else if a \<in> BB bs ?s then M (bmp_buf ?p + (a - bmp_buf ?s)) XOR M (bmp_buf ?o + (a - bmp_buf ?s)) else M a)" for a
        by (rule combine_at [OF s(1,2)]) (use fp fo in blast)+
      show ?thesis
        using one(1) RB_D(1) [of _ ?s] fp(5) fo(5)
        by (auto simp: fun_eq_iff C recon_mem_def Let_def rd_at_add xsum_first_other [OF one(2)] simp del: region_iff)
    qed
    finally show ?thesis
      using one suc by (simp add: recon_state_def)
  next
    case more
    note fo = feeds_apart [OF f [OF m more(1)] s(3,4)]
    have self: "apart (bmp_buf ?s) bs (read_buf ?s) (rd_len ?s)"
      using s(2) by (auto simp: apart_iff)
    let ?M = "recon_mem st bs role m M"
    have "reconstruct_one st bs role m (-1, ?M) =
        Some (-1, memxor (bmp_buf ?s) (bmp_buf ?o) (bmp_buf ?s) bs
          (if read_end ?s \<noteq> U32_MAX then memxor (read_buf ?s) (rd_at ?o (read_start ?s)) (read_buf ?s)
             (sub32 (read_end ?s) (read_start ?s)) ?M else ?M))"
      using more fo(5) s(1) by (auto simp: reconstruct_one_def Let_def rd_at_def reads_data_def)
    also have "\<dots> = Some (-1, recon_mem st bs role (Suc m) M)"
    proof -
      have d: "?M (rd_at ?o (read_start ?s) + i) = M (rd_at ?o (read_start ?s) + i)" if "reads_data ?s" "i < rd_len ?s" for i
        using fo(1,2) [OF that(1)] that(2) by (auto simp: recon_mem_def Let_def apart_def)
      have b: "?M (bmp_buf ?o + i) = M (bmp_buf ?o + i)" if "i < bs" for i
        using fo(3,4) that by (auto simp: recon_mem_def Let_def apart_def)
      have C: "memxor (bmp_buf ?s) (bmp_buf ?o) (bmp_buf ?s) bs
          (if read_end ?s \<noteq> U32_MAX then memxor (read_buf ?s) (rd_at ?o (read_start ?s)) (read_buf ?s)
             (sub32 (read_end ?s) (read_start ?s)) ?M else ?M) a =
        (if a \<in> RB ?s then ?M (read_buf ?s + (a - read_buf ?s)) XOR ?M (rd_at ?o (read_start ?s) + (a - read_buf ?s))
         else if a \<in> BB bs ?s then ?M (bmp_buf ?s + (a - bmp_buf ?s)) XOR ?M (bmp_buf ?o + (a - bmp_buf ?s)) else ?M a)" for a
        by (rule combine_at [OF s(1,2)]) (use fo self in blast)+
      have "memxor (bmp_buf ?s) (bmp_buf ?o) (bmp_buf ?s) bs
          (if read_end ?s \<noteq> U32_MAX then memxor (read_buf ?s) (rd_at ?o (read_start ?s)) (read_buf ?s)
             (sub32 (read_end ?s) (read_start ?s)) ?M else ?M) a = recon_mem st bs role (Suc m) M a" for a
      proof -
        consider (rb) "a \<in> RB ?s" | (bb) "a \<notin> RB ?s" "a \<in> BB bs ?s" | (out) "a \<notin> RB ?s" "a \<notin> BB bs ?s" by blast
        then show ?thesis
        proof cases
          case rb
          then obtain i where i: "a = read_buf ?s + i" "i < rd_len ?s"
            using le_Suc_ex by (metis add_less_cancel_left region_iff)
          then show ?thesis
            using C [of a] rb recon_mem_cases(1) [OF rb] d [OF RB_D(1) [OF rb] i(2)] more(1)
              rd_at_add [OF fo(5) [OF RB_D(1) [OF rb]]] by (simp del: region_iff)
        next
          case bb
          then obtain i where i: "a = bmp_buf ?s + i" "i < bs"
            using le_Suc_ex by (metis add_less_cancel_left region_iff)
          then show ?thesis
            using C [of a] bb recon_mem_cases(2) [OF bb] b [OF i(2)] more(1) by (simp del: region_iff)
        next
          case out
          then show ?thesis
            unfolding C by (simp add: recon_mem_cases(3) [OF out] del: region_iff)
        qed
      qed
      then show ?thesis by auto
    qed
    finally have "reconstruct_one st bs role m (-1, ?M) = Some (-1, recon_mem st bs role (Suc m) M)" .
    moreover have "others role m \<noteq> 0" "others role m \<noteq> 1" "others role (Suc m) \<noteq> 0" "others role (Suc m) \<noteq> 1"
      using more by (auto simp: others_def split: if_splits)
    ultimately show ?thesis
      by (simp add: recon_state_def)
  qed
qed

text \<open>What the loop over all the other chunks leaves in memory.\<close>

lemma reconstruct_role_mem:
  assumes "\<And>j. j < n \<Longrightarrow> j \<noteq> role \<Longrightarrow> feeds c bs (st ! j) (st ! role)"
    and "read_end (st ! role) \<noteq> 0" "RB (st ! role) \<inter> BB bs (st ! role) = {}" "wf_read c (st ! role)" "c < U32_MAX"
    and "missing (st ! role)" "role < n" "3 \<le> n"
  shows "reconstruct_role st n bs role M = Some (recon_mem st bs role n M)"
proof -
  have "fold_opt (reconstruct_one st bs role) [0..<m] (-2, M) = Some (recon_state st bs role m M)" if "m \<le> n" for m
    using that
  proof (induction m)
    case 0
    then show ?case by (simp add: recon_state_def others_def)
  next
    case (Suc m)
    then show ?case
      using recon_step [OF assms(1-5), where m = m and M = M] by (simp add: fold_opt_upt_Suc del: upt_Suc)
  qed
  moreover have "others role n \<noteq> 0" "others role n \<noteq> 1"
    using assms(7,8) by (auto simp: others_def)
  ultimately show ?thesis
    using assms(2,6) by (simp add: reconstruct_role_def recon_state_def)
qed

section \<open>All chunks\<close>

text \<open>The buffers of a stripe hold what was to be read of the chunk and of its bitmap.\<close>

definition loaded :: "(nat \<Rightarrow> u8) \<Rightarrow> (nat \<Rightarrow> u8) \<Rightarrow> nat \<Rightarrow> memory \<Rightarrow> osd_rmw_stripe \<Rightarrow> bool" where
  "loaded chunk bmp bs M t \<longleftrightarrow>
     (reads_data t \<longrightarrow> (\<forall>i. read_start t \<le> i \<and> i < read_end t \<longrightarrow> M (rd_at t i) = chunk i)) \<and>
     (read_end t \<noteq> 0 \<longrightarrow> (\<forall>i<bs. M (bmp_buf t + i) = bmp i))"

definition buffers_apart :: "nat \<Rightarrow> nat \<Rightarrow> stripes \<Rightarrow> bool" where
  "buffers_apart bs n st \<longleftrightarrow> (\<forall>i<n. \<forall>j<n. RB (st ! i) \<inter> BB bs (st ! j) = {} \<and>
     (i \<noteq> j \<longrightarrow> RB (st ! i) \<inter> RB (st ! j) = {} \<and> BB bs (st ! i) \<inter> BB bs (st ! j) = {}))"

lemma loaded_frame:
  assumes "loaded chunk bmp bs M t" "\<And>a. a \<in> RB t \<or> a \<in> BB bs t \<Longrightarrow> M' a = M a" "wf_read c t" "c < U32_MAX"
  shows "loaded chunk bmp bs M' t"
proof -
  have "M' (rd_at t i) = M (rd_at t i)" if "reads_data t" "read_start t \<le> i" "i < read_end t" for i
    using that assms(3,4) read_len_wf [of c t] by (intro assms(2)) (auto simp: rd_at_def rd_len_def)
  moreover have "M' (bmp_buf t + i) = M (bmp_buf t + i)" if "i < bs" for i
    using that by (intro assms(2)) auto
  ultimately show ?thesis
    using assms(1) by (simp add: loaded_def)
qed

lemma recon_mem_loaded:
  assumes "\<And>j. j < n \<Longrightarrow> j \<noteq> role \<Longrightarrow> loaded (chunk j) (bmp j) bs M (st ! j) \<and> covers (st ! j) (st ! role)"
    and "\<And>i. i < c \<Longrightarrow> xsum (\<lambda>j. chunk j i) n = 0" "\<And>i. i < bs \<Longrightarrow> xsum (\<lambda>j. bmp j i) n = 0"
    and "role < n" "wf_read c (st ! role)" "c < U32_MAX" "RB (st ! role) \<inter> BB bs (st ! role) = {}"
  shows "loaded (chunk role) (bmp role) bs (recon_mem st bs role n M) (st ! role)"
  unfolding loaded_def
proof (intro conjI impI allI)
  let ?s = "st ! role"
  fix i assume r: "reads_data ?s" and i: "read_start ?s \<le> i \<and> i < read_end ?s"
  have a: "rd_at ?s i \<in> RB ?s" "read_start ?s + (rd_at ?s i - read_buf ?s) = i"
    using r i assms(5,6) read_len_wf [of c ?s] by (auto simp: rd_at_def rd_len_def)
  have "i < c" using r i assms(5) by (simp add: wf_read_def)
  have "recon_mem st bs role n M (rd_at ?s i) = xsum (\<lambda>j. if j = role then 0 else M (rd_at (st ! j) i)) n"
    unfolding recon_mem_cases(1) [OF a(1)] a(2) ..
  also have "\<dots> = xsum ((\<lambda>j. chunk j i)(role := 0)) n"
  proof (rule xsum_cong)
    fix j assume j: "j < n"
    show "(if j = role then 0 else M (rd_at (st ! j) i)) = ((\<lambda>j. chunk j i)(role := 0)) j"
      using assms(1) [OF j] r i by (auto simp: loaded_def covers_def)
  qed
  also have "\<dots> = chunk role i"
    using xsum_recover [OF assms(2) [OF \<open>i < c\<close>] assms(4)] by simp
  finally show "recon_mem st bs role n M (rd_at ?s i) = chunk role i" .
next
  let ?s = "st ! role"
  fix i assume re: "read_end ?s \<noteq> 0" and i: "i < bs"
  then have a: "bmp_buf ?s + i \<in> BB bs ?s" by simp
  then have b: "bmp_buf ?s + i \<notin> RB ?s" using assms(7) by blast
  have "recon_mem st bs role n M (bmp_buf ?s + i) = xsum (\<lambda>j. if j = role then 0 else M (bmp_buf (st ! j) + i)) n"
    unfolding recon_mem_cases(2) [OF b a] add_diff_cancel_left' ..
  also have "\<dots> = xsum ((\<lambda>j. bmp j i)(role := 0)) n"
  proof (rule xsum_cong)
    fix j assume j: "j < n"
    show "(if j = role then 0 else M (bmp_buf (st ! j) + i)) = ((\<lambda>j. bmp j i)(role := 0)) j"
      using assms(1) [OF j] re i by (auto simp: loaded_def covers_def)
  qed
  also have "\<dots> = bmp role i"
    using xsum_recover [OF assms(3) [OF i] assms(4)] by simp
  finally show "recon_mem st bs role n M (bmp_buf ?s + i) = bmp role i" .
qed

lemma fold_opt_single:
  assumes "distinct xs" "\<And>x s. x \<in> set xs \<Longrightarrow> x \<noteq> r \<Longrightarrow> f x s = Some s"
  shows "fold_opt f xs s = (if r \<in> set xs then f r s else Some s)"
  using assms
proof (induction xs arbitrary: s)
  case (Cons x xs)
  show ?case
  proof (cases "x = r")
    case True
    with Cons.prems have "fold_opt f xs s' = Some s'" for s'
      using Cons.IH by simp
    then show ?thesis
      using True by (cases "f r s") auto
  next
    case False
    with Cons show ?thesis by auto
  qed
qed simp

lemma reconstruct_stripes_xor_correct:
  assumes n: "3 \<le> n" and c: "c < U32_MAX" and wf: "\<And>j. j < n \<Longrightarrow> wf_read c (st ! j)" and ap: "buffers_apart bs n st"
    and ld: "\<And>j. j < n \<Longrightarrow> \<not> missing (st ! j) \<Longrightarrow> loaded (chunk j) (bmp j) bs M (st ! j)"
    and rec: "\<And>r j. r < n \<Longrightarrow> missing (st ! r) \<Longrightarrow> read_end (st ! r) \<noteq> 0 \<Longrightarrow> j < n \<Longrightarrow> j \<noteq> r \<Longrightarrow>
      \<not> missing (st ! j) \<and> covers (st ! j) (st ! r)"
    and zero: "\<And>i. i < c \<Longrightarrow> xsum (\<lambda>j. chunk j i) n = 0" "\<And>i. i < bs \<Longrightarrow> xsum (\<lambda>j. bmp j i) n = 0"
  shows "\<exists>M'. reconstruct_stripes_xor st n bs M = Some M' \<and> (\<forall>j<n. loaded (chunk j) (bmp j) bs M' (st ! j)) \<and>
    (\<forall>a. (\<forall>j<n. a \<notin> RB (st ! j) \<and> a \<notin> BB bs (st ! j)) \<longrightarrow> M' a = M a)"
proof (cases "\<exists>r<n. missing (st ! r) \<and> read_end (st ! r) \<noteq> 0")
  case False
  then have "reconstruct_role st n bs r s = Some s" if "r \<in> set [0..<n]" for r s
    using that by (auto simp: reconstruct_role_def)
  then have "reconstruct_stripes_xor st n bs M = Some M"
    using fold_opt_single [of "[0..<n]" n "reconstruct_role st n bs" M] by (simp add: reconstruct_stripes_xor_def)
  moreover have "loaded (chunk j) (bmp j) bs M (st ! j)" if "j < n" for j
    using ld [OF that] False that by (cases "missing (st ! j)") (auto simp: loaded_def reads_data_def)
  ultimately show ?thesis by blast
next
  case True
  then obtain r where r: "r < n" "missing (st ! r)" "read_end (st ! r) \<noteq> 0" by blast
  note rec = rec [OF r]
  have sep: "RB (st ! i) \<inter> BB bs (st ! j) = {}" "i \<noteq> j \<Longrightarrow> RB (st ! i) \<inter> RB (st ! j) = {}"
    "i \<noteq> j \<Longrightarrow> BB bs (st ! i) \<inter> BB bs (st ! j) = {}" if "i < n" "j < n" for i j
    using ap that unfolding buffers_apart_def by blast+
  have "feeds c bs (st ! j) (st ! r)" if "j < n" "j \<noteq> r" for j
    using rec [OF that] wf that sep [OF that(1) r(1)] sep [OF r(1) that(1)] by (auto simp: feeds_def simp del: region_iff)
  then have "reconstruct_role st n bs r M = Some (recon_mem st bs r n M)"
    using reconstruct_role_mem [of n r c bs st M] r wf c n sep(1) [of r r] by simp
  moreover have "reconstruct_role st n bs j s = Some s" if "j < n" "j \<noteq> r" for j s
    using rec [OF that] by (simp add: reconstruct_role_def)
  ultimately have res: "reconstruct_stripes_xor st n bs M = Some (recon_mem st bs r n M)"
    using fold_opt_single [of "[0..<n]" r "reconstruct_role st n bs" M] r(1) by (simp add: reconstruct_stripes_xor_def)
  have out: "recon_mem st bs r n M a = M a" if "a \<notin> RB (st ! r)" "a \<notin> BB bs (st ! r)" for a
    using that by (rule recon_mem_cases(3))
  have "loaded (chunk j) (bmp j) bs (recon_mem st bs r n M) (st ! j)" if j: "j < n" for j
  proof (cases "j = r")
    case True
    show ?thesis
      unfolding True
      by (rule recon_mem_loaded [OF _ zero r(1) wf [OF r(1)] c sep(1) [OF r(1) r(1)]]) (use ld rec in blast)+
  next
    case False
    have "recon_mem st bs r n M a = M a" if "a \<in> RB (st ! j) \<or> a \<in> BB bs (st ! j)" for a
      using that sep [OF j r(1)] sep [OF r(1) j] False by (intro out) blast+
    then show ?thesis
      using loaded_frame [OF ld [OF j] _ wf [OF j] c] rec [OF j False] by blast
  qed
  then show ?thesis
    using res out r(1) by blast
qed

end
