(* ===== verification/Rmw_Parity.thy ===== *)
theory Rmw_Parity
  imports Rmw_Reconstruct
begin

text \<open>
  The computation of the new parity: \<open>get_old_new_buffers\<close> lists the pieces of old and new data of a
  chunk in order, \<open>xor_multiple_buffers\<close> combines two such lists, and the loop of
  \<open>calc_rmw_parity_xor\<close> leaves the XOR of the new contents of all data chunks in the parity buffer.
\<close>

section \<open>Lists of buffers\<close>

text \<open>The address of byte \<open>p\<close> of the concatenation of a list of buffers.\<close>

fun bufs_addr :: "buf_len list \<Rightarrow> nat \<Rightarrow> ptr" where
  "bufs_addr [] p = 0"
| "bufs_addr (b # bs) p = (if p < bl_len b then bl_buf b + p else bufs_addr bs (p - bl_len b))"

definition bufs_total :: "buf_len list \<Rightarrow> nat" where
  "bufs_total bs = sum_list (map bl_len bs)"

definition ends_at :: "buf_len list \<Rightarrow> nat \<Rightarrow> nat" where
  "ends_at bs i = sum_list (map bl_len (take i bs))"

lemma bufs_total_simps [simp]: "bufs_total [] = 0" "bufs_total (b # bs) = bl_len b + bufs_total bs"
  by (simp_all add: bufs_total_def)

lemma ends_at_simps [simp]:
  "ends_at bs 0 = 0" "i < length bs \<Longrightarrow> ends_at bs (Suc i) = ends_at bs i + bl_len (bs ! i)"
  by (simp_all add: ends_at_def take_Suc_conv_app_nth)

lemma ends_at_le: "ends_at bs i \<le> bufs_total bs"
  unfolding ends_at_def bufs_total_def
  by (metis append_take_drop_id le_add1 map_append sum_list_append)

lemma ends_at_all: "length bs \<le> i \<Longrightarrow> ends_at bs i = bufs_total bs"
  by (simp add: ends_at_def bufs_total_def)

lemma bufs_addr_nth:
  assumes "i < length bs" "ends_at bs i \<le> p" "p < ends_at bs (Suc i)"
  shows "bufs_addr bs p = bl_buf (bs ! i) + (p - ends_at bs i)"
  using assms
proof (induction bs arbitrary: i p)
  case (Cons b bs)
  show ?case
  proof (cases i)
    case 0
    then show ?thesis using Cons.prems by simp
  next
    case (Suc j)
    have e: "ends_at (b # bs) (Suc m) = bl_len b + ends_at bs m" for m
      by (simp add: ends_at_def)
    have "bufs_addr bs (p - bl_len b) = bl_buf (bs ! j) + (p - bl_len b - ends_at bs j)"
      using Cons.prems Suc by (intro Cons.IH) (auto simp: e [unfolded ends_at_def] ends_at_def)
    then show ?thesis
      using Cons.prems Suc by (simp add: e)
  qed
qed simp

section \<open>Old and new data of a chunk\<close>

text \<open>Every byte of \<open>s..e\<close> is in the write buffer or in the read buffer.\<close>

definition avail :: "nat \<Rightarrow> nat \<Rightarrow> osd_rmw_stripe \<Rightarrow> bool" where
  "avail s e t \<longleftrightarrow> (\<forall>i. s \<le> i \<and> i < e \<longrightarrow>
     write_start t \<le> i \<and> i < write_end t \<or> reads_data t \<and> read_start t \<le> i \<and> i < read_end t)"

definition byte_addr :: "osd_rmw_stripe \<Rightarrow> nat \<Rightarrow> ptr" where
  "byte_addr t i = (if write_start t \<le> i \<and> i < write_end t then write_buf t + (i - write_start t) else rd_at t i)"

text \<open>The shape of the ranges that the plan leaves: what is written is one range, and what is read is
  another one or just the bitmap.\<close>

definition wf_ranges :: "nat \<Rightarrow> osd_rmw_stripe \<Rightarrow> bool" where
  "wf_ranges c t \<longleftrightarrow> (write_end t = 0 \<or> write_start t < write_end t) \<and> write_end t \<le> c \<and> wf_read c t"

lemma get_old_new_buffers_cases:
  assumes av: "avail s e t" and wf: "wf_ranges c t" and "s < e" "e \<le> c" "c < U32_MAX"
  obtains
    (old) "\<And>i. s \<le> i \<Longrightarrow> i < e \<Longrightarrow> \<not> (write_start t \<le> i \<and> i < write_end t)" "read_start t \<le> s"
      "get_old_new_buffers t s e = [\<lparr>bl_buf = read_buf t + s - read_start t, bl_len = e - s\<rparr>]"
  | (new) "write_start t \<le> s" "e \<le> write_end t"
      "get_old_new_buffers t s e = [\<lparr>bl_buf = write_buf t + s - write_start t, bl_len = e - s\<rparr>]"
  | (new_old) "write_start t \<le> s" "s < write_end t" "write_end t < e" "read_start t \<le> write_end t"
      "get_old_new_buffers t s e = [\<lparr>bl_buf = write_buf t + s - write_start t, bl_len = write_end t - s\<rparr>,
        \<lparr>bl_buf = read_buf t + write_end t - read_start t, bl_len = e - write_end t\<rparr>]"
  | (old_new) "s < write_start t" "write_start t < e" "e \<le> write_end t" "read_start t \<le> s"
      "get_old_new_buffers t s e = [\<lparr>bl_buf = read_buf t + s - read_start t, bl_len = write_start t - s\<rparr>,
        \<lparr>bl_buf = write_buf t + write_start t - write_start t, bl_len = e - write_start t\<rparr>]"
  | (old_new_old) "s < write_start t" "write_start t < write_end t" "write_end t < e" "read_start t \<le> s"
      "get_old_new_buffers t s e = [\<lparr>bl_buf = read_buf t + s - read_start t, bl_len = write_start t - s\<rparr>,
        \<lparr>bl_buf = write_buf t + write_start t - write_start t, bl_len = write_end t - write_start t\<rparr>,
        \<lparr>bl_buf = read_buf t + write_end t - read_start t, bl_len = e - write_end t\<rparr>]"
proof -
  have at: "write_start t \<le> i \<and> i < write_end t \<or> read_start t \<le> i \<and> i < read_end t \<and> read_end t \<noteq> 0 \<and> read_end t \<noteq> U32_MAX"
    if "s \<le> i" "i < e" for i
    using av that by (auto simp: avail_def reads_data_def)
  have w: "write_end t = 0 \<or> write_start t < write_end t"
    using wf by (simp add: wf_ranges_def)
  have "s \<le> e - 1" "e - 1 < e" using \<open>s < e\<close> by auto
  note last = at [OF this]
  note d = get_old_new_buffers_def Let_def
  consider (1) "write_end t \<le> s \<or> e \<le> write_start t" | (2) "write_start t \<le> s" "e \<le> write_end t"
    | (3) "write_start t \<le> s" "s < write_end t" "write_end t < e"
    | (4) "s < write_start t" "write_start t < e" "e \<le> write_end t"
    | (5) "s < write_start t" "write_start t < write_end t" "write_end t < e"
    using w \<open>s < e\<close> by linarith
  then show thesis
  proof cases
    case 1
    then have r: "read_start t \<le> s" "e \<le> read_end t"
      using at [of s] last \<open>s < e\<close> by auto
    show thesis
      by (rule old) (use 1 r assms(3-5) in \<open>auto simp: d\<close>)
  next
    case 2
    show thesis
      by (rule new) (use 2 assms(3-5) in \<open>auto simp: d\<close>)
  next
    case 3
    then have r: "read_start t \<le> write_end t" "e \<le> read_end t"
      using at [of "write_end t"] last \<open>s < e\<close> by auto
    show thesis
      by (rule new_old) (use 3 r assms(3-5) in \<open>auto simp: d\<close>)
  next
    case 4
    then have "s \<le> write_start t - 1" "write_start t - 1 < e" by auto
    from at [OF this] 4 have r: "read_start t \<le> s" "write_start t \<le> read_end t"
      using at [of s] by auto
    show thesis
      by (rule old_new) (use 4 r assms(3-5) in \<open>auto simp: d\<close>)
  next
    case 5
    then have r: "read_start t \<le> s" "e \<le> read_end t"
      using at [of s] last by auto
    show thesis
      by (rule old_new_old) (use 5 r assms(3-5) in \<open>auto simp: d\<close>)
  qed
qed

lemma get_old_new_buffers_correct:
  assumes "avail s e t" "wf_ranges c t" "s < e" "e \<le> c" "c < U32_MAX"
  shows "bufs_total (get_old_new_buffers t s e) = e - s \<and> get_old_new_buffers t s e \<noteq> [] \<and>
    (\<forall>b \<in> set (get_old_new_buffers t s e). 0 < bl_len b) \<and>
    (\<forall>p < e - s. bufs_addr (get_old_new_buffers t s e) p = byte_addr t (s + p))"
  by (rule get_old_new_buffers_cases [OF assms]) (use assms(3) in \<open>auto simp: byte_addr_def rd_at_def\<close>)

section \<open>Combining two lists of buffers\<close>

text \<open>The first \<open>p\<close> bytes of the destination hold the XOR of the bytes at the addresses \<open>A\<close> and \<open>B\<close>.\<close>

definition xored :: "ptr \<Rightarrow> (nat \<Rightarrow> ptr) \<Rightarrow> (nat \<Rightarrow> ptr) \<Rightarrow> nat \<Rightarrow> memory \<Rightarrow> memory" where
  "xored dest A B p M = (\<lambda>a. if a \<in> region dest p then M (A (a - dest)) XOR M (B (a - dest)) else M a)"

text \<open>Each source byte is the destination byte itself or lies outside of the destination.\<close>

definition no_clash :: "ptr \<Rightarrow> nat \<Rightarrow> (nat \<Rightarrow> ptr) \<Rightarrow> bool" where
  "no_clash dest len A \<longleftrightarrow> (\<forall>p<len. A p = dest + p \<or> A p \<notin> region dest len)"

lemma no_clashD: "no_clash dest len A \<Longrightarrow> p < len \<Longrightarrow> A p = dest + p \<or> A p \<notin> region dest len"
  unfolding no_clash_def by blast

lemma no_clash_segment:
  assumes nc: "no_clash dest len A" and seg: "\<And>q. q < n \<Longrightarrow> A (pos + q) = src + q" and "pos + n \<le> len"
  shows "src = dest + pos \<or> apart src n (dest + pos) n"
proof (cases "n = 0")
  case False
  show ?thesis
  proof (cases "src = dest + pos")
    case ne: False
    have "src + q \<notin> region (dest + pos) n" if "q < n" for q
    proof -
      have "src + q = dest + (pos + q) \<or> src + q \<notin> region dest len"
        using no_clashD [OF nc, of "pos + q"] seg [OF that] that assms(3) by (simp del: region_iff)
      with ne assms(3) show ?thesis by auto
    qed
    then have "region src n \<inter> region (dest + pos) n = {}"
      by (metis disjoint_iff le_Suc_ex add_less_cancel_left region_iff)
    then show ?thesis by (simp add: apart_iff)
  qed simp
qed (simp add: apart_def)

lemma memxor_segment:
  assumes A: "no_clash dest len A" "\<And>q. q < n \<Longrightarrow> A (pos + q) = r1 + q"
    and B: "no_clash dest len B" "\<And>q. q < n \<Longrightarrow> B (pos + q) = r2 + q" and le: "pos + n \<le> len"
  shows "memxor r1 r2 (dest + pos) n (xored dest A B pos M) = xored dest A B (pos + n) M"
proof
  fix a
  have src: "xored dest A B pos M (C (pos + q)) = M (C (pos + q))" if "no_clash dest len C" "q < n" for C q
    using no_clashD [OF that(1), of "pos + q"] that(2) le by (auto simp: xored_def)
  show "memxor r1 r2 (dest + pos) n (xored dest A B pos M) a = xored dest A B (pos + n) M a"
  proof (cases "a \<in> region (dest + pos) n")
    case True
    then obtain q where q: "a = dest + pos + q" "q < n"
      by (metis add_less_cancel_left le_Suc_ex region_iff)
    have "memxor r1 r2 (dest + pos) n (xored dest A B pos M) a = xored dest A B pos M (r1 + q) XOR xored dest A B pos M (r2 + q)"
      using True q memxor_at [OF no_clash_segment [OF A le] no_clash_segment [OF B le]] by simp
    also have "\<dots> = M (A (pos + q)) XOR M (B (pos + q))"
      using A(2) [OF q(2)] B(2) [OF q(2)] src [OF A(1) q(2)] src [OF B(1) q(2)] by simp
    also have "\<dots> = xored dest A B (pos + n) M a"
      using q by (simp add: xored_def add.assoc)
    finally show ?thesis .
  next
    case False
    then show ?thesis
      by (auto simp: memxor_outside xored_def)
  qed
qed

lemma xor_buffers_loop_correct:
  assumes "bufs_total x1 = len" "bufs_total x2 = len" "len \<le> U32_MAX"
    and "\<forall>b \<in> set x1. 0 < bl_len b" "\<forall>b \<in> set x2. 0 < bl_len b"
    and "no_clash dest len (bufs_addr x1)" "no_clash dest len (bufs_addr x2)"
    and "i1 < length x1" "i2 < length x2" "ends_at x1 i1 \<le> pos" "ends_at x2 i2 \<le> pos"
    and "pos < ends_at x1 (Suc i1)" "pos < ends_at x2 (Suc i2)"
  shows "xor_buffers_loop x1 x2 dest len i1 i2 (ends_at x1 i1) (ends_at x2 i2) (ends_at x1 (Suc i1)) (ends_at x2 (Suc i2)) pos
      (xored dest (bufs_addr x1) (bufs_addr x2) pos M) = Some (xored dest (bufs_addr x1) (bufs_addr x2) len M)"
  using assms(8-)
proof (induction "(length x1 - i1) + (length x2 - i2)" arbitrary: i1 i2 pos rule: less_induct)
  case less
  let ?X = "\<lambda>p. xored dest (bufs_addr x1) (bufs_addr x2) p M"
  let ?e = "min (ends_at x1 (Suc i1)) (ends_at x2 (Suc i2))"
  have e: "pos < ?e" "?e \<le> len"
    using less.prems ends_at_le [of x1 "Suc i1"] assms(1) by auto
  have seg1: "bufs_addr x1 (pos + q) = bl_buf (x1 ! i1) + pos - ends_at x1 i1 + q" if "q < ?e - pos" for q
    using bufs_addr_nth [of i1 x1 "pos + q"] less.prems that by simp
  have seg2: "bufs_addr x2 (pos + q) = bl_buf (x2 ! i2) + pos - ends_at x2 i2 + q" if "q < ?e - pos" for q
    using bufs_addr_nth [of i2 x2 "pos + q"] less.prems that by simp
  have "memxor (bl_buf (x1 ! i1) + pos - ends_at x1 i1) (bl_buf (x2 ! i2) + pos - ends_at x2 i2) (dest + pos) (sub32 ?e pos) (?X pos)
      = ?X (pos + (?e - pos))"
    using memxor_segment [OF assms(6) seg1 assms(7) seg2] e assms(3) by simp
  then have mem: "memxor (bl_buf (x1 ! i1) + pos - ends_at x1 i1) (bl_buf (x2 ! i2) + pos - ends_at x2 i2) (dest + pos) (sub32 ?e pos) (?X pos)
      = ?X ?e" using e by simp
  have step: "ends_at x (Suc (Suc i)) = add32 (ends_at x (Suc i)) (bl_len (x ! Suc i))" "ends_at x (Suc i) < ends_at x (Suc (Suc i))"
    if "Suc i < length x" "bufs_total x = len" "\<forall>b \<in> set x. 0 < bl_len b" for x i
    using that ends_at_le [of x "Suc (Suc i)"] assms(3) nth_mem [OF that(1)] by auto
  note unfold = xor_buffers_loop.simps [of x1 x2 dest len i1 i2 "ends_at x1 i1" "ends_at x2 i2" "ends_at x1 (Suc i1)"
    "ends_at x2 (Suc i2)" pos "?X pos", unfolded Let_def mem]
  have l: "pos < len" "i1 < length x1 \<and> i2 < length x2" using e(1) less_le_trans [OF e] less.prems(1,2) by blast+
  consider (stop) "ends_at x1 (Suc i1) \<le> ends_at x2 (Suc i2)" "Suc i1 = length x1"
    | (both) "ends_at x1 (Suc i1) = ends_at x2 (Suc i2)" "Suc i1 < length x1"
    | (fst) "ends_at x1 (Suc i1) < ends_at x2 (Suc i2)" "Suc i1 < length x1"
    | (snd) "ends_at x2 (Suc i2) < ends_at x1 (Suc i1)"
    using l(2) by linarith
  then show ?case
  proof cases
    case stop
    then have "ends_at x1 (Suc i1) = len" "ends_at x2 (Suc i2) = len"
      using ends_at_all [of x1 "Suc i1"] ends_at_le [of x2 "Suc i2"] assms(1,2) by auto
    then show ?thesis
      unfolding unfold using stop l by simp
  next
    case both
    have i2: "Suc i2 < length x2"
    proof (rule ccontr)
      assume "\<not> Suc i2 < length x2"
      then have "ends_at x1 (Suc i1) = len" using ends_at_all [of x2 "Suc i2"] both(1) assms(2) l(2) by simp
      with step(2) [OF both(2) assms(1,4)] ends_at_le [of x1 "Suc (Suc i1)"] assms(1) show False by simp
    qed
    note s1 = step [OF both(2) assms(1,4)] and s2 = step [OF i2 assms(2,5)]
    show ?thesis
      unfolding unfold
      using less.hyps [of "Suc i1" "Suc i2" ?e] both l i2 s1 s2 by (simp add: s1(1) s2(1))
  next
    case fst
    note s1 = step [OF fst(2) assms(1,4)]
    show ?thesis
      unfolding unfold
      using less.hyps [of "Suc i1" i2 ?e] fst l s1 less.prems by (simp add: s1(1))
  next
    case snd
    have i2: "Suc i2 < length x2"
    proof (rule ccontr)
      assume "\<not> Suc i2 < length x2"
      then have "ends_at x2 (Suc i2) = len" using ends_at_all [of x2 "Suc i2"] assms(2) l(2) by simp
      with snd ends_at_le [of x1 "Suc i1"] assms(1) show False by simp
    qed
    note s2 = step [OF i2 assms(2,5)]
    show ?thesis
      unfolding unfold
      using less.hyps [of i1 "Suc i2" ?e] snd l i2 s2 less.prems by (simp add: s2(1))
  qed
qed

lemma xor_multiple_buffers_correct:
  assumes "bufs_total x1 = len" "bufs_total x2 = len" "0 < len" "len \<le> U32_MAX"
    and "\<forall>b \<in> set x1. 0 < bl_len b" "\<forall>b \<in> set x2. 0 < bl_len b" "x1 \<noteq> []" "x2 \<noteq> []"
    and "no_clash dest len (bufs_addr x1)" "no_clash dest len (bufs_addr x2)"
  shows "xor_multiple_buffers x1 x2 dest len M = Some (xored dest (bufs_addr x1) (bufs_addr x2) len M)"
proof -
  have e: "bl_len (x ! 0) mod 2 ^ 32 = ends_at x (Suc 0)" "0 < ends_at x (Suc 0)" "0 < length x"
    if "x \<noteq> []" "bufs_total x = len" "\<forall>b \<in> set x. 0 < bl_len b" for x
    using that ends_at_le [of x "Suc 0"] ends_at_simps(2) [of 0 x] assms(4) by (auto simp: nth_mem)
  have "xored dest (bufs_addr x1) (bufs_addr x2) 0 M = M"
    by (rule ext) (auto simp: xored_def)
  then show ?thesis
    using xor_buffers_loop_correct [OF assms(1,2,4,5,6,9,10), of 0 0 0 M] e [OF assms(7,1,5)] e [OF assms(8,2,6)] assms(7,8)
    by (simp add: xor_multiple_buffers_def)
qed

end
