(* ===== verification/Rmw_Modify.thy ===== *)
theory Rmw_Modify
  imports Rmw_Parity
begin

text \<open>
  \<open>calc_rmw_parity_copy_mod\<close>: the bits of the request are set in the bitmaps of the data chunks, and a
  chunk that moves is completed with the request in its read buffer.
\<close>

section \<open>Bitmaps\<close>

text \<open>The granularity fits the bitmap, or there are no bitmaps.\<close>

definition granularity :: "nat \<Rightarrow> nat \<Rightarrow> nat" where
  "granularity c bs = (if bs > 0 then c div bs div 8 else 0)"

definition bitmap_fits :: "nat \<Rightarrow> nat \<Rightarrow> bool" where
  "bitmap_fits c bs \<longleftrightarrow> bs = 0 \<or> c = 8 * bs * granularity c bs"

lemma request_range_ok:
  assumes "bitmap_fits c bs" "0 < bs" "0 < c" "c < U32_MAX" "wf_req c t" "length bm = bs"
  shows "bmp_range_ok bm (req_start t) (req_end t - req_start t) (granularity c bs)"
proof -
  define g where "g = granularity c bs"
  have c: "c = 8 * bs * g" using assms(1,2) by (simp add: bitmap_fits_def g_def)
  then have g: "0 < g" "g \<le> c" using assms(2,3) by (auto intro: Nat.gr0I)
  have r: "req_start t + (req_end t - req_start t) = req_end t" "req_end t \<le> c"
    using assms(5) by (auto simp: wf_req_def)
  have "(req_end t + g - 1) div g \<le> (c + g - 1) div g"
    using r by (intro div_le_mono) simp
  also have "\<dots> = 8 * bs"
  proof -
    have "c + g - 1 = (g - 1) + 8 * bs * g" using g c by simp
    then show ?thesis using g by (simp only: div_mult_self1) simp
  qed
  finally have d: "(req_end t + g - 1) div g \<le> 8 * bs" .
  have "8 * bs \<le> c" using c g by simp
  then have "8 * bs \<le> 2 ^ 32 - 8" using assms(4) by simp
  then show ?thesis
    using d g r assms(4,6) unfolding bmp_range_ok_def g_def [symmetric] r(1) by simp
qed

definition new_bitmap :: "nat \<Rightarrow> nat \<Rightarrow> osd_rmw_stripe \<Rightarrow> u8 list \<Rightarrow> u8 list" where
  "new_bitmap c bs t bm =
     (if granularity c bs > 0 \<and> req_end t \<noteq> 0 then bitmap_set bm (req_start t) (req_end t - req_start t) (granularity c bs) else bm)"

lemma new_bitmap_length:
  assumes "bitmap_fits c bs" "0 < c" "c < U32_MAX" "wf_req c t" "length bm = bs"
  shows "length (new_bitmap c bs t bm) = bs"
proof (cases "0 < bs")
  case True
  then show ?thesis
    using bitmap_ops [OF request_range_ok [OF assms(1) True assms(2-5)]] assms(5) by (simp add: new_bitmap_def)
next
  case False
  then show ?thesis using assms(5) by (simp add: new_bitmap_def granularity_def)
qed

lemma new_bitmap_whole:
  assumes "bitmap_fits c bs" "0 < c" "c < U32_MAX" "wf_req c t" "length a = bs" "length b = bs" "whole_request c t"
  shows "new_bitmap c bs t a = new_bitmap c bs t b"
proof (cases "0 < bs")
  case True
  have w: "req_start t = 0" "req_end t = c" using assms(7) by (simp_all add: whole_request_def)
  have "bitmap_set a 0 c (granularity c bs) = bitmap_set b 0 c (granularity c bs)"
    using request_range_ok [OF assms(1) True assms(2-4,5)] True assms(1,5,6) w
    by (intro bitmap_set_whole) (simp_all add: bitmap_fits_def)
  moreover have "granularity c bs > 0"
    using assms(1,2) True by (auto simp: bitmap_fits_def intro: Nat.gr0I)
  ultimately show ?thesis
    using assms(2) w by (simp add: new_bitmap_def)
next
  case False
  then show ?thesis using assms(5,6) by (simp add: new_bitmap_def)
qed

definition set_bitmaps :: "stripes \<Rightarrow> nat \<Rightarrow> nat \<Rightarrow> nat \<Rightarrow> memory \<Rightarrow> memory" where
  "set_bitmaps st bs g k M =
     (if g > 0
      then fold (\<lambda>role m. if req_end (st ! role) \<noteq> 0 then mem_bitmap_set (st ! role) bs g m else m) [0..<k] M
      else M)"

lemma mem_bitmap_set_store:
  assumes "wf_req c t" "c < U32_MAX" "g = granularity c bs" "g > 0" "req_end t \<noteq> 0"
  shows "mem_bitmap_set t bs g M = mem_store (bmp_buf t) (new_bitmap c bs t (mem_bytes M (bmp_buf t) bs)) M"
  using assms by (simp add: mem_bitmap_set_def new_bitmap_def wf_req_def)

lemma set_bitmaps_correct:
  assumes "bitmap_fits c bs" "0 < c" "c < U32_MAX" "\<And>j. j < k \<Longrightarrow> wf_req c (st ! j)"
    and "\<And>i j. i < k \<Longrightarrow> j < k \<Longrightarrow> i \<noteq> j \<Longrightarrow> BB bs (st ! i) \<inter> BB bs (st ! j) = {}"
    and "M' = set_bitmaps st bs (granularity c bs) k M"
  shows "(\<forall>j<k. mem_bytes M' (bmp_buf (st ! j)) bs = new_bitmap c bs (st ! j) (mem_bytes M (bmp_buf (st ! j)) bs)) \<and>
    (\<forall>a. (\<forall>j<k. a \<notin> BB bs (st ! j)) \<longrightarrow> M' a = M a)"
proof (cases "granularity c bs > 0")
  case False
  then show ?thesis by (simp add: assms(6) set_bitmaps_def new_bitmap_def)
next
  case True
  let ?g = "granularity c bs"
  let ?f = "\<lambda>role m. if req_end (st ! role) \<noteq> 0 then mem_bitmap_set (st ! role) bs ?g m else m"
  have "(\<forall>j<n. mem_bytes (fold ?f [0..<n] M) (bmp_buf (st ! j)) bs = new_bitmap c bs (st ! j) (mem_bytes M (bmp_buf (st ! j)) bs)) \<and>
    (\<forall>a. (\<forall>j<n. a \<notin> BB bs (st ! j)) \<longrightarrow> fold ?f [0..<n] M a = M a)" if "n \<le> k" for n
    using that
  proof (induction n)
    case (Suc n)
    define N where "N = fold ?f [0..<n] M"
    then have IH: "\<And>j. j < n \<Longrightarrow> mem_bytes N (bmp_buf (st ! j)) bs = new_bitmap c bs (st ! j) (mem_bytes M (bmp_buf (st ! j)) bs)"
      "\<And>a. (\<And>j. j < n \<Longrightarrow> a \<notin> BB bs (st ! j)) \<Longrightarrow> N a = M a"
      using Suc by (auto simp del: region_iff)
    let ?t = "st ! n"
    have NM: "mem_bytes N (bmp_buf ?t) bs = mem_bytes M (bmp_buf ?t) bs"
    proof (rule mem_bytes_cong)
      fix i assume i: "i < bs"
      have "bmp_buf ?t + i \<in> BB bs ?t" using i by simp
      then show "N (bmp_buf ?t + i) = M (bmp_buf ?t + i)"
        using assms(5) [of _ n] Suc.prems by (intro IH(2)) (metis Suc_le_lessD disjoint_iff less_imp_le_nat less_le_trans nat_neq_iff)
    qed
    have len: "length (new_bitmap c bs ?t (mem_bytes M (bmp_buf ?t) bs)) = bs"
      using Suc.prems assms(4) by (intro new_bitmap_length [OF assms(1-3)]) simp_all
    have eq: "?f n N = mem_store (bmp_buf ?t) (new_bitmap c bs ?t (mem_bytes M (bmp_buf ?t) bs)) N"
    proof (cases "req_end ?t = 0")
      case True
      then show ?thesis using NM [symmetric] by (simp add: new_bitmap_def mem_store_bytes)
    next
      case False
      then show ?thesis
        using mem_bitmap_set_store [OF assms(4) [of n] assms(3) refl True False, of N] Suc.prems NM by simp
    qed
    have out: "?f n N a = N a" if "a \<notin> BB bs ?t" for a
      unfolding eq using that len by (simp add: mem_store_at del: region_iff)
    have bits: "mem_bytes (?f n N) (bmp_buf (st ! j)) bs = new_bitmap c bs (st ! j) (mem_bytes M (bmp_buf (st ! j)) bs)"
      if j: "j < Suc n" for j
    proof (cases "j = n")
      case True
      then show ?thesis
        unfolding eq True using mem_bytes_store [of "bmp_buf ?t" "new_bitmap c bs ?t (mem_bytes M (bmp_buf ?t) bs)" N] len by simp
    next
      case False
      then have "j < n" "BB bs (st ! j) \<inter> BB bs ?t = {}"
        using j assms(5) [of j n] Suc.prems by auto
      then show ?thesis
        using IH(1) [of j] out by (subst mem_bytes_cong [where m' = N]) (auto simp: disjoint_iff)
    qed
    have rest: "?f n N a = M a" if "\<And>j. j < Suc n \<Longrightarrow> a \<notin> BB bs (st ! j)" for a
      using out [of a] IH(2) [of a] that by (simp del: region_iff)
    have fs: "fold ?f [0..<Suc n] M = ?f n N"
      by (simp add: N_def)
    show ?case
      unfolding fs using bits rest by blast
  qed simp
  then show ?thesis
    using True unfolding assms(6) set_bitmaps_def by simp
qed

section \<open>Chunks that move\<close>

abbreviation WB :: "osd_rmw_stripe \<Rightarrow> ptr set" where
  "WB t \<equiv> region (write_buf t) (rq_len t)"

definition copied :: "osd_set \<Rightarrow> osd_set \<Rightarrow> nat \<Rightarrow> nat \<Rightarrow> osd_rmw_stripe \<Rightarrow> osd_rmw_stripe" where
  "copied rs ws c j t =
     (if chunk_moves rs ws j \<and> \<not> whole_request c t then t\<lparr>write_buf := read_buf t, write_start := 0, write_end := c\<rparr> else t)"

text \<open>The new contents of a chunk: the request where it covers the chunk, the old contents elsewhere.\<close>

definition new_chunk :: "osd_rmw_stripe \<Rightarrow> memory \<Rightarrow> (nat \<Rightarrow> u8) \<Rightarrow> nat \<Rightarrow> u8" where
  "new_chunk t M chunk i = (if req_start t \<le> i \<and> i < req_end t then M (write_buf t + (i - req_start t)) else chunk i)"

lemma copy_mod_fold:
  assumes len: "k \<le> length st"
    and sep: "\<And>i j. i < k \<Longrightarrow> j < k \<Longrightarrow> WB (st ! i) \<inter> RB (st ! j) = {}"
      "\<And>i j. i < k \<Longrightarrow> j < k \<Longrightarrow> i \<noteq> j \<Longrightarrow> RB (st ! i) \<inter> RB (st ! j) = {}"
    and full: "\<And>j. j < k \<Longrightarrow> chunk_moves rs ws j \<Longrightarrow> \<not> whole_request c (st ! j) \<Longrightarrow>
      read_start (st ! j) = 0 \<and> read_end (st ! j) = c"
    and wf: "\<And>j. j < k \<Longrightarrow> wf_req c (st ! j)" and c: "0 < c" "c < U32_MAX"
    and f: "fold (copy_mod_step rs ws c) [0..<k] (st, M) = (st', M')"
  shows "length st' = length st \<and> (\<forall>j<length st. st' ! j = (if j < k then copied rs ws c j (st ! j) else st ! j)) \<and>
    (\<forall>j<k. chunk_moves rs ws j \<and> \<not> whole_request c (st ! j) \<longrightarrow>
      (\<forall>i<c. M' (read_buf (st ! j) + i) = new_chunk (st ! j) M (\<lambda>i. M (read_buf (st ! j) + i)) i)) \<and>
    (\<forall>a. (\<forall>j<k. chunk_moves rs ws j \<and> \<not> whole_request c (st ! j) \<longrightarrow> a \<notin> RB (st ! j)) \<longrightarrow> M' a = M a)"
  using len sep full wf f
proof (induction k arbitrary: st' M')
  case (Suc k)
  obtain u N where u: "fold (copy_mod_step rs ws c) [0..<k] (st, M) = (u, N)" by (metis surj_pair)
  note prems = Suc.prems(2) [OF less_SucI less_SucI] Suc.prems(3) [OF less_SucI less_SucI] Suc.prems(4,5) [OF less_SucI]
  have "k \<le> length st" using Suc.prems(1) by simp
  note I = Suc.IH [OF this prems u]
  have IH: "length u = length st" "\<And>j. j < length st \<Longrightarrow> u ! j = (if j < k then copied rs ws c j (st ! j) else st ! j)"
    "\<And>j i. j < k \<Longrightarrow> chunk_moves rs ws j \<Longrightarrow> \<not> whole_request c (st ! j) \<Longrightarrow> i < c \<Longrightarrow>
      N (read_buf (st ! j) + i) = new_chunk (st ! j) M (\<lambda>i. M (read_buf (st ! j) + i)) i"
    "\<And>a. (\<And>j. j < k \<Longrightarrow> chunk_moves rs ws j \<Longrightarrow> \<not> whole_request c (st ! j) \<Longrightarrow> a \<notin> RB (st ! j)) \<Longrightarrow> N a = M a"
    using I by blast+
  let ?t = "st ! k"
  have k: "u ! k = ?t" "k < length u" using IH(1,2) Suc.prems(1) by simp_all
  have step: "copy_mod_step rs ws c k (u, N) = (st', M')" using Suc.prems(6) u by simp
  show ?case
  proof (cases "chunk_moves rs ws k \<and> \<not> whole_request c ?t")
    case False
    then have "st' = u" "M' = N"
      using step k by (auto simp: copy_mod_step_def Let_def chunk_moves_def whole_request_def)
    then show ?thesis
      using IH False by (auto simp: less_Suc_eq copied_def simp del: region_iff)
  next
    case True
    have full: "read_start ?t = 0" "read_end ?t = c" and wf: "wf_req c ?t"
      using Suc.prems(4,5) [of k] True by auto
    then have rd: "rd_len ?t = c" and rq: "rq_len ?t = req_end ?t - req_start ?t" "sub32 (req_end ?t) (req_start ?t) = rq_len ?t"
      using c by (auto simp: rd_len_def reads_data_def read_len_def rq_len_def wf_req_def)
    have st': "st' = u[k := copied rs ws c k ?t]" and M': "M' = memcpy (read_buf ?t + req_start ?t) (write_buf ?t) (rq_len ?t) N"
      using step k True rq(2) by (auto simp: copy_mod_step_def Let_def chunk_moves_def whole_request_def copied_def)
    have new: "M' (read_buf ?t + i) = new_chunk ?t M (\<lambda>i. M (read_buf ?t + i)) i" if i: "i < c" for i
    proof (cases "req_start ?t \<le> i \<and> i < req_end ?t")
      case True
      have "write_buf ?t + (i - req_start ?t) \<in> WB ?t" using True rq(1) by auto
      then have "write_buf ?t + (i - req_start ?t) \<notin> RB (st ! j)" if "j < k" for j
        using Suc.prems(2) [of k j] that by (auto simp: disjoint_iff simp del: region_iff)
      then have "N (write_buf ?t + (i - req_start ?t)) = M (write_buf ?t + (i - req_start ?t))"
        by (rule IH(4))
      then show ?thesis
        using True rq(1) by (auto simp: M' memcpy_at new_chunk_def)
    next
      case False
      have "read_buf ?t + i \<in> RB ?t" using i rd by simp
      then have "read_buf ?t + i \<notin> RB (st ! j)" if "j < k" for j
        using Suc.prems(3) [of j k] that by (auto simp: disjoint_iff simp del: region_iff)
      then have "N (read_buf ?t + i) = M (read_buf ?t + i)"
        by (rule IH(4))
      then show ?thesis
        using False rq(1) by (auto simp: M' memcpy_at new_chunk_def)
    qed
    have out: "M' a = N a" if "a \<notin> RB ?t" for a
      using that wf rq(1) rd by (auto simp: M' memcpy_at wf_req_def)
    have keep: "M' (read_buf (st ! j) + i) = N (read_buf (st ! j) + i)"
      if "j < k" "chunk_moves rs ws j" "\<not> whole_request c (st ! j)" "i < c" for j i
    proof (rule out)
      have "rd_len (st ! j) = c"
        using Suc.prems(4) [of j] that c by (auto simp: rd_len_def reads_data_def read_len_def)
      then have "read_buf (st ! j) + i \<in> RB (st ! j)" using that(4) by simp
      then show "read_buf (st ! j) + i \<notin> RB ?t"
        using Suc.prems(3) [of j k] that(1) by (auto simp: disjoint_iff simp del: region_iff)
    qed
    show ?thesis
    proof (intro conjI allI impI)
      show "length st' = length st" using IH(1) st' by simp
    next
      fix j assume "j < length st"
      then show "st' ! j = (if j < Suc k then copied rs ws c j (st ! j) else st ! j)"
        using IH(2) k(2) by (cases "j = k") (auto simp: st' less_Suc_eq)
    next
      fix j i assume "j < Suc k" "chunk_moves rs ws j \<and> \<not> whole_request c (st ! j)" "i < c"
      then show "M' (read_buf (st ! j) + i) = new_chunk (st ! j) M (\<lambda>i. M (read_buf (st ! j) + i)) i"
        using new [of i] keep [of j i] IH(3) [of j i] by (cases "j = k") auto
    next
      fix a assume a: "\<forall>j<Suc k. chunk_moves rs ws j \<and> \<not> whole_request c (st ! j) \<longrightarrow> a \<notin> RB (st ! j)"
      from a [rule_format, OF lessI] True have "a \<notin> RB ?t" by blast
      then have "M' a = N a" by (rule out)
      also have "N a = M a"
      proof (rule IH(4))
        fix j assume j: "j < k" "chunk_moves rs ws j" "\<not> whole_request c (st ! j)"
        from a [rule_format, OF less_SucI [OF j(1)]] j show "a \<notin> RB (st ! j)" by blast
      qed
      finally show "M' a = M a" .
    qed
  qed
qed simp

end
