(* ===== verification/Rmw_Xor.thy ===== *)
theory Rmw_Xor
  imports Rmw_Modify
begin

text \<open>
  The whole of \<open>calc_rmw_parity_xor\<close>: after it every write buffer holds the new contents of its
  chunk, and the parity chunk is again the XOR of the data chunks.
\<close>

section \<open>The loop over the data chunks\<close>

abbreviation PB :: "stripes \<Rightarrow> nat \<Rightarrow> nat \<Rightarrow> nat \<Rightarrow> ptr set" where
  "PB st k s e \<equiv> region (write_buf (st ! k)) (e - s)"

definition parity_mem :: "stripes \<Rightarrow> nat \<Rightarrow> nat \<Rightarrow> nat \<Rightarrow> nat \<Rightarrow> nat \<Rightarrow> memory \<Rightarrow> memory" where
  "parity_mem st k bs s e m M = (\<lambda>a.
     if a \<in> PB st k s e then xsum (\<lambda>j. M (byte_addr (st ! j) (s + (a - write_buf (st ! k))))) m
     else if a \<in> BB bs (st ! k) then xsum (\<lambda>j. M (bmp_buf (st ! j) + (a - bmp_buf (st ! k)))) m
     else M a)"

definition parity_state :: "stripes \<Rightarrow> nat \<Rightarrow> nat \<Rightarrow> nat \<Rightarrow> nat \<Rightarrow> nat \<Rightarrow> memory \<Rightarrow> int \<times> memory" where
  "parity_state st k bs s e m M =
     (if m = 0 then (-2, M) else if m = 1 then (0, M) else (-1, parity_mem st k bs s e m M))"

text \<open>The data buffers are apart from the parity buffers.\<close>

definition parity_sep :: "stripes \<Rightarrow> nat \<Rightarrow> nat \<Rightarrow> nat \<Rightarrow> nat \<Rightarrow> bool" where
  "parity_sep st k bs s e \<longleftrightarrow> PB st k s e \<inter> BB bs (st ! k) = {} \<and>
     (\<forall>j<k. BB bs (st ! j) \<inter> BB bs (st ! k) = {} \<and> BB bs (st ! j) \<inter> PB st k s e = {} \<and>
       (\<forall>i. s \<le> i \<and> i < e \<longrightarrow> byte_addr (st ! j) i \<notin> PB st k s e \<and> byte_addr (st ! j) i \<notin> BB bs (st ! k)))"

lemma parity_mem_cases:
  "a \<in> PB st k s e \<Longrightarrow> parity_mem st k bs s e m M a = xsum (\<lambda>j. M (byte_addr (st ! j) (s + (a - write_buf (st ! k))))) m"
  "a \<notin> PB st k s e \<Longrightarrow> a \<in> BB bs (st ! k) \<Longrightarrow>
    parity_mem st k bs s e m M a = xsum (\<lambda>j. M (bmp_buf (st ! j) + (a - bmp_buf (st ! k)))) m"
  "a \<notin> PB st k s e \<Longrightarrow> a \<notin> BB bs (st ! k) \<Longrightarrow> parity_mem st k bs s e m M a = M a"
  unfolding parity_mem_def by (simp_all only: if_True if_False simp_thms)

text \<open>One turn: \<open>A\<close> is the first operand, the data of chunk 0 or the parity buffer itself.\<close>

lemma xor_turn:
  assumes x1: "bufs_total x1 = e - s \<and> x1 \<noteq> [] \<and> (\<forall>b \<in> set x1. 0 < bl_len b)" "\<And>p. p < e - s \<Longrightarrow> bufs_addr x1 p = A p"
    and t: "avail s e t" "wf_ranges c t" and r: "s < e" "e \<le> c" "c < U32_MAX"
    and A: "no_clash d (e - s) A" "\<And>p. p < e - s \<Longrightarrow> A p \<notin> region b bs"
    and B: "\<And>i. s \<le> i \<Longrightarrow> i < e \<Longrightarrow> byte_addr t i \<notin> region d (e - s)" "\<And>i. s \<le> i \<Longrightarrow> i < e \<Longrightarrow> byte_addr t i \<notin> region b bs"
    and bb: "b1 = b \<or> apart b1 bs b bs" "apart (bmp_buf t) bs b bs" "region d (e - s) \<inter> region b bs = {}"
  shows "xor_multiple_buffers x1 (get_old_new_buffers t s e) d (sub32 e s) (memxor b1 (bmp_buf t) b bs M) =
    Some (\<lambda>a. if a \<in> region d (e - s) then M (A (a - d)) XOR M (byte_addr t (s + (a - d)))
       else if a \<in> region b bs then M (b1 + (a - b)) XOR M (bmp_buf t + (a - b)) else M a)"
proof -
  let ?x2 = "get_old_new_buffers t s e" and ?N = "memxor b1 (bmp_buf t) b bs M"
  have x2: "bufs_total ?x2 = e - s" "?x2 \<noteq> []" "\<forall>b \<in> set ?x2. 0 < bl_len b"
    "\<And>p. p < e - s \<Longrightarrow> bufs_addr ?x2 p = byte_addr t (s + p)"
    using get_old_new_buffers_correct [OF t r] by blast+
  have nc1: "no_clash d (e - s) (bufs_addr x1)"
    using A(1) x1(2) by (simp add: no_clash_def)
  have nc2: "no_clash d (e - s) (bufs_addr ?x2)"
    using B(1) x2(4) by (simp add: no_clash_def)
  have len: "sub32 e s = e - s" "0 < e - s" "e - s \<le> U32_MAX" using r by simp_all
  have N: "?N a = (if a \<in> region b bs then M (b1 + (a - b)) XOR M (bmp_buf t + (a - b)) else M a)" for a
    by (rule memxor_at [OF bb(1) disjI2 [OF bb(2)]])
  have "xor_multiple_buffers x1 ?x2 d (sub32 e s) ?N = Some (xored d (bufs_addr x1) (bufs_addr ?x2) (e - s) ?N)"
    unfolding len(1) using x1(1) by (intro xor_multiple_buffers_correct [OF _ x2(1) len(2,3) _ x2(3) _ x2(2) nc1 nc2]) blast+
  also have "\<dots> = Some (\<lambda>a. if a \<in> region d (e - s) then M (A (a - d)) XOR M (byte_addr t (s + (a - d)))
       else if a \<in> region b bs then M (b1 + (a - b)) XOR M (bmp_buf t + (a - b)) else M a)"
  proof -
    have "xored d (bufs_addr x1) (bufs_addr ?x2) (e - s) ?N a =
       (if a \<in> region d (e - s) then M (A (a - d)) XOR M (byte_addr t (s + (a - d)))
       else if a \<in> region b bs then M (b1 + (a - b)) XOR M (bmp_buf t + (a - b)) else M a)" for a
    proof (cases "a \<in> region d (e - s)")
      case True
      then have p: "a - d < e - s" by auto
      have "?N (A (a - d)) = M (A (a - d))" "?N (byte_addr t (s + (a - d))) = M (byte_addr t (s + (a - d)))"
        using A(2) [OF p] B(2) [of "s + (a - d)"] p unfolding N by (simp_all del: region_iff)
      then show ?thesis
        using True x1(2) [OF p] x2(4) [OF p] by (simp add: xored_def del: region_iff)
    next
      case False
      then show ?thesis
        using N [of a] by (simp add: xored_def del: region_iff)
    qed
    then show ?thesis by auto
  qed
  finally show ?thesis .
qed

lemma parity_step:
  assumes sep: "parity_sep st k bs s e" and t: "\<And>j. j < k \<Longrightarrow> avail s e (st ! j)" "\<And>j. j < k \<Longrightarrow> wf_ranges c (st ! j)"
    and r: "s < e" "e \<le> c" "c < U32_MAX" and m: "m < k"
  shows "xor_parity_step st k bs s e m (parity_state st k bs s e m M) = Some (parity_state st k bs s e (Suc m) M)"
proof -
  let ?d = "write_buf (st ! k)" and ?b = "bmp_buf (st ! k)"
  have S: "PB st k s e \<inter> BB bs (st ! k) = {}" "\<And>j. j < k \<Longrightarrow> apart (bmp_buf (st ! j)) bs ?b bs"
    "\<And>j. j < k \<Longrightarrow> BB bs (st ! j) \<inter> PB st k s e = {}"
    "\<And>j i. j < k \<Longrightarrow> s \<le> i \<Longrightarrow> i < e \<Longrightarrow> byte_addr (st ! j) i \<notin> PB st k s e"
    "\<And>j i. j < k \<Longrightarrow> s \<le> i \<Longrightarrow> i < e \<Longrightarrow> byte_addr (st ! j) i \<notin> BB bs (st ! k)"
    using sep unfolding parity_sep_def apart_iff by blast+
  note turn = xor_turn [OF _ _ t(1) [OF m] t(2) [OF m] r _ _ S(4) [OF m] S(5) [OF m] _ S(2) [OF m] S(1)]
  consider "m = 0" | "m = 1" | "m \<ge> 2" by linarith
  then show ?thesis
  proof cases
    case 1
    then show ?thesis by (simp add: parity_state_def xor_parity_step_def)
  next
    case 2
    then have z: "0 < k" using m by simp
    note x1 = get_old_new_buffers_correct [OF t(1) [OF z] t(2) [OF z] r]
    have "xor_multiple_buffers (get_old_new_buffers (st ! 0) s e) (get_old_new_buffers (st ! m) s e) ?d (sub32 e s)
        (memxor (bmp_buf (st ! 0)) (bmp_buf (st ! m)) ?b bs M) =
      Some (\<lambda>a. if a \<in> PB st k s e then M (byte_addr (st ! 0) (s + (a - ?d))) XOR M (byte_addr (st ! m) (s + (a - ?d)))
        else if a \<in> BB bs (st ! k) then M (bmp_buf (st ! 0) + (a - ?b)) XOR M (bmp_buf (st ! m) + (a - ?b)) else M a)"
      by (rule turn [where A = "\<lambda>p. byte_addr (st ! 0) (s + p)"])
        (use x1 S(2,4,5) [OF z] in \<open>auto simp: no_clash_def simp del: region_iff\<close>)
    then show ?thesis
      unfolding 2 by (simp add: parity_state_def xor_parity_step_def parity_mem_def Let_def fun_eq_iff del: region_iff)
  next
    case 3
    let ?M = "parity_mem st k bs s e m M"
    have x1: "bufs_addr [\<lparr>bl_buf = ?d, bl_len = sub32 e s\<rparr>] p = ?d + p" if "p < e - s" for p
      using that r by simp
    have "xor_multiple_buffers [\<lparr>bl_buf = ?d, bl_len = sub32 e s\<rparr>] (get_old_new_buffers (st ! m) s e) ?d (sub32 e s)
        (memxor ?b (bmp_buf (st ! m)) ?b bs ?M) =
      Some (\<lambda>a. if a \<in> PB st k s e then ?M (?d + (a - ?d)) XOR ?M (byte_addr (st ! m) (s + (a - ?d)))
        else if a \<in> BB bs (st ! k) then ?M (?b + (a - ?b)) XOR ?M (bmp_buf (st ! m) + (a - ?b)) else ?M a)"
    proof (rule turn [where A = "\<lambda>p. ?d + p"])
      show "?d + p \<notin> BB bs (st ! k)" if "p < e - s" for p
        using S(1) that by (auto simp: disjoint_iff)
    qed (use r x1 in \<open>auto simp: no_clash_def\<close>)
    also have "\<dots> = Some (parity_mem st k bs s e (Suc m) M)"
    proof -
      have "(if a \<in> PB st k s e then ?M (?d + (a - ?d)) XOR ?M (byte_addr (st ! m) (s + (a - ?d)))
        else if a \<in> BB bs (st ! k) then ?M (?b + (a - ?b)) XOR ?M (bmp_buf (st ! m) + (a - ?b)) else ?M a)
        = parity_mem st k bs s e (Suc m) M a" for a
      proof -
        consider (pb) "a \<in> PB st k s e" | (bb) "a \<notin> PB st k s e" "a \<in> BB bs (st ! k)"
          | (out) "a \<notin> PB st k s e" "a \<notin> BB bs (st ! k)" by blast
        then show ?thesis
        proof cases
          case pb
          then have i: "?d + (a - ?d) = a" "s + (a - ?d) < e" "s \<le> s + (a - ?d)" by auto
          show ?thesis
            using pb parity_mem_cases(3) [OF S(4,5) [OF m i(3,2) ]] i(1)
            by (simp add: parity_mem_cases(1) [OF pb] S(4,5) [OF m i(3,2)] del: region_iff)
        next
          case bb
          then have i: "?b + (a - ?b) = a" "bmp_buf (st ! m) + (a - ?b) \<in> BB bs (st ! m)" by auto
          then have "bmp_buf (st ! m) + (a - ?b) \<notin> PB st k s e" "bmp_buf (st ! m) + (a - ?b) \<notin> BB bs (st ! k)"
            using S(2,3) [OF m] unfolding apart_iff by blast+
          note o = parity_mem_cases(3) [OF this]
          show ?thesis
            unfolding i(1) o using bb by (simp add: parity_mem_cases(2) [OF bb] del: region_iff)
        next
          case out
          then show ?thesis by (simp add: parity_mem_cases(3) [OF out] del: region_iff)
        qed
      qed
      then show ?thesis by auto
    qed
    finally show ?thesis
      using 3 by (simp add: parity_state_def xor_parity_step_def Let_def)
  qed
qed

lemma parity_loop:
  assumes "parity_sep st k bs s e" "\<And>j. j < k \<Longrightarrow> avail s e (st ! j)" "\<And>j. j < k \<Longrightarrow> wf_ranges c (st ! j)"
    and "s < e" "e \<le> c" "c < U32_MAX" "2 \<le> k"
  shows "fold_opt (xor_parity_step st k bs s e) [0..<k] (-2, M) = Some (-1, parity_mem st k bs s e k M)"
proof -
  have "fold_opt (xor_parity_step st k bs s e) [0..<m] (-2, M) = Some (parity_state st k bs s e m M)" if "m \<le> k" for m
    using that
  proof (induction m)
    case 0
    then show ?case by (simp add: parity_state_def)
  next
    case (Suc m)
    then show ?case
      using parity_step [OF assms(1-6), where m = m and M = M] by (simp add: fold_opt_upt_Suc del: upt_Suc)
  qed
  then show ?thesis
    using assms(7) by (simp add: parity_state_def)
qed

end
