(* ===== verification/Rmw_Ec.thy ===== *)
theory Rmw_Ec
  imports Rmw
begin

text \<open>
  The Reed-Solomon scheme of \<open>src/src/osd/osd_rmw.cpp\<close> in the build with ISA-L: the reference counted
  coding matrices, the cached decoding tables, reconstruction of missing data chunks and the
  computation of the new parity. The functions of jerasure and ISA-L are the fields of a record the
  definitions take as an argument; they are code of other projects. \<open>None\<close> stands for a failed
  \<open>assert\<close>, \<open>abort()\<close> and for the exceptions the code throws.
\<close>

section \<open>The coding libraries\<close>

text \<open>
  \<open>lib_vandermonde k m\<close> is \<open>reed_sol_vandermonde_coding_matrix(k, m, 8)\<close>, \<open>lib_init_tables k rows a\<close> the
  bytes \<open>ec_init_tables\<close> writes, \<open>lib_invert a n\<close> the output of \<open>gf_invert_matrix\<close>, and
  \<open>lib_encode len k rows tbl data coding\<close> the effect of \<open>ec_encode_data\<close> on the memory.
\<close>

record ec_lib =
  lib_vandermonde :: "nat \<Rightarrow> nat \<Rightarrow> int list"
  lib_init_tables :: "nat \<Rightarrow> nat \<Rightarrow> u8 list \<Rightarrow> u8 list"
  lib_invert :: "u8 list \<Rightarrow> nat \<Rightarrow> u8 list"
  lib_encode :: "nat \<Rightarrow> nat \<Rightarrow> nat \<Rightarrow> u8 list \<Rightarrow> ptr list \<Rightarrow> ptr list \<Rightarrow> memory \<Rightarrow> memory"

section \<open>Matrices\<close>

fun reed_sol_erased_less :: "nat list \<Rightarrow> nat list \<Rightarrow> bool" where
  "reed_sol_erased_less (a # as) (b # bs) = (if a < b then True else if a > b then False else reed_sol_erased_less as bs)"
| "reed_sol_erased_less _ _ = False"

text \<open>The two caches of a matrix: coding tables without some parity rows, and decoding tables by the
  vector of erased chunks. All vectors of one matrix have the length \<open>pg_size\<close>, where the order of the
  map separates different vectors (see below), so that the caches are partial functions.\<close>

record reed_sol_matrix =
  refs :: int
  je_data :: "int list"
  isal_data :: "u8 list"
  isal_item_size :: nat
  subdata :: "u8 list \<Rightarrow> u8 list option"
  decodings :: "nat list \<Rightarrow> u8 list option"

type_synonym matrices = "u64 \<Rightarrow> reed_sol_matrix option"

definition ec_key :: "nat \<Rightarrow> nat \<Rightarrow> u64" where
  "ec_key pg_size pg_minsize = of_nat pg_size OR push_bit 32 (of_nat pg_minsize)"

text \<open>A zeroed buffer of \<open>n\<close> bytes that \<open>bs\<close> is written to.\<close>

definition zero_padded :: "nat \<Rightarrow> u8 list \<Rightarrow> u8 list" where
  "zero_padded n bs = bs @ replicate (n - length bs) 0"

definition make_matrix :: "ec_lib \<Rightarrow> nat \<Rightarrow> nat \<Rightarrow> reed_sol_matrix option" where
  "make_matrix lib pg_size pg_minsize =
     (let k = pg_minsize; m = pg_size - pg_minsize;
          matrix = lib_vandermonde lib k m;
          isal_matrix = map (\<lambda>i. of_int (matrix ! i)) [0..<k * m];
          isal_table = zero_padded (k * m * 32) (lib_init_tables lib k m isal_matrix);
          item_size = (if list_ex (\<lambda>i. isal_table ! i \<noteq> 0) [k * m * 8..<k * m * 32] then 32 else 8)
      in if list_ex (\<lambda>i. take (k * item_size) (drop (i * k * item_size) isal_table) = replicate (k * item_size) 0) [0..<m]
         then None
         else Some \<lparr>refs = 0, je_data = matrix, isal_data = isal_table, isal_item_size = item_size,
                    subdata = (\<lambda>_. None), decodings = (\<lambda>_. None)\<rparr>)"

definition use_ec :: "ec_lib \<Rightarrow> nat \<Rightarrow> nat \<Rightarrow> bool \<Rightarrow> matrices \<Rightarrow> matrices option" where
  "use_ec lib pg_size pg_minsize use_it ms =
     (let key = ec_key pg_size pg_minsize in
      if ms key = None \<and> \<not> use_it then Some ms
      else do {
        mx \<leftarrow> (case ms key of None \<Rightarrow> make_matrix lib pg_size pg_minsize | Some mx \<Rightarrow> Some mx);
        let mx = mx\<lparr>refs := refs mx + (if use_it then 1 else -1)\<rparr>;
        Some (if refs mx \<le> 0 then ms(key := None) else ms(key := Some mx))
      })"

definition get_ec_matrix :: "nat \<Rightarrow> nat \<Rightarrow> matrices \<Rightarrow> reed_sol_matrix option" where
  "get_ec_matrix pg_size pg_minsize ms = ms (ec_key pg_size pg_minsize)"

section \<open>Decoding tables\<close>

definition erased_vector :: "stripes \<Rightarrow> nat \<Rightarrow> nat list" where
  "erased_vector st pg_size =
     map (\<lambda>i. if read_end (st ! i) = 0 then 2 else if missing (st ! i) then 1 else 0) [0..<pg_size]"

text \<open>The rows of the existing chunks, at most \<open>pg_minsize\<close> of them.\<close>

definition submatrix_rows :: "nat list \<Rightarrow> nat \<Rightarrow> nat \<Rightarrow> int list \<Rightarrow> u8 list list" where
  "submatrix_rows er pg_size pg_minsize je =
     map (\<lambda>i. if i < pg_minsize then map (\<lambda>j. if j = i then 1 else 0) [0..<pg_minsize]
              else map (\<lambda>j. of_int (je ! ((i - pg_minsize) * pg_minsize + j))) [0..<pg_minsize])
       (take pg_minsize (filter (\<lambda>i. er ! i = 0) [0..<pg_size]))"

definition make_decoding_table :: "ec_lib \<Rightarrow> nat list \<Rightarrow> nat \<Rightarrow> nat \<Rightarrow> int list \<Rightarrow> u8 list option" where
  "make_decoding_table lib er pg_size pg_minsize je =
     (let rows = submatrix_rows er pg_size pg_minsize je in
      if length rows < pg_minsize then None
      else
        let inv = lib_invert lib (concat rows) pg_minsize;
            wanted = filter (\<lambda>i. er ! i = 1) [0..<pg_minsize];
            sub = concat (map (\<lambda>i. take pg_minsize (drop (i * pg_minsize) inv)) wanted)
        in Some (lib_init_tables lib pg_minsize (length wanted) sub))"

text \<open>The table or \<open>NULL\<close>, the variable \<open>item_size\<close> points to, and the matrices with their caches.\<close>

definition get_jerasure_decoding_matrix ::
  "ec_lib \<Rightarrow> stripes \<Rightarrow> nat \<Rightarrow> nat \<Rightarrow> nat \<Rightarrow> matrices \<Rightarrow> (u8 list option \<times> nat \<times> matrices) option"
where
  "get_jerasure_decoding_matrix lib st pg_size pg_minsize item_size ms =
     (let er = erased_vector st pg_size;
          edd = length (filter (\<lambda>i. read_end (st ! i) \<noteq> 0 \<and> missing (st ! i)) [0..<pg_minsize])
      in if edd = 0 then Some (None, item_size, ms)
         else do {
           mx \<leftarrow> get_ec_matrix pg_size pg_minsize ms;
           case decodings mx er of
             Some t \<Rightarrow> Some (Some t, item_size, ms)
           | None \<Rightarrow> do {
               t \<leftarrow> make_decoding_table lib er pg_size pg_minsize (je_data mx);
               Some (Some t, isal_item_size mx,
                 ms(ec_key pg_size pg_minsize := Some (mx\<lparr>decodings := (decodings mx)(er := Some t)\<rparr>)))
             }
         })"

section \<open>Reconstruction\<close>

definition ec_sources :: "stripes \<Rightarrow> nat \<Rightarrow> nat \<Rightarrow> nat list" where
  "ec_sources st pg_size pg_minsize =
     take pg_minsize (filter (\<lambda>other. read_end (st ! other) \<noteq> 0 \<and> \<not> missing (st ! other)) [0..<pg_size])"

text \<open>The closure \<open>recover_seq\<close>: the wanted buffers \<open>wanted\<close> all have the range from \<open>start\<close> to \<open>stop\<close>.
  The result is the new \<open>wanted_base\<close> and the memory.\<close>

definition recover_seq ::
  "ec_lib \<Rightarrow> stripes \<Rightarrow> nat \<Rightarrow> nat \<Rightarrow> u8 list \<Rightarrow> nat \<Rightarrow> nat \<Rightarrow> nat \<Rightarrow> ptr list \<Rightarrow> nat \<Rightarrow> memory \<Rightarrow> (nat \<times> memory) option"
where
  "recover_seq lib st pg_size pg_minsize dectable item_size start stop wanted wanted_base m =
     (if stop \<noteq> U32_MAX
      then
        let src = ec_sources st pg_size pg_minsize in
        if list_all (\<lambda>other. read_start (st ! other) \<le> start \<and> read_end (st ! other) \<ge> stop) src
        then Some (wanted_base + length wanted,
               lib_encode lib (stop - start) pg_minsize (length wanted)
                 (drop (wanted_base * item_size * pg_minsize) dectable)
                 (map (\<lambda>other. read_buf (st ! other) + (start - read_start (st ! other))) src) wanted m)
        else None
      else Some (wanted_base + length wanted, m))"

definition ec_role_step ::
  "ec_lib \<Rightarrow> stripes \<Rightarrow> nat \<Rightarrow> nat \<Rightarrow> u8 list \<Rightarrow> nat \<Rightarrow> nat \<Rightarrow>
    (nat \<times> nat) \<times> ptr list \<times> nat \<times> memory \<Rightarrow> ((nat \<times> nat) \<times> ptr list \<times> nat \<times> memory) option"
where
  "ec_role_step lib st pg_size pg_minsize dectable item_size role = (\<lambda>((start, stop), wanted, base, m).
     let s = st ! role in
     if read_end s \<noteq> 0 \<and> missing s
     then do {
       (wanted, base, m) \<leftarrow>
         (if stop \<noteq> 0 \<and> (read_start s \<noteq> start \<or> read_end s \<noteq> stop)
          then map_option (\<lambda>(base, m). ([], base, m))
                 (recover_seq lib st pg_size pg_minsize dectable item_size start stop wanted base m)
          else Some (wanted, base, m));
       Some ((read_start s, read_end s), wanted @ [read_buf s], base, m)
     }
     else Some ((start, stop), wanted, base, m))"

definition recover_bitmaps :: "ec_lib \<Rightarrow> stripes \<Rightarrow> nat \<Rightarrow> nat \<Rightarrow> nat \<Rightarrow> u8 list \<Rightarrow> memory \<Rightarrow> memory" where
  "recover_bitmaps lib st pg_size pg_minsize bitmap_size dectable m =
     (let wanted = map (\<lambda>r. bmp_buf (st ! r)) (filter (\<lambda>r. read_end (st ! r) \<noteq> 0 \<and> missing (st ! r)) [0..<pg_minsize]) in
      if bitmap_size > 0 \<and> wanted \<noteq> []
      then lib_encode lib bitmap_size pg_minsize (length wanted) dectable
             (map (\<lambda>other. bmp_buf (st ! other)) (ec_sources st pg_size pg_minsize)) wanted m
      else m)"

definition reconstruct_stripes_ec ::
  "ec_lib \<Rightarrow> stripes \<Rightarrow> nat \<Rightarrow> nat \<Rightarrow> nat \<Rightarrow> matrices \<times> memory \<Rightarrow> (matrices \<times> memory) option"
where
  "reconstruct_stripes_ec lib st pg_size pg_minsize bitmap_size = (\<lambda>(ms, m). do {
     (tbl, item_size, ms) \<leftarrow> get_jerasure_decoding_matrix lib st pg_size pg_minsize 0 ms;
     case tbl of
       None \<Rightarrow> Some (ms, m)
     | Some dectable \<Rightarrow> do {
         ((start, stop), wanted, base, m) \<leftarrow>
           fold_opt (ec_role_step lib st pg_size pg_minsize dectable item_size) [0..<pg_minsize] ((0, 0), [], 0, m);
         m \<leftarrow> (if wanted \<noteq> []
              then map_option snd (recover_seq lib st pg_size pg_minsize dectable item_size start stop wanted base m)
              else Some m);
         Some (ms, recover_bitmaps lib st pg_size pg_minsize bitmap_size dectable m)
       }
   })"

section \<open>The new parity\<close>

text \<open>The number of parity chunks to write and whether the missing ones are only at the end.\<close>

definition count_write_parity :: "osd_set \<Rightarrow> nat \<Rightarrow> nat \<Rightarrow> nat \<times> bool" where
  "count_write_parity write_osd_set pg_size pg_minsize =
     fold (\<lambda>i (wp, is_seq). if write_osd_set ! i \<noteq> 0 then (wp + 1, is_seq) else (wp, is_seq \<and> wp = 0))
       (rev [pg_minsize..<pg_size]) (0, True)"

definition missing_parity :: "osd_set \<Rightarrow> nat \<Rightarrow> nat \<Rightarrow> u8 list" where
  "missing_parity write_osd_set pg_size pg_minsize =
     fold (\<lambda>i a. if write_osd_set ! i = 0
                 then a[(i - pg_minsize) div 8 := a ! ((i - pg_minsize) div 8) OR push_bit ((i - pg_minsize) mod 8) 1]
                 else a)
       [pg_minsize..<pg_size] (replicate 32 0)"

definition coding_submatrix :: "reed_sol_matrix \<Rightarrow> osd_set \<Rightarrow> nat \<Rightarrow> nat \<Rightarrow> u8 list" where
  "coding_submatrix mx write_osd_set pg_size pg_minsize =
     (let row = isal_item_size mx * pg_minsize in
      concat (map (\<lambda>i. take row (drop (row * (i - pg_minsize)) (isal_data mx)))
        (filter (\<lambda>i. write_osd_set ! i \<noteq> 0) [pg_minsize..<pg_size])))"

definition coding_table ::
  "reed_sol_matrix \<Rightarrow> osd_set \<Rightarrow> nat \<Rightarrow> nat \<Rightarrow> bool \<Rightarrow> u8 list \<times> reed_sol_matrix"
where
  "coding_table mx write_osd_set pg_size pg_minsize is_seq =
     (if is_seq then (isal_data mx, mx)
      else
        let mp = missing_parity write_osd_set pg_size pg_minsize in
        case subdata mx mp of
          Some t \<Rightarrow> (t, mx)
        | None \<Rightarrow>
            let t = coding_submatrix mx write_osd_set pg_size pg_minsize
            in (t, mx\<lparr>subdata := (subdata mx)(mp := Some t)\<rparr>))"

text \<open>The roles that take part in the encoding, in the order of \<open>data_ptrs\<close>.\<close>

definition ec_active :: "osd_set \<Rightarrow> nat \<Rightarrow> nat \<Rightarrow> nat list" where
  "ec_active write_osd_set pg_size pg_minsize = filter (\<lambda>i. i < pg_minsize \<or> write_osd_set ! i \<noteq> 0) [0..<pg_size]"

definition ec_bufs :: "stripes \<Rightarrow> osd_set \<Rightarrow> nat \<Rightarrow> nat \<Rightarrow> nat \<Rightarrow> nat \<Rightarrow> buf_len list list" where
  "ec_bufs st write_osd_set pg_size pg_minsize start stop =
     map (\<lambda>i. if i < pg_minsize then get_old_new_buffers (st ! i) start stop
              else if write_osd_set ! i \<noteq> 0 then [\<lparr>bl_buf = write_buf (st ! i), bl_len = sub32 stop start\<rparr>] else [])
       [0..<pg_size]"

definition buf_end :: "buf_len list list \<Rightarrow> nat list \<Rightarrow> nat list \<Rightarrow> nat \<Rightarrow> nat" where
  "buf_end bufs curbuf positions i = add32 (bl_len (bufs ! i ! (curbuf ! i))) (positions ! i)"

function ec_encode_loop ::
  "ec_lib \<Rightarrow> u8 list \<Rightarrow> nat \<Rightarrow> nat \<Rightarrow> nat list \<Rightarrow> buf_len list list \<Rightarrow> nat \<Rightarrow> nat list \<Rightarrow> nat list \<Rightarrow> nat \<Rightarrow> memory \<Rightarrow>
    memory option"
where
  "ec_encode_loop lib tbl pg_minsize write_parity active bufs stop curbuf positions pos m =
     (if pos < stop
      then
        if \<not> list_all (\<lambda>i. curbuf ! i < length (bufs ! i) \<and> bl_buf (bufs ! i ! (curbuf ! i)) \<noteq> 0) active then None
        else
          let data_ptrs = map (\<lambda>i. bl_buf (bufs ! i ! (curbuf ! i)) + pos - positions ! i) active;
              next_end = fold (\<lambda>i e. min e (buf_end bufs curbuf positions i)) active stop
          in if next_end > pos
             then
               let done = (\<lambda>i. i \<in> set active \<and> next_end \<ge> buf_end bufs curbuf positions i);
                   positions' = map (\<lambda>i. if done i then buf_end bufs curbuf positions i else positions ! i) [0..<length positions];
                   curbuf' = map (\<lambda>i. if done i then curbuf ! i + 1 else curbuf ! i) [0..<length curbuf]
               in ec_encode_loop lib tbl pg_minsize write_parity active bufs stop curbuf' positions' next_end
                    (lib_encode lib (sub32 next_end pos) pg_minsize write_parity tbl (take pg_minsize data_ptrs)
                      (drop pg_minsize data_ptrs) m)
             else None
      else Some m)"
  by pat_completeness auto
termination
  by (relation "measure (\<lambda>(lib, tbl, k, wp, active, bufs, stop, curbuf, positions, pos, m). stop - pos)") auto

declare ec_encode_loop.simps [simp del]

text \<open>The encoding of the data and of the bitmaps of the parity chunks.\<close>

definition ec_encode_parity ::
  "ec_lib \<Rightarrow> u8 list \<Rightarrow> stripes \<Rightarrow> osd_set \<Rightarrow> nat \<Rightarrow> nat \<Rightarrow> nat \<Rightarrow> nat \<Rightarrow> nat \<Rightarrow> nat \<Rightarrow> memory \<Rightarrow> memory option"
where
  "ec_encode_parity lib tbl st write_osd_set pg_size pg_minsize bitmap_size write_parity start stop m =
     (let active = ec_active write_osd_set pg_size pg_minsize;
          bmps = map (\<lambda>i. bmp_buf (st ! i)) active
      in do {
        m \<leftarrow> ec_encode_loop lib tbl pg_minsize write_parity active
               (ec_bufs st write_osd_set pg_size pg_minsize start stop) stop
               (replicate pg_size 0) (replicate pg_size start) start m;
        Some (lib_encode lib bitmap_size pg_minsize write_parity tbl (take pg_minsize bmps) (drop pg_minsize bmps) m)
      })"

definition calc_rmw_parity_ec ::
  "ec_lib \<Rightarrow> stripes \<Rightarrow> nat \<Rightarrow> nat \<Rightarrow> osd_set \<Rightarrow> osd_set \<Rightarrow> bool \<Rightarrow> nat \<Rightarrow> nat \<Rightarrow> matrices \<times> memory \<Rightarrow>
    (stripes \<times> matrices \<times> memory) option"
where
  "calc_rmw_parity_ec lib st pg_size pg_minsize read_osd_set write_osd_set moved chunk_size bitmap_size = (\<lambda>(ms, m).
     let g = (if bitmap_size > 0 then chunk_size div bitmap_size div 8 else 0) in do {
       _ \<leftarrow> get_ec_matrix pg_size pg_minsize ms;
       (ms, m) \<leftarrow> reconstruct_stripes_ec lib st pg_size pg_minsize bitmap_size (ms, m);
       mx \<leftarrow> get_ec_matrix pg_size pg_minsize ms;
       let ((st, m), start, stop) =
         calc_rmw_parity_copy_mod st pg_size pg_minsize read_osd_set write_osd_set moved chunk_size bitmap_size g m;
       let (write_parity, is_seq) = count_write_parity write_osd_set pg_size pg_minsize;
       (ms, m) \<leftarrow>
         (if stop \<noteq> 0 \<and> write_parity > 0
          then
            let (tbl, mx) = coding_table mx write_osd_set pg_size pg_minsize is_seq
            in map_option (\<lambda>m. (ms(ec_key pg_size pg_minsize := Some mx), m))
                 (ec_encode_parity lib tbl st write_osd_set pg_size pg_minsize bitmap_size write_parity start stop m)
          else Some (ms, m));
       let (st, m) = calc_rmw_parity_copy_parity (st, m) pg_size pg_minsize read_osd_set write_osd_set moved chunk_size start stop;
       Some (st, ms, m)
     })"

end
