(* ===== verification/Rmw_Scrub.thy ===== *)
theory Rmw_Scrub
  imports Rmw_Ec
begin

text \<open>
  Finding the good chunks of an object during scrubbing (\<open>src/src/osd/osd_rmw.cpp\<close>, from
  \<open>first_combination\<close> to \<open>ec_find_good\<close>): subsets of the chunks are tried as sources of the
  reconstruction until the other chunks agree with what is reconstructed.
  The loops over combinations and over variants may visit arbitrarily many candidates and are partial
  functions; \<open>None\<close> is also a failed \<open>assert\<close>, an exception or an index outside an array.
\<close>

section \<open>Subsets of k items\<close>

definition first_combination :: "nat \<Rightarrow> nat \<Rightarrow> nat list option" where
  "first_combination k n = (if k > n then None else Some [0..<k])"

text \<open>The search for the position to increment: every position it leaves is incremented, too.\<close>

fun next_combination_pos :: "nat list \<Rightarrow> nat \<Rightarrow> nat \<Rightarrow> nat \<Rightarrow> nat list \<times> nat option" where
  "next_combination_pos sset k n pos =
     (let sset = sset[pos := sset ! pos + 1] in
      if int (sset ! pos) \<ge> int n - (int k - 1 - int pos)
      then (case pos of 0 \<Rightarrow> (sset, None) | Suc p \<Rightarrow> next_combination_pos sset k n p)
      else (sset, Some pos))"

declare next_combination_pos.simps [simp del]

text \<open>The boolean is the return value.\<close>

definition next_combination :: "nat list \<Rightarrow> nat \<Rightarrow> nat \<Rightarrow> nat list \<times> bool" where
  "next_combination sset k n =
     (case next_combination_pos sset k n (k - 1) of
        (sset, None) \<Rightarrow> (sset, False)
      | (sset, Some pos) \<Rightarrow> (fold (\<lambda>p s. s[p := s ! (p - 1) + 1]) [pos + 1..<k] sset, True))"

text \<open>The product \<open>n (n - 1) ... (k + 1)\<close>, then the divisions; \<open>None\<close> is the return from the loop.\<close>

definition c_n_k :: "nat \<Rightarrow> nat \<Rightarrow> u64" where
  "c_n_k n k =
     (case fold_opt (\<lambda>i c. if c * of_nat i < (of_nat i :: u64) then None else Some (c * of_nat i)) (rev [k + 1..<n + 1]) 1 of
        None \<Rightarrow> UINT64_MAX
      | Some c \<Rightarrow> fold (\<lambda>i c. c div of_nat i) [2..<n - k + 1] c)"

section \<open>Checking one sset\<close>

definition zero_stripe :: osd_rmw_stripe where
  "zero_stripe = \<lparr>read_buf = 0, write_buf = 0, bmp_buf = 0, req_start = 0, req_end = 0, read_start = 0, read_end = 0,
     write_start = 0, write_end = 0, st_osd_num = 0, st_role = 0, missing = False, read_error = False, not_exists = False\<rparr>"

definition brute_stripes ::
  "stripes \<Rightarrow> nat \<Rightarrow> nat list \<Rightarrow> nat \<Rightarrow> nat \<Rightarrow> nat \<Rightarrow> nat \<Rightarrow> ptr \<Rightarrow> stripes"
where
  "brute_stripes st stripe_count sset pg_size pg_minsize chunk_size bitmap_size tmp_buf =
     (let bs = replicate pg_size (zero_stripe\<lparr>req_end := chunk_size, read_end := chunk_size\<rparr>);
          bs = fold (\<lambda>i bs. let src = st ! (sset ! i)
                      in bs[st_role src := (bs ! st_role src)\<lparr>bmp_buf := bmp_buf src, write_buf := read_buf src, read_buf := read_buf src\<rparr>])
                 [0..<pg_minsize] bs
      in map (\<lambda>i. let b = bs ! i in
           if read_buf b = 0
           then b\<lparr>missing := True, read_buf := tmp_buf + i * chunk_size, write_buf := tmp_buf + i * chunk_size,
                  bmp_buf := tmp_buf + stripe_count * chunk_size + i * bitmap_size\<rparr>
           else if i \<ge> pg_minsize then b\<lparr>write_buf := tmp_buf + i * chunk_size\<rparr> else b)
         [0..<pg_size])"

text \<open>The chunks that are sources or agree with the reconstruction, and whether one is not a source.\<close>

definition matching_chunks :: "stripes \<Rightarrow> nat \<Rightarrow> stripes \<Rightarrow> nat \<Rightarrow> nat \<Rightarrow> memory \<Rightarrow> nat list \<times> bool" where
  "matching_chunks st stripe_count bss pg_minsize chunk_size m =
     fold (\<lambda>i (good, matched).
         let s = st ! i; bs = bss ! st_role s in
         if read_error s \<or> not_exists s then (good, matched)
         else if \<not> missing bs \<and> read_buf bs = read_buf s then (good @ [i], matched)
         else if memcmp_eq (if st_role s < pg_minsize then read_buf bs else write_buf bs) (read_buf s) chunk_size m
         then (good @ [i], True)
         else (good, matched))
       [0..<stripe_count] ([], False)"

definition ec_check_combination ::
  "ec_lib \<Rightarrow> stripes \<Rightarrow> nat \<Rightarrow> nat list \<Rightarrow> nat \<Rightarrow> nat \<Rightarrow> bool \<Rightarrow> nat \<Rightarrow> nat \<Rightarrow> ptr \<Rightarrow> matrices \<times> memory \<Rightarrow>
    (nat list \<times> matrices \<times> memory) option"
where
  "ec_check_combination lib st stripe_count sset pg_size pg_minsize is_xor chunk_size bitmap_size tmp_buf = (\<lambda>(ms, m).
     let fake_osd_set = map (\<lambda>i. of_nat (i + 1)) [0..<pg_size];
         bss = brute_stripes st stripe_count sset pg_size pg_minsize chunk_size bitmap_size tmp_buf
     in do {
       (bss, ms, m) \<leftarrow>
         (if is_xor
          then if pg_size = pg_minsize + 1
               then map_option (\<lambda>m. (bss, ms, m)) (reconstruct_stripes_xor bss pg_size bitmap_size m)
               else None
          else do {
            (ms, m) \<leftarrow> reconstruct_stripes_ec lib bss pg_size pg_minsize bitmap_size (ms, m);
            calc_rmw_parity_ec lib bss pg_size pg_minsize fake_osd_set fake_osd_set False chunk_size bitmap_size (ms, m)
          });
       let (good_set, matched_other) = matching_chunks st stripe_count bss pg_minsize chunk_size m;
       Some (if matched_other then good_set else [], ms, m)
     })"

definition count_roles :: "stripes \<Rightarrow> nat list \<Rightarrow> nat \<Rightarrow> nat" where
  "count_roles st valid_chunks pg_size =
     (let role_ok = fold (\<lambda>idx ok. ok[st_role (st ! idx) := True]) valid_chunks (replicate pg_size False)
      in length (filter (\<lambda>i. role_ok ! i) [0..<pg_size]))"

section \<open>The search\<close>

record live_chunks =
  live_variants :: "nat list list"
  eq_to :: "nat list"
  live_roles :: nat
  live_total :: nat

text \<open>The first loop initialises \<open>pg_size\<close> entries of \<open>eq_to\<close>, which has \<open>stripe_count\<close> entries;
  \<open>junk\<close> are the values of the others.\<close>

definition live_init :: "(nat \<Rightarrow> nat) \<Rightarrow> nat \<Rightarrow> nat \<Rightarrow> live_chunks" where
  "live_init junk stripe_count pg_size =
     \<lparr>live_variants = replicate pg_size [], eq_to = map (\<lambda>i. if i < pg_size then i else junk i) [0..<stripe_count],
      live_roles = 0, live_total = 0\<rparr>"

definition live_step :: "stripes \<Rightarrow> nat \<Rightarrow> memory \<Rightarrow> nat \<Rightarrow> live_chunks \<Rightarrow> live_chunks" where
  "live_step st chunk_size m i l =
     (let s = st ! i; r = st_role s in
      if read_error s \<or> not_exists s then l
      else
        let l = (if live_variants l ! r \<noteq> []
                 then (case List.find (\<lambda>j. st_role (st ! j) = r \<and> memcmp_eq (read_buf s) (read_buf (st ! j)) chunk_size m) [0..<i] of
                         None \<Rightarrow> l
                       | Some j \<Rightarrow> l\<lparr>eq_to := (eq_to l)[i := eq_to l ! j]\<rparr>)
                 else l\<lparr>live_roles := live_roles l + 1\<rparr>)
        in if eq_to l ! i = i
           then l\<lparr>live_variants := (live_variants l)[r := live_variants l ! r @ [i]], live_total := live_total l + 1\<rparr>
           else l)"

definition find_live :: "(nat \<Rightarrow> nat) \<Rightarrow> stripes \<Rightarrow> nat \<Rightarrow> nat \<Rightarrow> nat \<Rightarrow> memory \<Rightarrow> live_chunks" where
  "find_live junk st stripe_count pg_size chunk_size m =
     fold (live_step st chunk_size m) [0..<stripe_count] (live_init junk stripe_count pg_size)"

text \<open>\<open>subset[i] = live_variants[comb_to_subset[combination[i]]][subvar[i]]\<close>\<close>

definition make_subset :: "nat list list \<Rightarrow> nat list \<Rightarrow> nat list \<Rightarrow> nat list \<Rightarrow> nat \<Rightarrow> nat list option" where
  "make_subset variants comb_to_subset combination subvar pg_minsize =
     (if list_all (\<lambda>i. subvar ! i < length (variants ! (comb_to_subset ! (combination ! i)))) [0..<pg_minsize]
      then Some (map (\<lambda>i. variants ! (comb_to_subset ! (combination ! i)) ! (subvar ! i)) [0..<pg_minsize])
      else None)"

text \<open>The next subvariant or \<open>None\<close> after the last one.\<close>

fun next_subvar :: "nat list list \<Rightarrow> nat list \<Rightarrow> nat list \<Rightarrow> nat list option" where
  "next_subvar variants (c # cs) (v # vs) =
     (if v + 1 < length (variants ! c) then Some ((v + 1) # vs)
      else map_option (\<lambda>vs. 0 # vs) (next_subvar variants cs vs))"
| "next_subvar variants _ _ = None"

text \<open>What a valid set does to the one found before; \<open>None\<close> is the jump to \<open>out\<close> with no result.\<close>

definition merge_valid :: "stripes \<Rightarrow> nat \<Rightarrow> bool \<Rightarrow> nat list \<Rightarrow> nat list \<Rightarrow> nat list option" where
  "merge_valid st pg_size find_best found valid =
     (if valid \<noteq> []
      then if length found \<ge> length valid \<and> found \<noteq> valid then None
           else if found = [] \<and> (find_best \<or> count_roles st valid pg_size \<ge> pg_size) then Some valid
           else Some found
      else Some found)"

type_synonym find_state = "nat list \<times> matrices \<times> memory"

text \<open>The loop over the subvariants of one combination. The boolean says that the search goes on.\<close>

partial_function (option) subvar_loop ::
  "(nat list \<Rightarrow> matrices \<times> memory \<Rightarrow> find_state option) \<Rightarrow> (nat list \<Rightarrow> nat list \<Rightarrow> nat list option) \<Rightarrow>
    nat list list \<Rightarrow> nat list \<Rightarrow> nat list \<Rightarrow> nat \<Rightarrow> nat list \<Rightarrow> find_state \<Rightarrow> (bool \<times> find_state) option"
where
  "subvar_loop check merge variants comb_to_subset combination pg_minsize subvar s =
     Option.bind (make_subset variants comb_to_subset combination subvar pg_minsize) (\<lambda>sset.
     Option.bind (check sset (snd s)) (\<lambda>(valid, ms, m).
       case merge (fst s) valid of
         None \<Rightarrow> Some (False, [], ms, m)
       | Some found \<Rightarrow>
           (case next_subvar variants combination subvar of
              None \<Rightarrow> Some (True, found, ms, m)
            | Some subvar' \<Rightarrow> subvar_loop check merge variants comb_to_subset combination pg_minsize subvar' (found, ms, m))))"

partial_function (option) combination_loop ::
  "(nat list \<Rightarrow> matrices \<times> memory \<Rightarrow> find_state option) \<Rightarrow> (nat list \<Rightarrow> nat list \<Rightarrow> nat list option) \<Rightarrow>
    nat list list \<Rightarrow> nat list \<Rightarrow> nat \<Rightarrow> nat \<Rightarrow> bool \<Rightarrow> nat list \<Rightarrow> find_state \<Rightarrow> find_state option"
where
  "combination_loop check merge variants comb_to_subset pg_minsize live brute_force combination s =
     Option.bind (subvar_loop check merge variants comb_to_subset combination pg_minsize (replicate pg_minsize 0) s)
       (\<lambda>(go, s).
         if \<not> go \<or> \<not> brute_force then Some s
         else
           (case next_combination combination pg_minsize live of
              (combination', cont) \<Rightarrow>
                if cont then combination_loop check merge variants comb_to_subset pg_minsize live brute_force combination' s
                else Some s))"

definition ec_find_good ::
  "ec_lib \<Rightarrow> (nat \<Rightarrow> nat) \<Rightarrow> stripes \<Rightarrow> nat \<Rightarrow> nat \<Rightarrow> nat \<Rightarrow> bool \<Rightarrow> nat \<Rightarrow> nat \<Rightarrow> u64 \<Rightarrow> bool \<Rightarrow> ptr \<Rightarrow> matrices \<times> memory \<Rightarrow>
    find_state option"
where
  "ec_find_good lib junk st stripe_count pg_size pg_minsize is_xor chunk_size bitmap_size max_bruteforce find_best tmp_buf =
   (\<lambda>(ms, m).
     let l = find_live junk st stripe_count pg_size chunk_size m in
     if stripe_count < pg_size then None
     else if live_roles l = pg_minsize \<and> live_total l > pg_minsize then Some ([], ms, m)
     else if live_roles l \<le> pg_minsize
     then Some (filter (\<lambda>i. \<not> read_error (st ! i)) [0..<stripe_count], ms, m)
     else
       let brute_force = c_n_k (live_roles l) pg_minsize \<le> max_bruteforce;
           comb_to_subset = filter (\<lambda>i. live_variants l ! i \<noteq> []) [0..<pg_size]
       in do {
         combination \<leftarrow> first_combination pg_minsize (live_roles l);
         combination_loop
           (\<lambda>sset. ec_check_combination lib st stripe_count sset pg_size pg_minsize is_xor chunk_size bitmap_size tmp_buf)
           (merge_valid st pg_size find_best) (live_variants l) comb_to_subset pg_minsize (live_roles l) brute_force
           combination ([], ms, m)
       })"

end
