(* ===== verification/Rmw_Props.thy ===== *)
theory Rmw_Props
  imports Rmw_Xor Rmw_Scrub
begin

text \<open>
  The properties of the read-modify-write of erasure coded objects: how a request is split, what is
  read for missing chunks, the plan of a write, reconstruction, and the parity of a write that does not
  move chunks. The last one puts planning, reconstruction and the parity computation together.
\<close>

section \<open>A write that does not move chunks\<close>

lemma copy_mod_unmoved:
  assumes "parity_required rs k n" "0 < c"
  shows "calc_rmw_parity_copy_mod st n k rs rs False c bs g M =
    ((st, set_bitmaps st bs g k M), fold (copy_mod_hull st) [0..<k] (0, 0))"
  using assms unfolding calc_rmw_parity_copy_mod_def parity_moved_def set_bitmaps_def Let_def
  by (simp add: list_ex_iff split: prod.splits)

lemma planned_byte_addr:
  assumes "planned_write ws k s e j t" "j < k"
  shows "byte_addr t i = (if req_start t \<le> i \<and> i < req_end t then write_buf t + (i - req_start t) else rd_at t i)"
  using assms by (cases "req_end t = 0") (auto simp: byte_addr_def planned_write_def)

lemma planned_avail:
  assumes "planned_write ws k s e j t" "j < k" "range_known s e t"
  shows "avail s e t"
  using assms by (cases "req_end t = 0") (auto simp: avail_def range_known_def planned_write_def)

lemma planned_wf_ranges:
  assumes "planned_write ws k s e j t" "j < k" "wf_req c t" "wf_read c t"
  shows "wf_ranges c t"
  using assms by (cases "req_end t = 0") (auto simp: wf_ranges_def planned_write_def wf_req_def)

text \<open>The memory is that of a running write: the chunks that exist have been read into their buffers, and
  the buffers do not overlap.\<close>

definition write_ready ::
  "nat \<Rightarrow> nat \<Rightarrow> nat \<Rightarrow> nat \<Rightarrow> (nat \<Rightarrow> nat \<Rightarrow> u8) \<Rightarrow> (nat \<Rightarrow> nat \<Rightarrow> u8) \<Rightarrow> stripes \<Rightarrow> nat \<Rightarrow> nat \<Rightarrow> memory \<Rightarrow> bool"
where
  "write_ready c k n bs chunk bmp st s e M \<longleftrightarrow> bitmap_fits c bs \<and> buffers_apart bs n st \<and> parity_sep st k bs s e \<and>
     (\<forall>j<k. \<forall>i<n. WB (st ! j) \<inter> RB (st ! i) = {} \<and> WB (st ! j) \<inter> BB bs (st ! i) = {}) \<and>
     (\<forall>j<n. \<not> missing (st ! j) \<longrightarrow> loaded (chunk j) (bmp j) bs M (st ! j)) \<and>
     (\<forall>i<c. xsum (\<lambda>j. chunk j i) n = 0) \<and> (\<forall>i<bs. xsum (\<lambda>j. bmp j i) n = 0)"

lemma plan_reconstructs:
  assumes plan: "rmw_plan rs rs c k n False st0 s e st" and n: "n = k + 1" "2 \<le> k" "c < U32_MAX"
    and r: "write_ready c k n bs chunk bmp st s e M"
  shows "\<exists>M'. reconstruct_stripes_xor st n bs M = Some M' \<and> (\<forall>j<n. loaded (chunk j) (bmp j) bs M' (st ! j)) \<and>
    (\<forall>a. (\<forall>j<n. a \<notin> RB (st ! j) \<and> a \<notin> BB bs (st ! j)) \<longrightarrow> M' a = M a)"
proof (rule reconstruct_stripes_xor_correct)
  note P = rmw_planD [OF plan]
  show "3 \<le> n" "c < U32_MAX" using n by simp_all
  show "wf_read c (st ! j)" if "j < n" for j by (rule P(5) [OF that])
  show "buffers_apart bs n st" using r by (simp add: write_ready_def)
  show "loaded (chunk j) (bmp j) bs M (st ! j)" if "j < n" "\<not> missing (st ! j)" for j
    using r that by (simp add: write_ready_def)
  show "xsum (\<lambda>j. chunk j i) n = 0" if "i < c" for i using r that by (simp add: write_ready_def)
  show "xsum (\<lambda>j. bmp j i) n = 0" if "i < bs" for i using r that by (simp add: write_ready_def)
  show "\<not> missing (st ! j) \<and> covers (st ! j) (st ! r)"
    if m: "r < n" "missing (st ! r)" "read_end (st ! r) \<noteq> 0" "j < n" "j \<noteq> r" for r j
  proof -
    have z: "rs ! r = 0" by (rule P(6) [OF m(1,2)])
    have "k \<le> exist_count rs n" by (rule P(8) [OF m(1) z m(3)])
    then have ch: "chosen rs k j"
      using chosen_all_others [of k rs r j] m(1,4,5) z n(1) by simp
    then have "rs ! j \<noteq> 0" by (simp add: chosen_def)
    then show ?thesis using P(9) [OF m(1) z m(3) m(4) ch] P(6) [OF m(4)] by blast
  qed
qed

lemma new_byte:
  assumes plan: "rmw_plan rs rs c k n False st0 s e st" "wf_req c (st ! j)" "c < U32_MAX" "range_known s e (st ! j)"
    and r: "write_ready c k n bs chunk bmp st s e M" and j: "j < k" "k < n" and i: "s \<le> i" "i < e"
    and M1: "loaded (chunk j) (bmp j) bs M1 (st ! j)"
      "\<And>a. (\<forall>j<n. a \<notin> RB (st ! j) \<and> a \<notin> BB bs (st ! j)) \<Longrightarrow> M1 a = M a"
    and M2: "\<And>a. (\<forall>j<k. a \<notin> BB bs (st ! j)) \<Longrightarrow> M2 a = M1 a"
  shows "M2 (byte_addr (st ! j) i) = new_chunk (st ! j) M (chunk j) i"
proof -
  let ?t = "st ! j"
  have a: "byte_addr ?t i = (if req_start ?t \<le> i \<and> i < req_end ?t then write_buf ?t + (i - req_start ?t) else rd_at ?t i)"
    using rmw_planD(3) [OF plan(1), of j] j by (intro planned_byte_addr [of rs k s e j]) auto
  show ?thesis
  proof (cases "req_start ?t \<le> i \<and> i < req_end ?t")
    case True
    let ?a = "write_buf ?t + (i - req_start ?t)"
    have "rq_len ?t = req_end ?t - req_start ?t"
      using plan(2,3) True by (auto simp: rq_len_def wf_req_def)
    then have "?a \<in> WB ?t" using True by simp arith
    then have "?a \<notin> RB (st ! q) \<and> ?a \<notin> BB bs (st ! q)" if "q < n" for q
      using r j(1) that unfolding write_ready_def by blast
    then have "M2 ?a = M ?a" using M1(2) M2 j(2) by simp
    then show ?thesis using a True by (simp add: new_chunk_def)
  next
    case False
    then have rd: "reads_data ?t" "read_start ?t \<le> i" "i < read_end ?t"
      using plan(4) i by (auto simp: range_known_def)
    have "rd_len ?t = read_end ?t - read_start ?t"
      using rd rmw_planD(5) [OF plan(1), of j] j plan(3) read_len_wf [of c ?t] by (simp add: rd_len_def)
    then have "rd_at ?t i \<in> RB ?t" using rd by (simp add: rd_at_def) arith
    moreover have "RB ?t \<inter> BB bs (st ! q) = {}" if "q < k" for q
      using r j that unfolding write_ready_def buffers_apart_def by simp
    ultimately have "M2 (rd_at ?t i) = M1 (rd_at ?t i)" by (intro M2) blast
    also have "\<dots> = chunk j i" using M1(1) rd by (simp add: loaded_def)
    finally show ?thesis unfolding a new_chunk_def if_not_P [OF False] .
  qed
qed

section \<open>Properties\<close>

text \<open>C9: \<open>split_stripes\<close> partitions the request. Every data chunk gets a range inside the chunk, and byte \<open>i\<close> of
  chunk \<open>role\<close> is in it iff the byte \<open>role * bs + i\<close> of the object is in the request.\<close>

theorem split_stripes_partition:
  assumes "k \<le> length st" "k * bs \<le> U32_MAX" "start + len \<le> k * bs" "role < k"
    and "req_start (st ! role) = 0" "req_end (st ! role) = 0"
  shows "let t = split_stripes k bs start len st ! role in
    wf_req bs t \<and> (\<forall>i. i < bs \<longrightarrow> (req_start t \<le> i \<and> i < req_end t \<longleftrightarrow> start \<le> role * bs + i \<and> role * bs + i < start + len))"
proof -
  obtain a b where ab: "request_range bs start len role = (a, b)" by fastforce
  have t: "split_stripes k bs start len st ! role = (st ! role)\<lparr>req_start := a, req_end := b\<rparr>"
    using split_stripes_nth [OF assms] by (simp add: ab)
  show ?thesis
    unfolding t Let_def wf_req_def
    using request_range_wf [OF ab assms(3)] request_range_iff [OF ab] by simp
qed

theorem split_stripes_partition_witness:
  "wf_req 4 (split_stripes 2 4 2 4 (replicate 3 zero_stripe) ! 1) \<and> req_end (split_stripes 2 4 2 4 (replicate 3 zero_stripe) ! 1) > 1"
proof -
  define t where "t = split_stripes 2 4 2 4 (replicate 3 zero_stripe) ! 1"
  have "let t = split_stripes 2 4 2 4 (replicate 3 zero_stripe) ! 1 in
    wf_req 4 t \<and> (\<forall>i. i < 4 \<longrightarrow> (req_start t \<le> i \<and> i < req_end t \<longleftrightarrow> 2 \<le> 1 * 4 + i \<and> 1 * 4 + i < 2 + (4 :: nat)))"
    by (rule split_stripes_partition) (simp_all add: zero_stripe_def)
  then have "wf_req 4 t" "\<forall>i. i < 4 \<longrightarrow> (req_start t \<le> i \<and> i < req_end t \<longleftrightarrow> 2 \<le> 1 * 4 + i \<and> 1 * 4 + i < 2 + (4 :: nat))"
    unfolding Let_def t_def by blast+
  from this(1) this(2) [rule_format, of 1] show ?thesis by (simp add: t_def)
qed

text \<open>C8: \<open>extend_missing_stripes\<close> fails iff a chunk to read is missing and fewer than \<open>pg_minsize\<close> chunks exist.
  When it succeeds, the missing chunks are marked, no range shrinks, and the first \<open>pg_minsize\<close> existing chunks are
  read over the range of every missing one.\<close>

theorem extend_missing_stripes_correct:
  assumes "\<And>j. j < length st \<Longrightarrow> wf_read c (st ! j)" "\<And>j. j < length st \<Longrightarrow> read_end (st ! j) \<le> U32_MAX"
    and "n \<le> length st" "k \<le> n" "c < U32_MAX" "extend_missing_stripes st osd_set k n = (st', ok)"
  shows "(ok \<longrightarrow> recovery osd_set c k n k st st') \<and>
    (ok \<longleftrightarrow> (\<forall>r<k. osd_set ! r = 0 \<and> read_end (st ! r) \<noteq> 0 \<longrightarrow> k \<le> exist_count osd_set n))"
  by (rule extend_missing_recovery [OF assms(1-5)]) (use assms(6) in \<open>simp_all add: extend_missing_stripes_def\<close>)

definition read_all :: stripes where
  "read_all = [zero_stripe\<lparr>read_end := 4\<rparr>, zero_stripe, zero_stripe]"

lemma read_all_wf: "j < length read_all \<Longrightarrow> wf_read 4 (read_all ! j)" "j < length read_all \<Longrightarrow> read_end (read_all ! j) \<le> U32_MAX"
  by (auto simp: read_all_def zero_stripe_def wf_read_def reads_data_def less_Suc_eq nth_Cons')

theorem extend_missing_stripes_correct_witness:
  "\<exists>st'. extend_missing_stripes read_all [0, 1, 2] 2 3 = (st', True) \<and> recovery [0, 1, 2] 4 2 3 2 read_all st'"
proof -
  obtain st' ok where e: "extend_missing_stripes read_all [0, 1, 2] 2 3 = (st', ok)" by fastforce
  have "exist_count [0, 1, 2 :: osd_num] 3 = 2" by (simp add: exist_count_def numeral_3_eq_3)
  with extend_missing_stripes_correct [OF read_all_wf _ _ _ e] e show ?thesis
    by (auto simp: read_all_def)
qed





text \<open>C6: reconstruction by XOR. When the chunks that exist are in memory and cover what is to be reconstructed, and the
  chunks sum up to zero, then \<open>reconstruct_stripes_xor\<close> passes its assertions, afterwards every stripe holds its
  chunk and its bitmap, and no other memory has changed.\<close>

theorem reconstruct_xor_restores:
  assumes "3 \<le> n" "c < U32_MAX" "\<And>j. j < n \<Longrightarrow> wf_read c (st ! j)" "buffers_apart bs n st"
    and "\<And>j. j < n \<Longrightarrow> \<not> missing (st ! j) \<Longrightarrow> loaded (chunk j) (bmp j) bs M (st ! j)"
    and "\<And>r j. r < n \<Longrightarrow> missing (st ! r) \<Longrightarrow> read_end (st ! r) \<noteq> 0 \<Longrightarrow> j < n \<Longrightarrow> j \<noteq> r \<Longrightarrow>
      \<not> missing (st ! j) \<and> covers (st ! j) (st ! r)"
    and "\<And>i. i < c \<Longrightarrow> xsum (\<lambda>j. chunk j i) n = 0" "\<And>i. i < bs \<Longrightarrow> xsum (\<lambda>j. bmp j i) n = 0"
  shows "\<exists>M'. reconstruct_stripes_xor st n bs M = Some M' \<and> (\<forall>j<n. loaded (chunk j) (bmp j) bs M' (st ! j)) \<and>
    (\<forall>a. (\<forall>j<n. a \<notin> RB (st ! j) \<and> a \<notin> BB bs (st ! j)) \<longrightarrow> M' a = M a)"
  by (rule reconstruct_stripes_xor_correct [OF assms])

definition one_missing :: stripes where
  "one_missing =
     [zero_stripe\<lparr>read_end := 4, read_buf := 100, bmp_buf := 400, missing := True\<rparr>,
      zero_stripe\<lparr>read_end := 4, read_buf := 200, bmp_buf := 500\<rparr>,
      zero_stripe\<lparr>read_end := 4, read_buf := 300, bmp_buf := 600\<rparr>]"

definition one_missing_mem :: memory where
  "one_missing_mem a = (if 200 \<le> a \<and> a < 204 then 6 else if 300 \<le> a \<and> a < 304 then 3 else 0)"

lemma less_3_cases: "(j :: nat) < 3 \<Longrightarrow> j = 0 \<or> j = 1 \<or> j = 2"
  by auto

lemma one_missing_bufs:
  assumes "j < 3"
  shows "RB (one_missing ! j) = region (100 * (j + 1)) 4" "BB 1 (one_missing ! j) = region (400 + 100 * j) 1"
    "read_start (one_missing ! j) = 0" "read_end (one_missing ! j) = 4" "reads_data (one_missing ! j)"
    "missing (one_missing ! j) = (j = 0)" "read_buf (one_missing ! j) = 100 * (j + 1)" "bmp_buf (one_missing ! j) = 400 + 100 * j"
    "rd_len (one_missing ! j) = 4"
  using less_3_cases [OF assms]
  by (elim disjE; simp add: one_missing_def zero_stripe_def rd_len_def read_len_def reads_data_def)+

theorem reconstruct_xor_restores_witness:
  "\<exists>M'. reconstruct_stripes_xor one_missing 3 1 one_missing_mem = Some M' \<and>
    (\<forall>j<3. loaded (\<lambda>_. [5, 6, 3] ! j) (\<lambda>_. 0) 1 M' (one_missing ! j)) \<and>
    (\<forall>a. (\<forall>j<3. a \<notin> RB (one_missing ! j) \<and> a \<notin> BB 1 (one_missing ! j)) \<longrightarrow> M' a = one_missing_mem a)"
proof (rule reconstruct_xor_restores [where c = 4])
  show "wf_read 4 (one_missing ! j)" if "j < 3" for j
    by (simp add: wf_read_def one_missing_bufs [OF that])
  show "buffers_apart 1 3 one_missing"
    unfolding buffers_apart_def by (auto simp: one_missing_bufs simp del: One_nat_def)
  show "loaded (\<lambda>_. [5, 6, 3] ! j) (\<lambda>_. 0) 1 one_missing_mem (one_missing ! j)" if "j < 3" "\<not> missing (one_missing ! j)" for j
    using less_3_cases [OF that(1)] that(2)
    by (elim disjE) (simp_all add: loaded_def one_missing_bufs rd_at_def one_missing_mem_def)
  show "\<not> missing (one_missing ! j) \<and> covers (one_missing ! j) (one_missing ! r)"
    if "r < 3" "missing (one_missing ! r)" "read_end (one_missing ! r) \<noteq> 0" "j < 3" "j \<noteq> r" for r j
    using that by (simp add: covers_def one_missing_bufs)
qed (simp_all add: numeral_3_eq_3)

text \<open>C4: the parity of a write that does not move chunks, computed after \<open>calc_rmw\<close> has planned it and the
  existing chunks have been read: the computation passes its assertions and leaves in the buffer of the parity chunk the
  XOR of the new contents of all data chunks, which are the data of the request where it covers the chunk and the
  old (possibly reconstructed) contents elsewhere.\<close>

theorem xor_write_parity:
  assumes inp: "rmw_input c k n st0" and plan: "rmw_plan rs rs c k n False st0 s e st"
    and se: "(s, e) = parity_range rs rs k n c st0" "e \<noteq> 0" and n: "n = k + 1" "2 \<le> k" "rs ! k \<noteq> 0"
    and r: "write_ready c k n bs chunk bmp st s e M"
  shows "\<exists>M'. calc_rmw_parity_xor st n rs rs False c bs M = Some (st, M') \<and>
    (\<forall>i. s \<le> i \<and> i < e \<longrightarrow> M' (write_buf (st ! k) + (i - s)) = xsum (\<lambda>j. new_chunk (st ! j) M (chunk j) i) k)"
proof -
  note P = rmw_planD [OF plan] and B = parity_range_bounds [OF inp se(1)]
  have c: "0 < c" "c < U32_MAX" using inp by (simp_all add: rmw_input_def)
  have req: "parity_required rs k n" using n by (simp add: parity_required_def list_ex_iff)
  have kj: "planned_write rs k s e j (st ! j)" "wf_req c (st ! j)" "wf_read c (st ! j)" "range_known s e (st ! j)" if "j < k" for j
    using that P(2,3,4,5) [of j] n(1) inp req by (auto simp: rmw_input_def same_input_def wf_req_def planned_read_def)
  obtain M1 where M1: "reconstruct_stripes_xor st n bs M = Some M1" "\<forall>j<n. loaded (chunk j) (bmp j) bs M1 (st ! j)"
    "\<And>a. (\<forall>j<n. a \<notin> RB (st ! j) \<and> a \<notin> BB bs (st ! j)) \<Longrightarrow> M1 a = M a"
    using plan_reconstructs [OF plan n(1,2) c(2) r] by blast
  define M2 where "M2 = set_bitmaps st bs (granularity c bs) k M1"
  have fits: "bitmap_fits c bs" using r by (simp add: write_ready_def)
  have bb: "BB bs (st ! i) \<inter> BB bs (st ! j) = {}" if "i < k" "j < k" "i \<noteq> j" for i j
    using that r n(1) by (simp add: write_ready_def buffers_apart_def)
  have M2: "M2 a = M1 a" if "\<forall>j<k. a \<notin> BB bs (st ! j)" for a
    using set_bitmaps_correct [OF fits c kj(2) bb M2_def] that by simp
  have hull: "fold (copy_mod_hull st) [0..<k] (0, 0) = (s, e)"
    using se(1) P(2) n(1) copy_mod_hull_cong [of k st st0 "(0, 0)"]
    by (simp add: parity_range_def parity_moved_def list_ex_iff same_input_def)
  have nk: "n - 1 = k" using n(1) by simp
  have lt: "s < e" using B(2) se(2) by simp
  have loop: "fold_opt (xor_parity_step st k bs s e) [0..<k] (-2, M2) = Some (-1, parity_mem st k bs s e k M2)"
  proof (rule parity_loop)
    show "parity_sep st k bs s e" using r by (simp add: write_ready_def)
    show "avail s e (st ! j)" "wf_ranges c (st ! j)" if "j < k" for j
      using planned_avail [OF kj(1) [OF that] that kj(4) [OF that]] planned_wf_ranges [OF kj(1) [OF that] that kj(2,3) [OF that]]
      by simp_all
  qed (use lt B(1) c n in simp_all)
  have "calc_rmw_parity_xor st n rs rs False c bs M = Some (st, parity_mem st k bs s e k M2)"
    unfolding calc_rmw_parity_xor_def Let_def granularity_def [symmetric] nk
    using M1(1) loop n(3) se(2)
    by (simp add: copy_mod_unmoved [OF req c(1)] hull calc_rmw_parity_copy_parity_def M2_def)
  moreover have "parity_mem st k bs s e k M2 (write_buf (st ! k) + (i - s)) = xsum (\<lambda>j. new_chunk (st ! j) M (chunk j) i) k"
    if "s \<le> i" "i < e" for i
  proof -
    have "M2 (byte_addr (st ! j) i) = new_chunk (st ! j) M (chunk j) i" if "j < k" for j
      using M1(2) that n(1)
      by (intro new_byte [OF plan kj(2) [OF that] c(2) kj(4) [OF that] r that _ \<open>s \<le> i\<close> \<open>i < e\<close> _ M1(3) M2]) simp_all
    moreover have "write_buf (st ! k) + (i - s) \<in> PB st k s e" using that by simp arith
    ultimately show ?thesis using that by (subst parity_mem_cases(1)) (simp_all cong: xsum_cong)
  qed
  ultimately show ?thesis by blast
qed

definition small_write :: stripes where
  "small_write = [zero_stripe\<lparr>req_start := 1, req_end := 3, bmp_buf := 300\<rparr>, zero_stripe\<lparr>bmp_buf := 301\<rparr>, zero_stripe\<lparr>bmp_buf := 302\<rparr>]"

definition small_planned :: stripes where
  "small_planned =
     [zero_stripe\<lparr>req_start := 1, req_end := 3, bmp_buf := 300, write_start := 1, write_end := 3, write_buf := 100, read_end := U32_MAX\<rparr>,
      zero_stripe\<lparr>bmp_buf := 301, read_start := 1, read_end := 3, read_buf := 202\<rparr>,
      zero_stripe\<lparr>bmp_buf := 302, write_start := 1, write_end := 3, write_buf := 200\<rparr>]"

definition small_mem :: memory where
  "small_mem a = (if a = 100 \<or> a = 101 then 7 else if a = 202 \<or> a = 203 then 6 else 0)"

lemma small_write_input: "rmw_input 8 2 3 small_write"
  by (auto simp: rmw_input_def small_write_def zero_stripe_def wf_req_def less_Suc_eq nth_Cons' numeral_3_eq_3)

lemma small_range: "(1, 3) = parity_range [1, 2, 3] [1, 2, 3] 2 3 8 small_write"
  by code_simp

lemma small_plan: "rmw_plan [1, 2, 3] [1, 2, 3] 8 2 3 False small_write 1 3 small_planned"
proof (rule calc_rmw_correct(2) [OF small_write_input _ _ _ small_range])
  show "calc_rmw 100 small_write [1, 2, 3] 3 2 3 [1, 2, 3] False 8 200 = (small_planned, 200)"
    by (simp add: calc_rmw_def rmw_ranges_def small_write_def small_planned_def zero_stripe_def rmw_hull_step_def
      rmw_parity_step_def rmw_cover_stripe_def cover_read_def alloc_read_buffer_def rmw_place_step_def reads_data_def
      read_len_def sub32_def mul32_def upt_conv_Cons)
  show "3 = exist_count [1, 2, 3 :: osd_num] 3 \<and> [1, 2, 3 :: osd_num] = [1, 2, 3]" by (simp add: exist_count_def upt_conv_Cons)
qed simp

lemma small_bufs:
  assumes "j < 3"
  shows "BB 1 (small_planned ! j) = region (300 + j) 1" "bmp_buf (small_planned ! j) = 300 + j"
    "RB (small_planned ! j) = (if j = 1 then region 202 2 else {})" "\<not> missing (small_planned ! j)"
    "j < 2 \<Longrightarrow> WB (small_planned ! j) = (if j = 0 then region 100 2 else {})"
  using less_3_cases [OF assms]
  by (elim disjE; simp add: small_planned_def zero_stripe_def rd_len_def read_len_def reads_data_def rq_len_def region_def)+

lemma small_ready: "write_ready 8 2 3 1 (\<lambda>j _. [5, 6, 3] ! j) (\<lambda>_ _. 0) small_planned 1 3 small_mem"
  unfolding write_ready_def
proof (intro conjI allI impI)
  show "bitmap_fits 8 1" by (simp add: bitmap_fits_def granularity_def)
  show "buffers_apart 1 3 small_planned"
    unfolding buffers_apart_def by (auto simp: small_bufs simp del: One_nat_def)
  have p: "write_buf (small_planned ! 2) = 200" by (simp add: small_planned_def)
  have "byte_addr (small_planned ! j) i \<notin> region 200 2 \<and> byte_addr (small_planned ! j) i \<notin> region 302 1"
    if "j < 2" "1 \<le> i \<and> i < 3" for i j
  proof -
    have "j = 0 \<or> j = 1" "i = 1 \<or> i = 2" using that by auto
    then show ?thesis by (elim disjE) (simp_all add: small_planned_def zero_stripe_def byte_addr_def rd_at_def)
  qed
  then show "parity_sep small_planned 2 1 1 3"
    unfolding parity_sep_def p by (auto simp: small_bufs simp del: One_nat_def)
  show "WB (small_planned ! j) \<inter> RB (small_planned ! i) = {}" if "j < 2" "i < 3" for i j
    using that by (auto simp: small_bufs)
  show "WB (small_planned ! j) \<inter> BB 1 (small_planned ! i) = {}" if "j < 2" "i < 3" for i j
    using that by (auto simp: small_bufs)
  show "loaded (\<lambda>_. [5, 6, 3] ! j) (\<lambda>_. 0) 1 small_mem (small_planned ! j)" if "j < 3" for j
    using less_3_cases [OF that]
    by (elim disjE) (auto simp: loaded_def small_planned_def zero_stripe_def reads_data_def rd_at_def small_mem_def)
qed (simp_all add: numeral_3_eq_3)

theorem xor_write_parity_witness:
  "\<exists>M'. calc_rmw_parity_xor small_planned 3 [1, 2, 3] [1, 2, 3] False 8 1 small_mem = Some (small_planned, M') \<and>
    (\<forall>i. 1 \<le> i \<and> i < 3 \<longrightarrow> M' (write_buf (small_planned ! 2) + (i - 1)) =
      xsum (\<lambda>j. new_chunk (small_planned ! j) small_mem (\<lambda>_. [5, 6, 3] ! j) i) 2)"
  by (rule xor_write_parity [OF small_write_input small_plan small_range _ _ _ _ small_ready]) simp_all

end
