(* ===== verification/Str_Util.thy ===== *)
theory Str_Util
  imports Prelude
begin

text \<open>
  String helpers of \<open>src/src/util/str_util.cpp\<close>. A \<open>std::string\<close> is a list of characters; the methods of
  \<open>std::string\<close> and the character classes and \<open>strtoull\<close> of the C library (in the C locale) that the
  helpers call are written out first. \<open>std::string::npos\<close> is \<open>None\<close>, the exception of \<open>substr\<close> is an
  error value. A loop that may run forever is a partial function: not returning is \<open>None\<close>.
\<close>

section \<open>The C and C++ library\<close>

definition isspace :: "char \<Rightarrow> bool" where
  "isspace c \<longleftrightarrow> c \<in> {CHR '' '', CHR 0x09, CHR 0x0A, CHR 0x0B, CHR 0x0C, CHR 0x0D}"

definition tolower :: "char \<Rightarrow> char" where
  "tolower c = (let n = of_char c :: nat in if 65 \<le> n \<and> n \<le> 90 then char_of (n + 32) else c)"

definition toupper :: "char \<Rightarrow> char" where
  "toupper c = (let n = of_char c :: nat in if 97 \<le> n \<and> n \<le> 122 then char_of (n - 32) else c)"

definition str_find :: "string \<Rightarrow> string \<Rightarrow> nat \<Rightarrow> nat option" where
  "str_find needle s pos = List.find (\<lambda>p. take (length needle) (drop p s) = needle) [pos..<Suc (length s)]"

definition find_first :: "(char \<Rightarrow> bool) \<Rightarrow> string \<Rightarrow> nat \<Rightarrow> nat option" where
  "find_first P s pos = List.find (\<lambda>p. P (s ! p)) [pos..<length s]"

definition find_last :: "(char \<Rightarrow> bool) \<Rightarrow> string \<Rightarrow> nat option" where
  "find_last P s = List.find (\<lambda>p. P (s ! p)) (rev [0..<length s])"

definition substr :: "string \<Rightarrow> nat \<Rightarrow> nat \<Rightarrow> string outcome" where
  "substr s pos n = (if pos > length s then Inl (Out_of_range ''substr'') else Inr (take n (drop pos s)))"

text \<open>The value of a character as a digit of any base up to 36.\<close>

definition digit_val :: "char \<Rightarrow> nat option" where
  "digit_val c =
     (let n = of_char c :: nat in
      if 48 \<le> n \<and> n \<le> 57 then Some (n - 48)
      else if 97 \<le> n \<and> n \<le> 122 then Some (n - 87)
      else if 65 \<le> n \<and> n \<le> 90 then Some (n - 55) else None)"

definition is_digit :: "nat \<Rightarrow> char \<Rightarrow> bool" where
  "is_digit base c = (case digit_val c of None \<Rightarrow> False | Some d \<Rightarrow> d < base)"

fun digits_val :: "nat \<Rightarrow> string \<Rightarrow> nat \<Rightarrow> nat" where
  "digits_val base [] acc = acc"
| "digits_val base (c # cs) acc = digits_val base cs (acc * base + (case digit_val c of None \<Rightarrow> 0 | Some d \<Rightarrow> d))"

text \<open>\<open>strtoull\<close>: the value and the number of characters read; a value out of range is \<open>ULLONG_MAX\<close>.\<close>

definition strtoull :: "string \<Rightarrow> nat \<Rightarrow> u64 \<times> nat" where
  "strtoull s base =
     (let ws = length (takeWhile isspace s); t = drop ws s;
          neg = (t \<noteq> [] \<and> hd t = CHR ''-'');
          sg = (if t \<noteq> [] \<and> (hd t = CHR ''-'' \<or> hd t = CHR ''+'') then 1 else 0); t = drop sg t;
          hex = (base = 0 \<or> base = 16) \<and> length t > 2 \<and> hd t = CHR ''0'' \<and> tolower (t ! 1) = CHR ''x'' \<and> is_digit 16 (t ! 2);
          base = (if hex then 16 else if base = 0 then (if t \<noteq> [] \<and> hd t = CHR ''0'' then 8 else 10) else base);
          pre = (if hex then 2 else 0);
          ds = takeWhile (is_digit base) (drop pre t)
      in if ds = [] then (0, 0)
         else
           let v = digits_val base ds 0
           in (if v \<ge> 2 ^ 64 then UINT64_MAX else if neg then - of_nat v else of_nat v,
               ws + sg + pre + length ds))"

section \<open>Case, trimming, replacing\<close>

definition strtoupper :: "string \<Rightarrow> string" where
  "strtoupper s = map toupper s"

definition strtolower :: "string \<Rightarrow> string" where
  "strtolower s = map tolower s"

definition trim :: "string \<Rightarrow> string \<Rightarrow> string" where
  "trim s rm =
     (case find_first (\<lambda>c. c \<notin> set rm) s 0 of
        None \<Rightarrow> []
      | Some b \<Rightarrow> (case find_last (\<lambda>c. c \<notin> set rm) s of
          None \<Rightarrow> []
        | Some e \<Rightarrow> take (e + 1 - b) (drop b s)))"

partial_function (option) str_replace_loop ::
  "string \<Rightarrow> string \<Rightarrow> string \<Rightarrow> nat \<Rightarrow> string \<Rightarrow> string outcome option"
where
  "str_replace_loop s needle repl pos res =
     (case str_find needle s pos of
        Some p2 \<Rightarrow> str_replace_loop s needle repl (p2 + length repl) (res @ take (p2 - pos) (drop pos s) @ repl)
      | None \<Rightarrow>
          if pos = 0 then Some (Inr s)
          else Some (case substr s pos (length s) of Inl f \<Rightarrow> Inl f | Inr t \<Rightarrow> Inr (res @ t)))"

definition str_replace :: "string \<Rightarrow> string \<Rightarrow> string \<Rightarrow> string outcome option" where
  "str_replace s needle repl = str_replace_loop s needle repl 0 []"

section \<open>Numbers\<close>

definition stoull_full :: "string \<Rightarrow> nat \<Rightarrow> u64" where
  "stoull_full s base =
     (if s \<noteq> [] \<and> isspace (hd s) then 0
      else let (r, n) = strtoull s base in if n \<noteq> length s then 0 else r)"

definition size_mul :: "char \<Rightarrow> u64" where
  "size_mul t = (if t = CHR ''k'' then push_bit 10 1 else if t = CHR ''m'' then push_bit 20 1
     else if t = CHR ''g'' then push_bit 30 1 else push_bit 40 1)"

text \<open>The size and the flag \<open>ok\<close>.\<close>

definition parse_size :: "string \<Rightarrow> u64 \<times> bool" where
  "parse_size s =
     (if s = [] then (0, False)
      else
        let t = tolower (last s);
            unit = (t = CHR ''k'' \<or> t = CHR ''m'' \<or> t = CHR ''g'' \<or> t = CHR ''t'');
            mul = (if unit then size_mul t else 1);
            s = (if unit then butlast s else s);
            size = stoull_full s 0 * mul
        in (size, \<not> (size = 0 \<and> s \<noteq> ''0'' \<and> (s \<noteq> [] \<or> mul \<noteq> 1))))"

definition time_mul :: "char \<Rightarrow> u64" where
  "time_mul c =
     (let t = tolower c in
      if t = CHR ''s'' then 1 else if c = CHR ''M'' then 30 * 86400 else if t = CHR ''m'' then 60
      else if t = CHR ''h'' then 3600 else if t = CHR ''d'' then 86400 else 86400 * 365)"

definition parse_time :: "string \<Rightarrow> u64 \<times> bool" where
  "parse_time s =
     (if s = [] then (0, False)
      else
        let t = tolower (last s);
            unit = (t = CHR ''s'' \<or> t = CHR ''m'' \<or> t = CHR ''h'' \<or> t = CHR ''d'' \<or> t = CHR ''y'');
            mul = (if unit then time_mul (last s) else 1);
            s = (if unit then butlast s else s);
            ts = stoull_full s 0 * mul
        in (ts, \<not> (ts = 0 \<and> s \<noteq> ''0'' \<and> (s \<noteq> [] \<or> mul \<noteq> 1))))"

definition str_repeat :: "string \<Rightarrow> int \<Rightarrow> string" where
  "str_repeat s n = fold (\<lambda>_ r. r @ s) [0..<nat n] []"

definition utf8_length :: "string \<Rightarrow> nat" where
  "utf8_length s = fold (\<lambda>c len. len + (if (of_char c :: u8) AND 0xC0 \<noteq> 0x80 then 1 else 0)) s 0"

section \<open>Splitting\<close>

definition skip_while :: "(char \<Rightarrow> bool) \<Rightarrow> string \<Rightarrow> nat \<Rightarrow> nat" where
  "skip_while P s pos = pos + length (takeWhile P (drop pos s))"

definition skip_back :: "(char \<Rightarrow> bool) \<Rightarrow> string \<Rightarrow> nat \<Rightarrow> nat \<Rightarrow> nat" where
  "skip_back P s lo pos = pos - length (takeWhile P (rev (drop lo (take pos s))))"

definition explode_piece :: "string \<Rightarrow> string \<Rightarrow> bool \<Rightarrow> nat \<Rightarrow> string list \<times> nat" where
  "explode_piece sep value trm prev =
     (let prev = (if trm then skip_while isspace value prev else prev);
          pos = (case str_find sep value prev of None \<Rightarrow> length value | Some p \<Rightarrow> p);
          nxt = pos + length sep;
          pos = (if trm then skip_back isspace value prev pos else pos)
      in (if \<not> trm \<or> pos > prev then [take (pos - prev) (drop prev value)] else [], nxt))"

partial_function (option) explode_loop :: "string \<Rightarrow> string \<Rightarrow> bool \<Rightarrow> nat \<Rightarrow> string list \<Rightarrow> string list option" where
  "explode_loop sep value trm prev res =
     (if prev < length value
      then case explode_piece sep value trm prev of (piece, nxt) \<Rightarrow> explode_loop sep value trm nxt (res @ piece)
      else Some res)"

definition explode :: "string \<Rightarrow> string \<Rightarrow> bool \<Rightarrow> string list option" where
  "explode sep value trm = explode_loop sep value trm 0 []"

section \<open>Quoting\<close>

definition is_white :: "char \<Rightarrow> bool" where
  "is_white c \<longleftrightarrow> c = CHR '' '' \<or> c = CHR 0x09 \<or> c = CHR 0x0D \<or> c = CHR 0x0A"

abbreviation backslash :: char where "backslash \<equiv> CHR 0x5C"
abbreviation quote :: char where "quote \<equiv> CHR 0x22"
abbreviation apostrophe :: char where "apostrophe \<equiv> CHR 0x27"

text \<open>The loop over the parts of a quoted string; \<open>None\<close> is an unfinished literal.\<close>

function scan_quoted :: "string \<Rightarrow> char \<Rightarrow> nat \<Rightarrow> string \<Rightarrow> (string \<times> nat) option" where
  "scan_quoted cmd quot pos key =
     (let pos2 = skip_while (\<lambda>c. c \<noteq> backslash \<and> c \<noteq> quot) cmd pos in
      if pos2 \<ge> length cmd \<or> pos2 = length cmd - 1 \<and> cmd ! pos2 = backslash then None
      else
        let key = key @ take (pos2 - pos) (drop pos cmd) in
        if cmd ! pos2 = quot then Some (key, pos2 + 1)
        else scan_quoted cmd quot (pos2 + 2) (key @ [cmd ! (pos2 + 1)]))"
  by pat_completeness auto
termination
  by (relation "measure (\<lambda>(cmd, quot, pos, key). length cmd - pos)") (auto simp: skip_while_def)

declare scan_quoted.simps [simp del]

text \<open>The scanned text and the new position.\<close>

definition scan_escaped :: "string \<Rightarrow> nat \<Rightarrow> bool \<Rightarrow> string \<times> nat" where
  "scan_escaped cmd orig allow_unquoted =
     (let pos = skip_while is_white cmd orig in
      if pos \<ge> length cmd then ([], orig)
      else if cmd ! pos \<noteq> quote \<and> cmd ! pos \<noteq> apostrophe
      then
        if \<not> allow_unquoted then ([], orig)
        else
          let pos2 = skip_while (\<lambda>c. \<not> is_white c) cmd pos
          in (take (pos2 - pos) (drop pos cmd), pos2)
      else
        (case scan_quoted cmd (cmd ! pos) (pos + 1) [] of
           None \<Rightarrow> ([], orig)
         | Some (key, pos) \<Rightarrow> (key, pos)))"

function addslashes_loop :: "string \<Rightarrow> string \<Rightarrow> nat \<Rightarrow> string \<Rightarrow> string" where
  "addslashes_loop s toescape pos res =
     (if pos < length s
      then
        let pos2 = skip_while (\<lambda>c. c \<notin> set toescape) s pos in
        if pos2 \<ge> length s then res @ drop pos s @ [quote]
        else addslashes_loop s toescape (pos2 + 1) (res @ take (pos2 - pos) (drop pos s) @ [backslash, s ! pos2])
      else res @ [quote])"
  by pat_completeness auto
termination
  by (relation "measure (\<lambda>(s, toescape, pos, res). length s - pos)") (auto simp: skip_while_def)

declare addslashes_loop.simps [simp del]

definition addslashes :: "string \<Rightarrow> string \<Rightarrow> string" where
  "addslashes s toescape = addslashes_loop s toescape 0 [quote]"

definition auto_addslashes :: "string \<Rightarrow> string \<Rightarrow> string" where
  "auto_addslashes s toescape =
     (case find_first (\<lambda>c. c \<in> set toescape) s 0 of None \<Rightarrow> s | Some _ \<Rightarrow> addslashes s toescape)"

section \<open>Zero buffers\<close>

text \<open>A 64-bit load is non-zero iff one of its bytes is.\<close>

function is_zero_loop :: "u8 list \<Rightarrow> nat \<Rightarrow> bool" where
  "is_zero_loop buf i =
     (if i + 8 \<le> length buf
      then if \<exists>b \<in> set (take 8 (drop i buf)). b \<noteq> 0 then False else is_zero_loop buf (i + 8)
      else if i < length buf then if buf ! i \<noteq> 0 then False else is_zero_loop buf (i + 1)
      else True)"
  by pat_completeness auto
termination
  by (relation "measure (\<lambda>(buf, i). length buf - i)") auto

declare is_zero_loop.simps [simp del]

definition is_zero :: "u8 list \<Rightarrow> bool" where
  "is_zero buf = is_zero_loop buf 0"

end
