(* ===== verification/Str_Props.thy ===== *)
theory Str_Props
  imports Str_Util
begin

text \<open>
  Results about the string helpers: quoting and scanning are inverse, what splitting gives, decimal
  numbers are read back, loops end, and where \<open>str_replace\<close> is right.
\<close>

section \<open>Searching\<close>

lemma find_upt_Some:
  "List.find P [a..<b] = Some p \<longleftrightarrow> a \<le> p \<and> p < b \<and> P p \<and> (\<forall>q. a \<le> q \<and> q < p \<longrightarrow> \<not> P q)"
proof
  assume "List.find P [a..<b] = Some p"
  then obtain i where i: "i < b - a" "P (a + i)" "p = a + i" "\<And>j. j < i \<Longrightarrow> \<not> P (a + j)"
    unfolding find_Some_iff by force
  have "\<not> P q" if "a \<le> q" "q < p" for q
    using i(4) [of "q - a"] that i(3) by simp
  then show "a \<le> p \<and> p < b \<and> P p \<and> (\<forall>q. a \<le> q \<and> q < p \<longrightarrow> \<not> P q)"
    using i(1-3) by simp
next
  assume "a \<le> p \<and> p < b \<and> P p \<and> (\<forall>q. a \<le> q \<and> q < p \<longrightarrow> \<not> P q)"
  then show "List.find P [a..<b] = Some p"
    unfolding find_Some_iff by (intro exI [of _ "p - a"]) auto
qed

lemma find_upt_None: "List.find P [a..<b] = None \<longleftrightarrow> (\<forall>q. a \<le> q \<and> q < b \<longrightarrow> \<not> P q)"
  by (auto simp: find_None_iff)

definition occurs_at :: "string \<Rightarrow> string \<Rightarrow> nat \<Rightarrow> bool" where
  "occurs_at needle s p \<longleftrightarrow> take (length needle) (drop p s) = needle"

lemma str_find_Some:
  "str_find needle s pos = Some p \<longleftrightarrow>
    pos \<le> p \<and> p \<le> length s \<and> occurs_at needle s p \<and> (\<forall>q. pos \<le> q \<and> q < p \<longrightarrow> \<not> occurs_at needle s q)"
  by (auto simp: str_find_def find_upt_Some occurs_at_def less_Suc_eq_le simp del: upt_Suc)

lemma str_find_None:
  "str_find needle s pos = None \<longleftrightarrow> (\<forall>q. pos \<le> q \<and> q \<le> length s \<longrightarrow> \<not> occurs_at needle s q)"
  by (auto simp: str_find_def find_upt_None occurs_at_def less_Suc_eq_le simp del: upt_Suc)

lemma occurs_at_length: "occurs_at needle s p \<Longrightarrow> p \<le> length s \<Longrightarrow> p + length needle \<le> length s"
proof -
  assume "occurs_at needle s p" "p \<le> length s"
  then have "length (take (length needle) (drop p s)) = length needle" by (simp add: occurs_at_def)
  then show ?thesis using \<open>p \<le> length s\<close> by simp
qed

section \<open>Replacing\<close>

function replace_ref :: "string \<Rightarrow> string \<Rightarrow> string \<Rightarrow> string" where
  "replace_ref needle repl s =
     (if s = [] \<or> needle = [] then s
      else if take (length needle) s = needle then repl @ replace_ref needle repl (drop (length needle) s)
      else hd s # replace_ref needle repl (tl s))"
  by pat_completeness auto
termination
  by (relation "measure (\<lambda>(needle, repl, s). length s)") auto

declare replace_ref.simps [simp del]

lemma replace_ref_none:
  assumes "\<And>q. pos \<le> q \<Longrightarrow> q \<le> length s \<Longrightarrow> \<not> occurs_at needle s q" "needle \<noteq> []"
  shows "replace_ref needle repl (drop pos s) = drop pos s"
  using assms(1)
proof (induction "length s - pos" arbitrary: pos)
  case 0
  then show ?case by (subst replace_ref.simps) simp
next
  case (Suc n)
  then have "pos < length s" by simp
  then have d: "drop pos s = s ! pos # drop (Suc pos) s" by (simp add: Cons_nth_drop_Suc)
  have "\<not> occurs_at needle s pos" using Suc.prems \<open>pos < length s\<close> by simp
  moreover have "replace_ref needle repl (drop (Suc pos) s) = drop (Suc pos) s"
    using Suc.hyps(2) Suc.prems by (intro Suc.hyps(1)) auto
  ultimately show ?case
    using assms(2) by (subst replace_ref.simps) (simp add: d occurs_at_def)
qed

lemma replace_ref_found:
  assumes "pos \<le> p" "p \<le> length s" "occurs_at needle s p" "\<And>q. pos \<le> q \<Longrightarrow> q < p \<Longrightarrow> \<not> occurs_at needle s q" "needle \<noteq> []"
  shows "replace_ref needle repl (drop pos s) =
    take (p - pos) (drop pos s) @ repl @ replace_ref needle repl (drop (p + length needle) s)"
  using assms(1,4)
proof (induction "p - pos" arbitrary: pos)
  case 0
  then have "pos = p" by simp
  moreover have "drop p s \<noteq> []" using occurs_at_length [OF assms(3,2)] assms(5) by (cases needle) auto
  ultimately show ?case
    using assms(3,5) by (subst replace_ref.simps) (simp add: occurs_at_def add.commute)
next
  case (Suc n)
  then have pp: "pos < p" "pos < length s" using assms(2) by auto
  then have d: "drop pos s = s ! pos # drop (Suc pos) s" by (simp add: Cons_nth_drop_Suc)
  have "replace_ref needle repl (drop (Suc pos) s) =
      take (p - Suc pos) (drop (Suc pos) s) @ repl @ replace_ref needle repl (drop (p + length needle) s)"
    using Suc.hyps(2) Suc.prems pp by (intro Suc.hyps(1)) auto
  moreover have "\<not> occurs_at needle s pos" using Suc.prems pp by simp
  moreover have "p - pos = Suc (p - Suc pos)" using pp by simp
  ultimately show ?case
    using assms(5) by (subst replace_ref.simps) (simp add: d occurs_at_def)
qed

lemma str_replace_loop_correct:
  assumes "length repl = length needle" "needle \<noteq> []" "pos \<le> length s" "pos = 0 \<longrightarrow> res = []"
  shows "str_replace_loop s needle repl pos res = Some (Inr (res @ replace_ref needle repl (drop pos s)))"
  using assms(3,4)
proof (induction "length s - pos" arbitrary: pos res rule: less_induct)
  case less
  show ?case
  proof (cases "str_find needle s pos")
    case None
    then have "replace_ref needle repl (drop pos s) = drop pos s"
      using assms(2) by (intro replace_ref_none) (simp_all add: str_find_None)
    then show ?thesis
      using None less.prems by (subst str_replace_loop.simps) (simp add: substr_def)
  next
    case (Some p)
    then have p: "pos \<le> p" "p \<le> length s" "occurs_at needle s p" "\<And>q. pos \<le> q \<Longrightarrow> q < p \<Longrightarrow> \<not> occurs_at needle s q"
      by (simp_all add: str_find_Some)
    note l = occurs_at_length [OF p(3,2)]
    have "str_replace_loop s needle repl (p + length repl) (res @ take (p - pos) (drop pos s) @ repl) =
        Some (Inr ((res @ take (p - pos) (drop pos s) @ repl) @ replace_ref needle repl (drop (p + length repl) s)))"
      using l p(1) assms(1,2) by (intro less.hyps) (auto simp: less_diff_conv2 neq_Nil_conv)
    then show ?thesis
      using Some assms(1) replace_ref_found [OF p assms(2), of repl] by (subst str_replace_loop.simps) simp
  qed
qed

lemma str_replace_loop_ends:
  assumes "repl \<noteq> []" "pos \<le> length s \<or> length needle < length repl"
  shows "\<exists>r. str_replace_loop s needle repl pos res = Some r \<and>
    (case r of Inr t \<Rightarrow> True | Inl f \<Rightarrow> f = Out_of_range ''substr'' \<and> length needle < length repl)"
  using assms(2)
proof (induction "Suc (length s) - pos" arbitrary: pos res rule: less_induct)
  case less
  show ?case
  proof (cases "str_find needle s pos")
    case None
    then show ?thesis using less.prems by (subst str_replace_loop.simps) (auto simp: substr_def)
  next
    case (Some p)
    then have p: "pos \<le> p" "p \<le> length s" "occurs_at needle s p" by (simp_all add: str_find_Some)
    have "Suc (length s) - (p + length repl) < Suc (length s) - pos"
      using p assms by (cases repl) auto
    moreover have "p + length repl \<le> length s \<or> length needle < length repl"
      using occurs_at_length [OF p(3,2)] by linarith
    ultimately show ?thesis
      using less.hyps Some by (subst str_replace_loop.simps) simp
  qed
qed

lemma str_replace_loop_diverges:
  "str_replace_loop s needle repl pos res = Some r \<Longrightarrow> repl = [] \<Longrightarrow> pos \<le> p \<Longrightarrow> str_find needle s 0 = Some p \<Longrightarrow> False"
proof (induction s needle repl pos res r rule: str_replace_loop.raw_induct [rotated, consumes 1, case_names Step])
  case (Step f s needle repl pos res r)
  have "str_find needle s pos = Some p" using Step(4,5) by (simp add: str_find_Some)
  with Step(2,3) have "f s needle [] p (res @ take (p - pos) (drop pos s)) = Some r" by simp
  from Step(1) [OF this refl order_refl Step(5)] show ?case .
qed

section \<open>Quoting\<close>

lemma skip_while_step:
  assumes "pos < length s"
  shows "skip_while P s pos = (if P (s ! pos) then skip_while P s (pos + 1) else pos)"
  using assms by (simp add: skip_while_def Cons_nth_drop_Suc [symmetric])

lemma skip_while_ge: "pos \<le> skip_while P s pos"
  by (simp add: skip_while_def)

lemma scan_quoted_plain:
  assumes "pos < length cmd" "cmd ! pos \<noteq> backslash" "cmd ! pos \<noteq> quot"
  shows "scan_quoted cmd quot pos key = scan_quoted cmd quot (pos + 1) (key @ [cmd ! pos])"
proof -
  let ?P = "\<lambda>c. c \<noteq> backslash \<and> c \<noteq> quot"
  have e: "skip_while ?P cmd pos = skip_while ?P cmd (pos + 1)"
    using assms skip_while_step [of pos cmd ?P] by simp
  let ?p = "skip_while ?P cmd (pos + 1)"
  obtain d where d: "?p = pos + 1 + d" using le_Suc_ex [OF skip_while_ge] by blast
  then have "take (?p - pos) (drop pos cmd) = cmd ! pos # take (?p - (pos + 1)) (drop (pos + 1) cmd)"
    unfolding d using assms(1) by (simp add: Cons_nth_drop_Suc [symmetric])
  then have k: "key @ take (?p - pos) (drop pos cmd) = (key @ [cmd ! pos]) @ take (?p - (pos + 1)) (drop (pos + 1) cmd)"
    by simp
  show ?thesis
    unfolding scan_quoted.simps [of cmd quot pos key] scan_quoted.simps [of cmd quot "pos + 1" "key @ [cmd ! pos]"] Let_def e k ..
qed

lemma scan_quoted_escape:
  assumes "pos + 1 < length cmd" "cmd ! pos = backslash" "quot \<noteq> backslash"
  shows "scan_quoted cmd quot pos key = scan_quoted cmd quot (pos + 2) (key @ [cmd ! (pos + 1)])"
  using assms skip_while_step [of pos cmd "\<lambda>c. c \<noteq> backslash \<and> c \<noteq> quot"]
  by (subst scan_quoted.simps) (auto simp: Let_def)

lemma scan_quoted_end:
  assumes "pos < length cmd" "cmd ! pos = quot" "quot \<noteq> backslash"
  shows "scan_quoted cmd quot pos key = Some (key, pos + 1)"
  using assms skip_while_step [of pos cmd "\<lambda>c. c \<noteq> backslash \<and> c \<noteq> quot"]
  by (subst scan_quoted.simps) (auto simp: Let_def)

definition escaped :: "string \<Rightarrow> string \<Rightarrow> string" where
  "escaped esc s = concat (map (\<lambda>c. if c \<in> set esc then [backslash, c] else [c]) s)"

lemma scan_quoted_escaped:
  assumes "quote \<in> set esc" "backslash \<in> set esc"
  shows "scan_quoted (pre @ escaped esc t @ [quote]) quote (length pre) key =
    Some (key @ t, length pre + length (escaped esc t) + 1)"
proof (induction t arbitrary: pre key)
  case Nil
  then show ?case by (subst scan_quoted_end) (auto simp: escaped_def)
next
  case (Cons c t)
  show ?case
  proof (cases "c \<in> set esc")
    case True
    have "scan_quoted (pre @ escaped esc (c # t) @ [quote]) quote (length pre) key =
        scan_quoted ((pre @ [backslash, c]) @ escaped esc t @ [quote]) quote (length (pre @ [backslash, c])) (key @ [c])"
      using True by (subst scan_quoted_escape) (auto simp: escaped_def nth_append)
    then show ?thesis
      using Cons.IH [of "pre @ [backslash, c]" "key @ [c]"] True by (simp add: escaped_def)
  next
    case False
    then have "c \<noteq> backslash" "c \<noteq> quote" using assms by auto
    then have "scan_quoted (pre @ escaped esc (c # t) @ [quote]) quote (length pre) key =
        scan_quoted ((pre @ [c]) @ escaped esc t @ [quote]) quote (length (pre @ [c])) (key @ [c])"
      using False by (subst scan_quoted_plain) (auto simp: escaped_def nth_append)
    then show ?thesis
      using Cons.IH [of "pre @ [c]" "key @ [c]"] False by (simp add: escaped_def)
  qed
qed

lemma escaped_plain: "(\<And>c. c \<in> set s \<Longrightarrow> c \<notin> set esc) \<Longrightarrow> escaped esc s = s"
  by (induction s) (simp_all add: escaped_def)

lemma escaped_Cons: "escaped esc (c # s) = (if c \<in> set esc then [backslash, c] else [c]) @ escaped esc s"
  by (simp add: escaped_def)

lemma escaped_append: "escaped esc (s @ t) = escaped esc s @ escaped esc t"
  by (simp add: escaped_def)

lemma skip_while_take: "c \<in> set (take (skip_while P s pos - pos) (drop pos s)) \<Longrightarrow> P c"
  unfolding skip_while_def add_diff_cancel_left' takeWhile_eq_take [symmetric] by (rule conjunct2 [OF set_takeWhileD])

lemma skip_while_stop: "skip_while P s pos < length s \<Longrightarrow> \<not> P (s ! skip_while P s pos)"
  using nth_length_takeWhile [of P "drop pos s"] by (simp add: skip_while_def)

lemma addslashes_loop_escaped:
  "addslashes_loop s esc pos res = res @ escaped esc (drop pos s) @ [quote]"
proof (induction s esc pos res rule: addslashes_loop.induct)
  case (1 s esc pos res)
  show ?case
  proof (cases "pos < length s")
    case False
    then show ?thesis by (subst addslashes_loop.simps) (simp add: escaped_def)
  next
    case True
    let ?p = "skip_while (\<lambda>c. c \<notin> set esc) s pos"
    have plain: "escaped esc (take (?p - pos) (drop pos s)) = take (?p - pos) (drop pos s)"
      by (rule escaped_plain) (rule skip_while_take)
    have split: "drop pos s = take (?p - pos) (drop pos s) @ drop ?p s"
      using append_take_drop_id [of "?p - pos" "drop pos s"] skip_while_ge [of pos "\<lambda>c. c \<notin> set esc" s]
      by (simp add: drop_drop)
    show ?thesis
    proof (cases "?p \<ge> length s")
      case stop: True
      then have "escaped esc (drop pos s) = drop pos s"
        using plain split by simp
      then show ?thesis using True stop by (subst addslashes_loop.simps) simp
    next
      case False
      then have d: "drop ?p s = s ! ?p # drop (?p + 1) s" by (simp add: Cons_nth_drop_Suc)
      have "s ! ?p \<in> set esc" using skip_while_stop [of "\<lambda>c. c \<notin> set esc" s pos] False by simp
      then have "escaped esc (drop pos s) = take (?p - pos) (drop pos s) @ [backslash, s ! ?p] @ escaped esc (drop (?p + 1) s)"
        by (subst split) (simp add: escaped_append plain d escaped_Cons)
      then show ?thesis
        using True False 1 by (subst addslashes_loop.simps) (simp add: Let_def)
    qed
  qed
qed

section \<open>Splitting at a character\<close>

function pieces :: "char \<Rightarrow> string \<Rightarrow> string list" where
  "pieces c s = (if s = [] then [] else takeWhile (\<lambda>x. x \<noteq> c) s # pieces c (drop (length (takeWhile (\<lambda>x. x \<noteq> c) s) + 1) s))"
  by pat_completeness auto
termination
  by (relation "measure (\<lambda>(c, s). length s)") auto

declare pieces.simps [simp del]

lemma pieces_Nil: "pieces c [] = []"
  by (subst pieces.simps) simp

lemma occurs_at_char: "p < length s \<Longrightarrow> occurs_at [c] s p \<longleftrightarrow> s ! p = c" "\<not> occurs_at [c] s (length s)"
  by (auto simp: occurs_at_def Cons_nth_drop_Suc [symmetric])

lemma str_find_char:
  assumes "prev \<le> length v"
  shows "(case str_find [c] v prev of None \<Rightarrow> length v | Some p \<Rightarrow> p) = prev + length (takeWhile (\<lambda>x. x \<noteq> c) (drop prev v))"
proof -
  let ?l = "length (takeWhile (\<lambda>x. x \<noteq> c) (drop prev v))"
  have before: "v ! q \<noteq> c" if "prev \<le> q" "q < prev + ?l" for q
  proof -
    define i where "i = q - prev"
    then have i: "q = prev + i" "i < ?l" using that by simp_all
    then have "takeWhile (\<lambda>x. x \<noteq> c) (drop prev v) ! i = v ! q"
      using assms by (simp add: takeWhile_nth)
    moreover have "takeWhile (\<lambda>x. x \<noteq> c) (drop prev v) ! i \<in> set (takeWhile (\<lambda>x. x \<noteq> c) (drop prev v))"
      using i(2) by (rule nth_mem)
    ultimately show ?thesis using set_takeWhileD [of "v ! q" "\<lambda>x. x \<noteq> c" "drop prev v"] by simp
  qed
  have le: "?l \<le> length v - prev" using length_takeWhile_le [of _ "drop prev v"] by simp
  show ?thesis
  proof (cases "prev + ?l < length v")
    case True
    then have "v ! (prev + ?l) = c"
      using nth_length_takeWhile [of "\<lambda>x. x \<noteq> c" "drop prev v"] by simp
    moreover have "\<not> occurs_at [c] v q" if "prev \<le> q \<and> q < prev + ?l" for q
      using that before [of q] True by (simp add: occurs_at_char)
    ultimately have "str_find [c] v prev = Some (prev + ?l)"
      using True by (simp add: str_find_Some occurs_at_char)
    then show ?thesis by simp
  next
    case False
    then have e: "prev + ?l = length v" using le assms by simp
    have "str_find [c] v prev = None"
      unfolding str_find_None
    proof (intro allI impI)
      fix q assume q: "prev \<le> q \<and> q \<le> length v"
      show "\<not> occurs_at [c] v q"
        using q before [of q] e by (cases "q = length v") (simp_all add: occurs_at_char)
    qed
    then show ?thesis using e by simp
  qed
qed

lemma explode_loop_char:
  assumes "prev \<le> Suc (length v)"
  shows "explode_loop [c] v False prev res = Some (res @ pieces c (drop prev v))"
  using assms
proof (induction "Suc (length v) - prev" arbitrary: prev res rule: less_induct)
  case less
  show ?case
  proof (cases "prev < length v")
    case False
    then show ?thesis by (subst explode_loop.simps) (simp add: pieces_Nil)
  next
    case True
    let ?l = "length (takeWhile (\<lambda>x. x \<noteq> c) (drop prev v))"
    have le: "?l \<le> length v - prev" using length_takeWhile_le [of _ "drop prev v"] by simp
    have piece: "explode_piece [c] v False prev = ([takeWhile (\<lambda>x. x \<noteq> c) (drop prev v)], prev + ?l + 1)"
      using True str_find_char [of prev v c] by (simp add: explode_piece_def Let_def takeWhile_eq_take [symmetric])
    have "explode_loop [c] v False (prev + ?l + 1) (res @ [takeWhile (\<lambda>x. x \<noteq> c) (drop prev v)]) =
        Some ((res @ [takeWhile (\<lambda>x. x \<noteq> c) (drop prev v)]) @ pieces c (drop (prev + ?l + 1) v))"
      using True le by (intro less.hyps) auto
    moreover have "pieces c (drop prev v) = takeWhile (\<lambda>x. x \<noteq> c) (drop prev v) # pieces c (drop (prev + ?l + 1) v)"
      using True by (subst pieces.simps) (simp add: add.commute add.left_commute)
    ultimately show ?thesis
      using True piece by (subst explode_loop.simps) simp
  qed
qed

text \<open>All parts of a text between occurrences of a character, and a text without white space at its ends.\<close>

fun split_char :: "char \<Rightarrow> string \<Rightarrow> string list" where
  "split_char c [] = [[]]"
| "split_char c (x # s) = (if x = c then [] # split_char c s else (x # hd (split_char c s)) # tl (split_char c s))"

definition strip :: "string \<Rightarrow> string" where
  "strip s = rev (dropWhile isspace (rev (dropWhile isspace s)))"

definition fields :: "char \<Rightarrow> string \<Rightarrow> string list" where
  "fields c s = filter (\<lambda>p. p \<noteq> []) (map strip (split_char c s))"

lemma split_char_ne [simp]: "split_char c s \<noteq> []"
  by (cases s) simp_all

lemma split_char_plain: "c \<notin> set p \<Longrightarrow> split_char c p = [p]"
  by (induction p) auto

lemma split_char_sep: "c \<notin> set p \<Longrightarrow> split_char c (p @ c # r) = p # split_char c r"
  by (induction p) auto

lemma takeWhile_cases:
  fixes c :: char
  defines "p s \<equiv> takeWhile (\<lambda>x. x \<noteq> c) s"
  shows "c \<notin> set (p s)"
    and "length (p s) < length s \<Longrightarrow> s = p s @ c # drop (length (p s) + 1) s"
    and "\<not> length (p s) < length s \<Longrightarrow> p s = s"
proof -
  show "c \<notin> set (p s)" unfolding p_def by (auto dest: set_takeWhileD)
  show "s = p s @ c # drop (length (p s) + 1) s" if "length (p s) < length s"
    using that nth_length_takeWhile [of "\<lambda>x. x \<noteq> c" s] append_take_drop_id [of "length (p s)" s]
      Cons_nth_drop_Suc [of "length (p s)" s]
    by (simp add: p_def takeWhile_eq_take [symmetric])
  show "p s = s" if "\<not> length (p s) < length s"
    using that takeWhile_eq_take [of "\<lambda>x. x \<noteq> c" s] by (simp add: p_def)
qed

lemma pieces_split: "pieces c s = (let ps = split_char c s in if last ps = [] then butlast ps else ps)"
proof (induction c s rule: pieces.induct)
  case (1 c s)
  let ?p = "takeWhile (\<lambda>x. x \<noteq> c) s"
  show ?case
  proof (cases "length ?p < length s")
    case True
    then have "s \<noteq> []" by auto
    have "split_char c s = ?p # split_char c (drop (length ?p + 1) s)"
      using split_char_sep [OF takeWhile_cases(1) [of c s], of "drop (length ?p + 1) s"]
      unfolding takeWhile_cases(2) [OF True, symmetric] .
    then show ?thesis
      using 1 [OF \<open>s \<noteq> []\<close>] \<open>s \<noteq> []\<close> by (subst pieces.simps) (simp add: Let_def)
  next
    case False
    then have p: "?p = s" by (rule takeWhile_cases(3))
    have "c \<notin> set s" using takeWhile_cases(1) [of c s] unfolding p .
    then have "split_char c s = [s]" by (rule split_char_plain)
    then show ?thesis by (subst pieces.simps) (simp add: p pieces_Nil)
  qed
qed

lemma strip_Cons: "isspace x \<Longrightarrow> strip (x # s) = strip s"
  by (simp add: strip_def)

lemma fields_space: "isspace x \<Longrightarrow> fields c (x # s) = fields c s"
  by (cases "split_char c s"; cases "x = c") (simp_all add: fields_def strip_Cons, simp_all add: strip_def)

lemma fields_skip: "fields c (dropWhile isspace s) = fields c s"
  by (induction s) (auto simp: fields_space)

lemma fields_sep: "c \<notin> set p \<Longrightarrow> fields c (p @ c # r) = (if strip p = [] then [] else [strip p]) @ fields c r"
  by (simp add: fields_def split_char_sep)

lemma fields_plain: "c \<notin> set p \<Longrightarrow> fields c p = (if strip p = [] then [] else [strip p])"
  by (simp add: fields_def split_char_plain)

lemma fields_first:
  "fields c s = (let p = takeWhile (\<lambda>x. x \<noteq> c) s in (if strip p = [] then [] else [strip p]) @ fields c (drop (length p + 1) s))"
proof (cases "length (takeWhile (\<lambda>x. x \<noteq> c) s) < length s")
  case True
  show ?thesis
    using fields_sep [OF takeWhile_cases(1) [of c s], of "drop (length (takeWhile (\<lambda>x. x \<noteq> c) s) + 1) s"]
    unfolding takeWhile_cases(2) [OF True, symmetric] Let_def .
next
  case False
  then have p: "takeWhile (\<lambda>x. x \<noteq> c) s = s" by (rule takeWhile_cases(3))
  then show ?thesis
    using fields_plain [OF takeWhile_cases(1) [of c s]] unfolding p Let_def by (simp add: fields_def [of c "[]"] strip_def [of "[]"])
qed

text \<open>Cutting white space off the end of a piece that starts with none.\<close>

lemma skip_back_strip:
  assumes "p = take l (drop lo v)" "lo + l \<le> length v" "p = [] \<or> \<not> isspace (hd p)"
  shows "take (skip_back isspace v lo (lo + l) - lo) (drop lo v) = strip p" "lo < skip_back isspace v lo (lo + l) \<longleftrightarrow> strip p \<noteq> []"
proof -
  have d: "drop lo (take (lo + l) v) = p" using assms(1) by (simp add: drop_take)
  have lp: "length p = l" using assms(1,2) by simp
  let ?w = "length (takeWhile isspace (rev p))"
  have w: "?w \<le> l" using length_takeWhile_le [of isspace "rev p"] lp by simp
  have sb: "skip_back isspace v lo (lo + l) = lo + (l - ?w)"
    using w by (simp add: skip_back_def d)
  have "dropWhile isspace p = p" using assms(3) by (cases p) auto
  then have st: "strip p = take (l - ?w) p"
    by (simp add: strip_def dropWhile_eq_drop [of isspace "rev p"] rev_drop lp)
  show "take (skip_back isspace v lo (lo + l) - lo) (drop lo v) = strip p"
    unfolding sb st unfolding assms(1) by simp
  show "lo < skip_back isspace v lo (lo + l) \<longleftrightarrow> strip p \<noteq> []"
    unfolding sb st using lp by (cases "p = []") auto
qed

lemma explode_loop_trim:
  "explode_loop [c] v True prev res = Some (res @ fields c (drop prev v))"
proof (induction "length v - prev" arbitrary: prev res rule: less_induct)
  case less
  show ?case
  proof (cases "prev < length v")
    case False
    then show ?thesis by (subst explode_loop.simps) (simp add: fields_def strip_def)
  next
    case True
    let ?q = "skip_while isspace v prev"
    let ?p = "takeWhile (\<lambda>x. x \<noteq> c) (drop ?q v)"
    have q: "prev \<le> ?q" "?q \<le> length v"
      using True length_takeWhile_le [of isspace "drop prev v"] by (auto simp: skip_while_def)
    have dq: "drop ?q v = dropWhile isspace (drop prev v)"
      by (simp add: skip_while_def dropWhile_eq_drop add.commute)
    have lp: "?q + length ?p \<le> length v"
      using length_takeWhile_le [of "\<lambda>x. x \<noteq> c" "drop ?q v"] q by simp
    have "?p = [] \<or> \<not> isspace (hd ?p)"
      using hd_dropWhile [of isspace "drop prev v"] unfolding dq [symmetric] by (cases "drop ?q v") auto
    note sb = skip_back_strip [OF takeWhile_eq_take lp this]
    have piece: "explode_piece [c] v True prev = (if strip ?p = [] then [] else [strip ?p], ?q + length ?p + 1)"
      using sb str_find_char [OF q(2), of c] by (simp add: explode_piece_def Let_def)
    have "fields c (drop prev v) = fields c (drop ?q v)"
      unfolding dq by (rule fields_skip [symmetric])
    also have "\<dots> = (if strip ?p = [] then [] else [strip ?p]) @ fields c (drop (?q + length ?p + 1) v)"
      by (subst fields_first) (simp add: Let_def add.commute add.left_commute)
    finally have f: "fields c (drop prev v) = (if strip ?p = [] then [] else [strip ?p]) @ fields c (drop (?q + length ?p + 1) v)" .
    have "length v - (?q + length ?p + 1) < length v - prev" using True q by simp
    from less [OF this] show ?thesis
      using True by (subst explode_loop.simps) (simp add: piece f)
  qed
qed

lemma explode_loop_returns:
  assumes "sep \<noteq> []"
  shows "\<exists>r. explode_loop sep v trm prev res = Some r"
proof (induction "length v - prev" arbitrary: prev res rule: less_induct)
  case less
  show ?case
  proof (cases "prev < length v")
    case False
    then show ?thesis by (subst explode_loop.simps) simp
  next
    case True
    obtain piece nxt where p: "explode_piece sep v trm prev = (piece, nxt)" by fastforce
    let ?q = "if trm then skip_while isspace v prev else prev"
    have q: "prev \<le> ?q" using skip_while_ge by simp
    have "?q \<le> length v"
      using True length_takeWhile_le [of isspace "drop prev v"] by (auto simp: skip_while_def)
    then have "?q \<le> (case str_find sep v ?q of None \<Rightarrow> length v | Some p \<Rightarrow> p)"
      by (auto simp: str_find_Some split: option.splits)
    then have "prev < nxt"
      using p q assms by (cases sep) (auto simp: explode_piece_def Let_def)
    then have "length v - nxt < length v - prev" using True by simp
    from less [OF this] True p show ?thesis
      by (subst explode_loop.simps) simp
  qed
qed

section \<open>Numbers\<close>

definition dec_digit :: "nat \<Rightarrow> char" where
  "dec_digit d = char_of (48 + d)"

fun dec_string :: "nat \<Rightarrow> string" where
  "dec_string n = (if n < 10 then [dec_digit n] else dec_string (n div 10) @ [dec_digit (n mod 10)])"

declare dec_string.simps [simp del]

lemma of_char_dec_digit: "d < 10 \<Longrightarrow> of_char (dec_digit d) = (48 + d :: nat)"
  by (simp add: dec_digit_def)

lemma digit_val_dec_digit: "d < 10 \<Longrightarrow> digit_val (dec_digit d) = Some d"
  by (simp add: digit_val_def of_char_dec_digit)

lemma digits_val_snoc:
  "digits_val b (cs @ [c]) acc = digits_val b cs acc * b + (case digit_val c of None \<Rightarrow> 0 | Some d \<Rightarrow> d)"
  by (induction cs arbitrary: acc) simp_all

lemma digits_val_dec_string: "digits_val 10 (dec_string n) 0 = n"
proof (induction n rule: dec_string.induct)
  case (1 n)
  then show ?case
    by (subst dec_string.simps) (simp add: digits_val_snoc digit_val_dec_digit)
qed

lemma dec_string_digits: "c \<in> set (dec_string n) \<Longrightarrow> is_digit 10 c"
proof (induction n rule: dec_string.induct)
  case (1 n)
  have "is_digit 10 (dec_digit d)" if "d < 10" for d
    using that by (simp add: is_digit_def digit_val_dec_digit)
  then show ?case
    using 1 by (subst (asm) (2) dec_string.simps) (auto split: if_splits)
qed

lemma dec_string_hd: "0 < n \<Longrightarrow> \<exists>d cs. dec_string n = dec_digit d # cs \<and> 0 < d \<and> d < 10"
proof (induction n rule: dec_string.induct)
  case (1 n)
  show ?case
  proof (cases "n < 10")
    case True
    then have "dec_string n = dec_digit n # []" by (subst dec_string.simps) simp
    then show ?thesis using 1(2) True by blast
  next
    case False
    then have "0 < n div 10" by simp
    from 1(1) [OF False this] obtain d cs where d: "dec_string (n div 10) = dec_digit d # cs" "0 < d" "d < 10"
      by blast
    then have "dec_string n = dec_digit d # cs @ [dec_digit (n mod 10)]"
      using False by (subst dec_string.simps) simp
    with d(2,3) show ?thesis by blast
  qed
qed

lemma dec_digit_class:
  assumes "d < 10"
  shows "\<not> isspace (dec_digit d)" "dec_digit d \<noteq> CHR ''-''" "dec_digit d \<noteq> CHR ''+''" "0 < d \<Longrightarrow> dec_digit d \<noteq> CHR ''0''"
proof -
  have d: "of_char (dec_digit d) = (48 + d :: nat)" by (rule of_char_dec_digit [OF assms])
  have ne: "dec_digit d \<noteq> c" if "of_char c \<noteq> (48 + d :: nat)" for c using that d by auto
  show "\<not> isspace (dec_digit d)" unfolding isspace_def using d by auto
  show "dec_digit d \<noteq> CHR ''-''" "dec_digit d \<noteq> CHR ''+''" by (rule ne; simp)+
  show "dec_digit d \<noteq> CHR ''0''" if "0 < d" by (rule ne) (use that in simp)
qed

lemma strtoull_dec_string:
  assumes "0 < n" "n < 2 ^ 64" "base = 0 \<or> base = 10"
  shows "strtoull (dec_string n) base = (of_nat n, length (dec_string n))"
proof -
  obtain d cs where d: "dec_string n = dec_digit d # cs" "0 < d" "d < 10" using dec_string_hd [OF assms(1)] by blast
  have t: "takeWhile (is_digit 10) (dec_string n) = dec_string n"
    using dec_string_digits by (simp add: takeWhile_eq_all_conv)
  note c = dec_digit_class [OF d(3)]
  have h: "hd (dec_string n) = dec_digit d" "dec_string n \<noteq> []" using d(1) by simp_all
  have w: "takeWhile isspace (dec_string n) = []" using d(1) c(1) by simp
  show ?thesis
    using assms(2,3) c(2,3) c(4) [OF d(2)]
    unfolding strtoull_def w Let_def
    by (elim disjE) (simp_all add: h t digits_val_dec_string)
qed

lemma stoull_full_dec_string:
  assumes "0 < n" "n < 2 ^ 64" "base = 0 \<or> base = 10"
  shows "stoull_full (dec_string n) base = of_nat n"
proof -
  obtain d cs where d: "dec_string n = dec_digit d # cs" "d < 10" using dec_string_hd [OF assms(1)] by blast
  then have "\<not> isspace (hd (dec_string n))" using dec_digit_class(1) by simp
  then show ?thesis by (simp add: stoull_full_def strtoull_dec_string [OF assms])
qed

section \<open>Zero buffers\<close>

lemma is_zero_loop_correct: "is_zero_loop buf i \<longleftrightarrow> (\<forall>b \<in> set (drop i buf). b = 0)"
proof (induction buf i rule: is_zero_loop.induct)
  case (1 buf i)
  show ?case
  proof (cases "i + 8 \<le> length buf")
    case True
    have "drop i buf = take 8 (drop i buf) @ drop (i + 8) buf"
      by (metis append_take_drop_id drop_drop add.commute)
    then have "set (drop i buf) = set (take 8 (drop i buf)) \<union> set (drop (i + 8) buf)"
      by (metis set_append)
    then show ?thesis using 1(1) [OF True] True by (subst is_zero_loop.simps) auto
  next
    case False
    show ?thesis
    proof (cases "i < length buf")
      case True
      then have "drop i buf = buf ! i # drop (i + 1) buf" by (simp add: Cons_nth_drop_Suc)
      then show ?thesis using 1(2) [OF False True] False True by (subst is_zero_loop.simps) auto
    qed (use False in \<open>subst is_zero_loop.simps, simp\<close>)
  qed
qed

section \<open>Properties\<close>

text \<open>C22: quoting and scanning are inverse. If the set of characters to escape has the quote and the
  backslash, then \<open>scan_escaped\<close> reads back from \<open>addslashes(s)\<close> exactly \<open>s\<close>, up to the closing quote.\<close>

theorem addslashes_scan_roundtrip:
  assumes "quote \<in> set esc" "backslash \<in> set esc"
  shows "scan_escaped (addslashes s esc) 0 allow_unquoted = (s, length (addslashes s esc))"
proof -
  have a: "addslashes s esc = [quote] @ escaped esc s @ [quote]"
    by (simp add: addslashes_def addslashes_loop_escaped)
  have w: "skip_while is_white (addslashes s esc) 0 = 0"
    by (simp add: a skip_while_def is_white_def)
  show ?thesis
    using scan_quoted_escaped [OF assms, of "[quote]" s "[]"]
    unfolding scan_escaped_def w by (simp add: a)
qed

theorem addslashes_scan_roundtrip_witness:
  "scan_escaped (addslashes [CHR ''a'', quote, backslash] [backslash, quote]) 0 False =
     ([CHR ''a'', quote, backslash], length (addslashes [CHR ''a'', quote, backslash] [backslash, quote]))"
  by (rule addslashes_scan_roundtrip) simp_all

text \<open>C23: what \<open>explode\<close> makes of a text at a separator of one character. With \<open>trim\<close>, as all callers use it, it returns the parts
  between the separators without white space at their ends, leaving out the empty ones; without \<open>trim\<close> it returns all the parts
  as they are, except an empty part after the last separator.\<close>

theorem explode_fields:
  "explode [c] v trm = Some
     (if trm then filter (\<lambda>p. p \<noteq> []) (map strip (split_char c v))
      else let ps = split_char c v in if last ps = [] then butlast ps else ps)"
  unfolding explode_def
  by (cases trm) (simp_all add: explode_loop_trim explode_loop_char pieces_split fields_def)

text \<open>C24: \<open>explode\<close> returns for every text as soon as the separator is not empty.\<close>

theorem explode_returns:
  assumes "sep \<noteq> []"
  shows "\<exists>ps. explode sep value trm = Some ps"
  unfolding explode_def by (rule explode_loop_returns [OF assms])

theorem explode_returns_witness: "\<exists>ps. explode '', '' ''a, b'' True = Some ps"
  by (rule explode_returns) simp

text \<open>C25: with a replacement as long as the needle, \<open>str_replace\<close> returns the text in which the
  occurrences of the needle, found from the left and not overlapping, are replaced.\<close>

theorem str_replace_same_length:
  assumes "length repl = length needle" "needle \<noteq> []"
  shows "str_replace s needle repl = Some (Inr (replace_ref needle repl s))"
  using str_replace_loop_correct [OF assms, of 0 s "[]"] by (simp add: str_replace_def)

theorem str_replace_same_length_witness:
  "str_replace ''a-b-c'' ''-'' ''_'' = Some (Inr (replace_ref ''-'' ''_'' ''a-b-c''))"
  by (rule str_replace_same_length) simp_all

text \<open>C26: the loop of \<open>str_replace\<close> ends when the replacement is not empty. The call then returns a text, or \<open>substr\<close> throws, which
  happens only with a replacement that is longer than the needle.\<close>

theorem str_replace_returns:
  assumes "repl \<noteq> []"
  shows "\<exists>r. str_replace s needle repl = Some r \<and>
    (case r of Inr t \<Rightarrow> True | Inl f \<Rightarrow> f = Out_of_range ''substr'' \<and> length needle < length repl)"
  unfolding str_replace_def by (rule str_replace_loop_ends [OF assms]) simp

theorem str_replace_returns_witness: "\<exists>t. str_replace ''abcab'' ''ab'' ''x'' = Some (Inr t)"
proof -
  obtain r where r: "str_replace ''abcab'' ''ab'' ''x'' = Some r"
    "case r of Inr t \<Rightarrow> True | Inl f \<Rightarrow> f = Out_of_range ''substr'' \<and> length ''ab'' < length ''x''"
    using str_replace_returns [of "''x''" "''abcab''" "''ab''"] by blast
  then show ?thesis by (cases r) simp_all
qed

text \<open>C27: with an empty replacement \<open>str_replace\<close> never returns on a text that has the needle, because the
  position moves on by the length of the replacement.\<close>

theorem str_replace_empty_diverges:
  assumes "str_find needle s 0 = Some p"
  shows "str_replace s needle [] = None"
  using str_replace_loop_diverges [of s needle "[]" 0 "[]" _ p] assms
  by (cases "str_replace s needle []") (simp_all add: str_replace_def)

theorem str_replace_empty_diverges_witness: "str_replace ''a-b'' ''-'' [] = None"
  by (rule str_replace_empty_diverges [of _ _ 1]) code_simp

text \<open>C28: a positive decimal number followed by one of the units k, m, g and t, in either case, is read as the number times the first,
  second, third or fourth power of 1024, in 64 bits; \<open>ok\<close> is cleared only when the product wraps to 0.\<close>

theorem parse_size_decimal:
  assumes "0 < n" "n < 2 ^ 64" "(tolower u, e) \<in> {(CHR ''k'', 1), (CHR ''m'', 2), (CHR ''g'', 3), (CHR ''t'', 4)}"
  shows "parse_size (dec_string n @ [u]) = (of_nat (n * 1024 ^ e), n * 1024 ^ e mod 2 ^ 64 \<noteq> 0)"
proof -
  have n0: "dec_string n \<noteq> ''0''" "dec_string n \<noteq> []"
    using dec_string_hd [OF assms(1)] dec_digit_class(4) by (metis list.inject, force)
  have mul: "size_mul (tolower u) = of_nat (1024 ^ e)"
    using assms(3) by (auto simp: size_mul_def push_bit_eq_mult)
  have z: "(of_nat k :: u64) = 0 \<longleftrightarrow> k mod 2 ^ 64 = 0" for k
    using word_of_nat_eq_0_iff [of k, where 'a = 64] by (simp add: mod_eq_0_iff_dvd)
  have "tolower u = CHR ''k'' \<or> tolower u = CHR ''m'' \<or> tolower u = CHR ''g'' \<or> tolower u = CHR ''t''"
    using assms(3) by auto
  then have "parse_size (dec_string n @ [u]) = (of_nat n * size_mul (tolower u), of_nat n * size_mul (tolower u) \<noteq> 0)"
    unfolding parse_size_def Let_def by (simp add: stoull_full_dec_string [OF assms(1,2)] n0)
  then show ?thesis unfolding mul of_nat_mult [symmetric] z .
qed

theorem parse_size_decimal_witness: "parse_size (dec_string 12 @ ''G'') = (12884901888, True)"
proof -
  have "tolower CHR ''G'' = CHR ''g''" by code_simp
  then show ?thesis using parse_size_decimal [of 12 "CHR ''G''" 3] by simp
qed

text \<open>C29: \<open>is_zero\<close> tells whether all bytes of a buffer are zero.\<close>

theorem is_zero_correct: "is_zero buf = list_all (\<lambda>b. b = 0) buf"
  by (simp add: is_zero_def is_zero_loop_correct list_all_iff)

end
