(* ===== verification/Writeback.thy ===== *)
theory Writeback
  imports Memory Object_Id "HOL-Library.Monad_Syntax"
begin

text \<open>
  The write-back cache of the client (\<open>writeback_cache_t\<close> in \<open>src/src/client/cluster_client_impl.h\<close> and
  \<open>src/src/client/cluster_client_wb.cpp\<close>): buffers of writes and deletes that are not yet stable on the
  OSDs, kept by inode and offset, split and merged by new writes, flushed to the OSDs and read back.

  \<open>dirty_buffers\<close> is the list of the entries of the map in the order of its keys; an iterator is an index
  of the list and the end of the map its length. Offsets and lengths are numbers (the end of a request is
  below \<open>2 ^ 64\<close>), the counter \<open>writeback_bytes\<close> wraps at 64 bits. The map \<open>refcnts\<close> holds the live reference
  counters by their address. \<open>None\<close> is a failed \<open>assert\<close>, or the use of a counter that has been freed. The
  requests the cache hands to the client are returned as values, and their completion is the operation
  \<open>flush_done\<close>.
\<close>

unbundle bit_operations_syntax

section \<open>State\<close>

datatype cache_state = CACHE_DIRTY | CACHE_WRITTEN | CACHE_FLUSHING | CACHE_REPEATING

type_synonym wb_key = "u64 \<times> nat"

record cluster_buffer =
  cb_buf :: "ptr option"
  cb_len :: nat
  cb_state :: cache_state
  cb_flush_id :: u64
  cb_refcnt :: ptr

type_synonym dirty_map = "(wb_key \<times> cluster_buffer) list"
type_synonym refcounts = "ptr \<Rightarrow> nat option"

record writeback_cache =
  writeback_bytes :: u64
  writeback_queue_size :: int
  writebacks_active :: int
  last_flush_id :: u64
  dirty_buffers :: dirty_map
  writeback_queue :: "wb_key list"
  flushed_buffers :: "(u64 \<times> ptr) list"
  refcnts :: refcounts

datatype cluster_opcode = OSD_OP_READ | OSD_OP_WRITE | OSD_OP_DELETE | OSD_OP_READ_BITMAP | OSD_OP_READ_CHAIN_BITMAP | OSD_OP_OTHER

record cluster_op =
  op_opcode :: cluster_opcode
  op_inode :: u64
  op_offset :: nat
  op_len :: nat
  op_iov :: "(ptr \<times> nat) list"

text \<open>A request made by \<open>flush_buffers\<close>.\<close>

record flush_op = cluster_op +
  fo_flush_id :: u64
  fo_writeback :: bool

abbreviation buf_inode :: "wb_key \<times> cluster_buffer \<Rightarrow> u64" where "buf_inode e \<equiv> fst (fst e)"
abbreviation buf_start :: "wb_key \<times> cluster_buffer \<Rightarrow> nat" where "buf_start e \<equiv> snd (fst e)"
abbreviation buf_stop :: "wb_key \<times> cluster_buffer \<Rightarrow> nat" where "buf_stop e \<equiv> snd (fst e) + cb_len (snd e)"

definition key_lt :: "wb_key \<Rightarrow> wb_key \<Rightarrow> bool" where
  "key_lt a b \<longleftrightarrow> fst a < fst b \<or> fst a = fst b \<and> snd a < snd b"

section \<open>The ordered map\<close>

definition lower_bound :: "wb_key \<Rightarrow> dirty_map \<Rightarrow> nat" where
  "lower_bound k d = length (takeWhile (\<lambda>e. key_lt (fst e) k) d)"

text \<open>\<open>emplace\<close> leaves an existing entry as it is.\<close>

definition emplace :: "wb_key \<Rightarrow> cluster_buffer \<Rightarrow> dirty_map \<Rightarrow> dirty_map \<times> nat" where
  "emplace k v d =
     (let i = lower_bound k d in
      if i < length d \<and> fst (d ! i) = k then (d, i) else (take i d @ (k, v) # drop i d, i))"

definition erase_at :: "nat \<Rightarrow> dirty_map \<Rightarrow> dirty_map" where
  "erase_at i d = take i d @ drop (i + 1) d"

definition upd_buf :: "nat \<Rightarrow> (cluster_buffer \<Rightarrow> cluster_buffer) \<Rightarrow> dirty_map \<Rightarrow> dirty_map" where
  "upd_buf i f d = d[i := (fst (d ! i), f (snd (d ! i)))]"

section \<open>Reference counts\<close>

definition unref :: "ptr \<Rightarrow> refcounts \<Rightarrow> refcounts option" where
  "unref p rc = map_option (\<lambda>n. rc(p := if n = 1 then None else Some (n - 1))) (rc p)"

definition add_ref :: "ptr \<Rightarrow> refcounts \<Rightarrow> refcounts option" where
  "add_ref p rc = map_option (\<lambda>n. rc(p := Some (n + 1))) (rc p)"

definition unref_buf :: "cluster_buffer \<Rightarrow> refcounts \<Rightarrow> refcounts option" where
  "unref_buf b rc = (case cb_buf b of None \<Rightarrow> Some rc | Some _ \<Rightarrow> unref (cb_refcnt b) rc)"

definition ref_buf :: "cluster_buffer \<Rightarrow> refcounts \<Rightarrow> refcounts option" where
  "ref_buf b rc = (case cb_buf b of None \<Rightarrow> Some rc | Some _ \<Rightarrow> add_ref (cb_refcnt b) rc)"

text \<open>The destructor.\<close>

fun unref_all :: "dirty_map \<Rightarrow> refcounts \<Rightarrow> refcounts option" where
  "unref_all [] rc = Some rc"
| "unref_all (e # d) rc = Option.bind (unref_buf (snd e) rc) (unref_all d)"

definition destroy_cache :: "writeback_cache \<Rightarrow> writeback_cache option" where
  "destroy_cache c = map_option (\<lambda>rc. c\<lparr>dirty_buffers := [], refcnts := rc\<rparr>) (unref_all (dirty_buffers c) (refcnts c))"

section \<open>Searching\<close>

definition has_inode :: "dirty_map \<Rightarrow> u64 \<Rightarrow> bool" where
  "has_inode d ino = (let i = lower_bound (ino, 0) d in i < length d \<and> buf_inode (d ! i) = ino)"

primrec find_dirty_back :: "dirty_map \<Rightarrow> u64 \<Rightarrow> nat \<Rightarrow> nat \<Rightarrow> nat" where
  "find_dirty_back d ino off 0 = 0"
| "find_dirty_back d ino off (Suc i) =
     (if buf_inode (d ! i) \<noteq> ino \<or> buf_stop (d ! i) \<le> off then Suc i else find_dirty_back d ino off i)"

definition find_dirty :: "dirty_map \<Rightarrow> u64 \<Rightarrow> nat \<Rightarrow> nat" where
  "find_dirty d ino off =
     (let i = find_dirty_back d ino off (lower_bound (ino, off) d)
      in if i < length d \<and> buf_inode (d ! i) = ino then i else length d)"

definition is_left_merged :: "dirty_map \<Rightarrow> nat \<Rightarrow> bool" where
  "is_left_merged d i \<longleftrightarrow> i \<noteq> 0 \<and>
     (let p = d ! (i - 1); e = d ! i in
      buf_inode p = buf_inode e \<and> (cb_buf (snd p) \<noteq> None) = (cb_buf (snd e) \<noteq> None) \<and>
      buf_stop p = buf_start e \<and> cb_state (snd p) = CACHE_DIRTY)"

definition is_right_merged :: "dirty_map \<Rightarrow> nat \<Rightarrow> bool" where
  "is_right_merged d i \<longleftrightarrow> i + 1 < length d \<and>
     (let n = d ! (i + 1); e = d ! i in
      buf_inode n = buf_inode e \<and> (cb_buf (snd n) \<noteq> None) = (cb_buf (snd e) \<noteq> None) \<and>
      buf_start n = buf_stop e \<and> cb_state (snd n) = CACHE_DIRTY)"

section \<open>Writing\<close>

text \<open>The entry that stands for the part of \<open>e\<close> from \<open>new_end\<close> on.\<close>

definition tail_buf :: "nat \<Rightarrow> wb_key \<times> cluster_buffer \<Rightarrow> cluster_buffer" where
  "tail_buf new_end e =
     (snd e)\<lparr>cb_buf := map_option (\<lambda>b. b + new_end - buf_start e) (cb_buf (snd e)), cb_len := buf_stop e - new_end\<rparr>"

definition sub_bytes :: "cluster_buffer \<Rightarrow> nat \<Rightarrow> writeback_cache \<Rightarrow> writeback_cache" where
  "sub_bytes b n c =
     (if cb_state b = CACHE_DIRTY \<and> cb_buf b \<noteq> None then c\<lparr>writeback_bytes := writeback_bytes c - of_nat n\<rparr> else c)"

definition add_queue_size :: "cluster_buffer \<Rightarrow> int \<Rightarrow> writeback_cache \<Rightarrow> writeback_cache" where
  "add_queue_size b n c =
     (if cb_state b = CACHE_DIRTY then c\<lparr>writeback_queue_size := writeback_queue_size c + n\<rparr> else c)"

text \<open>The four ways an existing buffer overlaps the new range.\<close>

definition split_middle :: "u64 \<Rightarrow> nat \<Rightarrow> nat \<Rightarrow> nat \<Rightarrow> writeback_cache \<Rightarrow> writeback_cache option" where
  "split_middle ino off len i c =
     (let e = dirty_buffers c ! i; b = snd e;
          d = upd_buf i (\<lambda>b. b\<lparr>cb_len := off - buf_start e\<rparr>) (dirty_buffers c);
          d = fst (emplace (ino, off + len) (tail_buf (off + len) e) d)
      in do {
        rc \<leftarrow> ref_buf b (refcnts c);
        Some (add_queue_size b 1 (sub_bytes b len (c\<lparr>dirty_buffers := d, refcnts := rc\<rparr>)))
      })"

definition leave_begin :: "nat \<Rightarrow> nat \<Rightarrow> writeback_cache \<Rightarrow> writeback_cache" where
  "leave_begin off i c =
     (let d = dirty_buffers c; e = d ! i; b = snd e
      in (add_queue_size b (if is_right_merged d i then 1 else 0) (sub_bytes b (buf_stop e - off) c))
           \<lparr>dirty_buffers := upd_buf i (\<lambda>b. b\<lparr>cb_len := off - buf_start e\<rparr>) d\<rparr>)"

definition leave_end :: "u64 \<Rightarrow> nat \<Rightarrow> nat \<Rightarrow> writeback_cache \<Rightarrow> writeback_cache" where
  "leave_end ino new_end i c =
     (let d = dirty_buffers c; e = d ! i; b = snd e
      in (add_queue_size b (if is_left_merged d i then 1 else 0) (sub_bytes b (new_end - buf_start e) c))
           \<lparr>dirty_buffers := filter (\<lambda>x. fst x \<noteq> fst e) (fst (emplace (ino, new_end) (tail_buf new_end e) d))\<rparr>)"

definition remove_whole :: "nat \<Rightarrow> writeback_cache \<Rightarrow> writeback_cache option" where
  "remove_whole i c =
     (let d = dirty_buffers c; b = snd (d ! i); lm = is_left_merged d i; rm = is_right_merged d i in
      if cb_state b = CACHE_DIRTY \<and> \<not> lm \<and> \<not> rm \<and> \<not> writeback_queue_size c > 0 then None
      else do {
        rc \<leftarrow> unref_buf b (refcnts c);
        Some ((add_queue_size b (if \<not> lm \<and> \<not> rm then -1 else if lm \<and> rm then 1 else 0) (sub_bytes b (cb_len b) c))
          \<lparr>dirty_buffers := erase_at i d, refcnts := rc\<rparr>)
      })"

lemma leave_begin_length: "length (dirty_buffers (leave_begin off i c)) = length (dirty_buffers c)"
  by (simp add: leave_begin_def Let_def upd_buf_def)

lemma remove_whole_length:
  assumes "remove_whole i c = Some c'" "i < length (dirty_buffers c)"
  shows "length (dirty_buffers c') < length (dirty_buffers c)"
  using assms by (auto simp: remove_whole_def Let_def erase_at_def split: if_splits Option.bind_splits)

function copy_write_loop :: "u64 \<Rightarrow> nat \<Rightarrow> nat \<Rightarrow> nat \<Rightarrow> writeback_cache \<Rightarrow> writeback_cache option" where
  "copy_write_loop ino off len i c =
     (let d = dirty_buffers c; e = d ! i in
      if \<not> (i < length d \<and> buf_inode e = ino \<and> buf_start e < off + len) then Some c
      else if \<not> buf_stop e > off then None
      else if buf_start e < off
      then if buf_stop e > off + len then split_middle ino off len i c
           else copy_write_loop ino off len (i + 1) (leave_begin off i c)
      else if buf_stop e > off + len then Some (leave_end ino (off + len) i c)
      else (case remove_whole i c of None \<Rightarrow> None | Some c' \<Rightarrow> copy_write_loop ino off len i c'))"
  by pat_completeness auto
termination
  by (relation "measure (\<lambda>(ino, off, len, i, c). length (dirty_buffers c) - i)")
    (auto simp: leave_begin_length dest: remove_whole_length)

declare copy_write_loop.simps [simp del]

text \<open>The entry of the new buffer and the counters of write-back requests; \<open>mem\<close> is the address of the
  allocation, the counter followed by the data.\<close>

definition insert_write :: "cluster_op \<Rightarrow> cache_state \<Rightarrow> u64 \<Rightarrow> ptr \<Rightarrow> writeback_cache \<Rightarrow> writeback_cache option" where
  "insert_write op state fid mem c =
     (let is_del = op_opcode op = OSD_OP_DELETE;
          (d, i) = emplace (op_inode op, op_offset op)
             \<lparr>cb_buf = if is_del then None else Some (mem + 8), cb_len = op_len op, cb_state = state, cb_flush_id = fid,
              cb_refcnt = if is_del then 0 else mem\<rparr> (dirty_buffers c);
          c = c\<lparr>dirty_buffers := d, refcnts := if is_del then refcnts c else (refcnts c)(mem := Some 1)\<rparr>
      in if state = CACHE_DIRTY
         then
           let c = c\<lparr>writeback_bytes := writeback_bytes c + of_nat (if is_del then 0 else op_len op)\<rparr>;
               lm = is_left_merged d i; rm = is_right_merged d i
           in if \<not> lm \<and> \<not> rm
              then Some (c\<lparr>writeback_queue_size := writeback_queue_size c + 1,
                           writeback_queue := writeback_queue c @ [(op_inode op, op_offset op)]\<rparr>)
              else if lm \<and> rm
              then if writeback_queue_size c > 0 then Some (c\<lparr>writeback_queue_size := writeback_queue_size c - 1\<rparr>) else None
              else Some c
         else Some c)"

definition copy_iov_in :: "(ptr \<times> nat) list \<Rightarrow> ptr \<Rightarrow> memory \<Rightarrow> memory" where
  "copy_iov_in iov buf m = snd (fold (\<lambda>(base, len) (pos, m). (pos + len, memcpy (buf + pos) base len m)) iov (0, m))"

definition copy_write ::
  "cluster_op \<Rightarrow> cache_state \<Rightarrow> u64 \<Rightarrow> ptr \<Rightarrow> writeback_cache \<times> memory \<Rightarrow> (writeback_cache \<times> memory) option"
where
  "copy_write op state fid mem = (\<lambda>(c, m).
     if op_len op = 0 then Some (c, m)
     else do {
       c \<leftarrow> copy_write_loop (op_inode op) (op_offset op) (op_len op)
              (find_dirty (dirty_buffers c) (op_inode op) (op_offset op)) c;
       c \<leftarrow> insert_write op state fid mem c;
       Some (c, if op_opcode op = OSD_OP_DELETE then m else copy_iov_in (op_iov op) (mem + 8) m)
     })"

section \<open>Flushing\<close>

text \<open>The entries from index \<open>from\<close> up to \<open>to\<close> are sent as one request.\<close>

definition mark_repeating :: "u64 \<Rightarrow> cluster_buffer \<Rightarrow> cluster_buffer" where
  "mark_repeating fid b = b\<lparr>cb_state := CACHE_REPEATING, cb_flush_id := fid\<rparr>"

definition flush_one :: "u64 \<Rightarrow> nat \<Rightarrow> writeback_cache \<Rightarrow> writeback_cache option" where
  "flush_one fid i c =
     (let b = snd (dirty_buffers c ! i) in do {
       rc \<leftarrow> ref_buf b (refcnts c);
       Some (c\<lparr>dirty_buffers := upd_buf i (mark_repeating fid) (dirty_buffers c), refcnts := rc,
               flushed_buffers := flushed_buffers c @ (if cb_buf b \<noteq> None then [(fid, cb_refcnt b)] else [])\<rparr>)
     })"

primrec flush_range :: "u64 \<Rightarrow> nat list \<Rightarrow> writeback_cache \<Rightarrow> writeback_cache option" where
  "flush_range fid [] c = Some c"
| "flush_range fid (i # is) c = Option.bind (flush_one fid i c) (flush_range fid is)"

definition make_flush_op :: "dirty_map \<Rightarrow> nat \<Rightarrow> nat \<Rightarrow> u64 \<Rightarrow> flush_op" where
  "make_flush_op d from to fid =
     (let e = d ! from; p = d ! (to - 1) in
      \<lparr>op_opcode = if cb_buf (snd e) \<noteq> None then OSD_OP_WRITE else OSD_OP_DELETE,
       op_inode = buf_inode e, op_offset = buf_start e, op_len = buf_stop p - buf_start e,
       op_iov = concat (map (\<lambda>i. case cb_buf (snd (d ! i)) of None \<Rightarrow> [] | Some b \<Rightarrow> [(b, cb_len (snd (d ! i)))]) [from..<to]),
       fo_flush_id = fid, fo_writeback = cb_state (snd e) = CACHE_DIRTY\<rparr>)"

definition flush_buffers :: "nat \<Rightarrow> nat \<Rightarrow> writeback_cache \<Rightarrow> (writeback_cache \<times> flush_op) option" where
  "flush_buffers from to c =
     (let d = dirty_buffers c; fid = last_flush_id c + 1; op = make_flush_op d from to fid;
          calc_len = sum_list (map (\<lambda>i. cb_len (snd (d ! i))) [from..<to]) mod 2 ^ 32
      in do {
        c \<leftarrow> flush_range fid [from..<to] (c\<lparr>last_flush_id := fid\<rparr>);
        if calc_len = op_len op then Some (c\<lparr>writebacks_active := writebacks_active c + 1\<rparr>, op) else None
      })"

lemma flush_range_length: "flush_range fid is c = Some c' \<Longrightarrow> length (dirty_buffers c') = length (dirty_buffers c)"
  by (induction "is" arbitrary: c) (auto simp: flush_one_def upd_buf_def Let_def split: Option.bind_splits)

lemma flush_buffers_length: "flush_buffers from to c = Some (c', op) \<Longrightarrow> length (dirty_buffers c') = length (dirty_buffers c)"
  by (auto simp: flush_buffers_def Let_def dest: flush_range_length split: Option.bind_splits if_splits)

function delete_flush_loop :: "u64 \<Rightarrow> nat \<Rightarrow> u64 \<Rightarrow> nat \<Rightarrow> dirty_map \<Rightarrow> refcounts \<Rightarrow> (dirty_map \<times> refcounts) option" where
  "delete_flush_loop ino stop fid i d rc =
     (let e = d ! i; b = snd e in
      if \<not> (i < length d \<and> buf_inode e = ino \<and> buf_start e < stop) then Some (d, rc)
      else if cb_flush_id b = fid \<and> cb_state b = CACHE_REPEATING
      then (case unref_buf b rc of None \<Rightarrow> None | Some rc' \<Rightarrow> delete_flush_loop ino stop fid i (erase_at i d) rc')
      else delete_flush_loop ino stop fid (i + 1) d rc)"
  by pat_completeness auto
termination
  by (relation "measure (\<lambda>(ino, stop, fid, i, d, rc). length d - i)") (auto simp: erase_at_def)

declare delete_flush_loop.simps [simp del]

definition delete_flush :: "u64 \<Rightarrow> nat \<Rightarrow> nat \<Rightarrow> u64 \<Rightarrow> writeback_cache \<Rightarrow> writeback_cache option" where
  "delete_flush ino off len fid c =
     map_option (\<lambda>(d, rc). c\<lparr>dirty_buffers := d, refcnts := rc\<rparr>)
       (delete_flush_loop ino (off + len) fid (find_dirty (dirty_buffers c) ino off) (dirty_buffers c) (refcnts c))"

function mark_written_loop :: "u64 \<Rightarrow> nat \<Rightarrow> u64 \<Rightarrow> nat \<Rightarrow> dirty_map \<Rightarrow> dirty_map" where
  "mark_written_loop ino stop fid i d =
     (let e = d ! i; b = snd e in
      if \<not> (i < length d \<and> buf_inode e = ino \<and> buf_start e < stop) then d
      else mark_written_loop ino stop fid (i + 1)
             (if cb_flush_id b = fid \<and> cb_state b = CACHE_REPEATING
              then upd_buf i (\<lambda>b. b\<lparr>cb_flush_id := 0, cb_state := CACHE_WRITTEN\<rparr>) d else d))"
  by pat_completeness auto
termination
  by (relation "measure (\<lambda>(ino, stop, fid, i, d). length d - i)") (auto simp: upd_buf_def)

declare mark_written_loop.simps [simp del]

definition mark_flush_written :: "u64 \<Rightarrow> nat \<Rightarrow> nat \<Rightarrow> u64 \<Rightarrow> writeback_cache \<Rightarrow> writeback_cache" where
  "mark_flush_written ino off len fid c =
     c\<lparr>dirty_buffers := mark_written_loop ino (off + len) fid (find_dirty (dirty_buffers c) ino off) (dirty_buffers c)\<rparr>"

primrec unref_list :: "ptr list \<Rightarrow> refcounts \<Rightarrow> refcounts option" where
  "unref_list [] rc = Some rc"
| "unref_list (p # ps) rc = Option.bind (unref p rc) (unref_list ps)"

text \<open>The callback of a flush; \<open>committed\<close> is the flag \<open>OP_IMMEDIATE_COMMIT\<close>.\<close>

definition flush_done :: "flush_op \<Rightarrow> int \<Rightarrow> bool \<Rightarrow> writeback_cache \<Rightarrow> writeback_cache option" where
  "flush_done op retval committed c =
     (if retval \<noteq> int (op_len op) then None
      else do {
        rc \<leftarrow> unref_list (map snd (filter (\<lambda>f. fst f = fo_flush_id op) (flushed_buffers c))) (refcnts c);
        let c = c\<lparr>refcnts := rc, flushed_buffers := filter (\<lambda>f. fst f \<noteq> fo_flush_id op) (flushed_buffers c)\<rparr>;
        c \<leftarrow> (if committed then delete_flush (op_inode op) (op_offset op) (op_len op) (fo_flush_id op) c
              else Some (mark_flush_written (op_inode op) (op_offset op) (op_len op) (fo_flush_id op) c));
        Some (c\<lparr>writebacks_active := writebacks_active c - 1\<rparr>)
      })"

text \<open>The loop of \<open>repeat_ops_for\<close>; \<open>affects\<close> are the tests \<open>affects_osd\<close> and \<open>affects_pg\<close> of the client
  for an inode, an offset and a length.\<close>

function repeat_loop ::
  "(u64 \<Rightarrow> nat \<Rightarrow> nat \<Rightarrow> bool) \<Rightarrow> nat \<Rightarrow> nat \<Rightarrow> nat \<Rightarrow> writeback_cache \<times> flush_op list \<Rightarrow> (writeback_cache \<times> flush_op list) option"
where
  "repeat_loop affects wr fl la s =
     (case s of (c, ops) \<Rightarrow>
        let d = dirty_buffers c; at_end = (wr \<ge> length d); e = d ! wr;
            flush_this = (\<not> at_end \<and> cb_state (snd e) \<noteq> CACHE_REPEATING \<and> cb_state (snd e) \<noteq> CACHE_DIRTY \<and>
              affects (buf_inode e) (buf_start e) (cb_len (snd e)));
            do_flush = (fl \<noteq> wr \<and> (at_end \<or> \<not> flush_this \<or> buf_inode e \<noteq> buf_inode (d ! fl) \<or> buf_start e \<noteq> buf_stop (d ! la)))
        in case (if do_flush then map_option (\<lambda>(c, op). (c, ops @ [op])) (flush_buffers fl wr c) else Some (c, ops)) of
             None \<Rightarrow> None
           | Some (c', ops') \<Rightarrow>
               if at_end then Some (c', ops')
               else repeat_loop affects (wr + 1) (if \<not> flush_this then wr + 1 else if do_flush then wr else fl) wr (c', ops'))"
  by pat_completeness auto
termination
  by (relation "measure (\<lambda>(affects, wr, fl, la, s). length (dirty_buffers (fst s)) - wr)") (auto dest: flush_buffers_length split: if_splits)

declare repeat_loop.simps [simp del]

definition repeat_ops_for ::
  "(u64 \<Rightarrow> nat \<Rightarrow> nat \<Rightarrow> osd_num \<Rightarrow> bool) \<Rightarrow> (u64 \<Rightarrow> nat \<Rightarrow> nat \<Rightarrow> u32 \<Rightarrow> u32 \<Rightarrow> bool) \<Rightarrow> osd_num \<Rightarrow> u32 \<Rightarrow> u32 \<Rightarrow>
    writeback_cache \<Rightarrow> (writeback_cache \<times> flush_op list) option"
where
  "repeat_ops_for affects_osd affects_pg peer_osd pool pgn c =
     (if dirty_buffers c = [] then Some (c, [])
      else repeat_loop
        (\<lambda>ino off len. (peer_osd \<noteq> 0 \<longrightarrow> affects_osd ino off len peer_osd) \<and>
           (pool \<noteq> 0 \<and> pgn \<noteq> 0 \<longrightarrow> affects_pg ino off len pool pgn))
        0 0 0 (c, []))"

text \<open>The run of adjacent dirty buffers of the same kind around an entry.\<close>

definition same_run :: "u64 \<Rightarrow> bool \<Rightarrow> wb_key \<times> cluster_buffer \<Rightarrow> bool" where
  "same_run ino is_del e \<longleftrightarrow> cb_state (snd e) = CACHE_DIRTY \<and> (cb_buf (snd e) = None) = is_del \<and> buf_inode e = ino"

primrec run_from :: "dirty_map \<Rightarrow> u64 \<Rightarrow> bool \<Rightarrow> nat \<Rightarrow> nat \<Rightarrow> nat" where
  "run_from d ino is_del 0 off = 0"
| "run_from d ino is_del (Suc i) off =
     (if \<not> same_run ino is_del (d ! i) \<or> buf_stop (d ! i) \<noteq> off then Suc i
      else run_from d ino is_del i (buf_start (d ! i)))"

function run_to :: "dirty_map \<Rightarrow> u64 \<Rightarrow> bool \<Rightarrow> nat \<Rightarrow> nat \<Rightarrow> nat \<times> nat" where
  "run_to d ino is_del i off =
     (if i < length d \<and> same_run ino is_del (d ! i) \<and> buf_start (d ! i) = off
      then run_to d ino is_del (i + 1) (buf_stop (d ! i)) else (i, off))"
  by pat_completeness auto
termination
  by (relation "measure (\<lambda>(d, ino, is_del, i, off). length d - i)") auto

declare run_to.simps [simp del]

definition start_one :: "wb_key \<Rightarrow> writeback_cache \<Rightarrow> (writeback_cache \<times> flush_op list) option" where
  "start_one req c =
     (let d = dirty_buffers c; i = find_dirty d (fst req) (snd req) in
      if \<not> (i < length d \<and> buf_inode (d ! i) = fst req \<and> cb_state (snd (d ! i)) = CACHE_DIRTY) then Some (c, [])
      else
        let is_del = (cb_buf (snd (d ! i)) = None);
            from = run_from d (fst req) is_del i (buf_start (d ! i));
            (to, off) = run_to d (fst req) is_del (i + 1) (buf_stop (d ! i))
        in if \<not> writeback_queue_size c > 0 then None
           else
             let c = c\<lparr>writeback_queue_size := writeback_queue_size c - 1,
                       writeback_bytes := writeback_bytes c - of_nat (off - buf_start (d ! from))\<rparr>
             in if writeback_queue_size c > 0 \<or> writeback_bytes c = 0
                then map_option (\<lambda>(c, op). (c, [op])) (flush_buffers from to c) else None)"

text \<open>The loop over the queue; the result has the unused rest of the queue.\<close>

fun start_loop ::
  "int \<Rightarrow> int \<Rightarrow> wb_key list \<Rightarrow> writeback_cache \<times> flush_op list \<Rightarrow> (wb_key list \<times> writeback_cache \<times> flush_op list) option"
where
  "start_loop cnt started [] s = Some ([], s)"
| "start_loop cnt started (req # q) (c, ops) =
     (if cnt \<noteq> 0 \<and> \<not> started < cnt then Some (req # q, c, ops)
      else
        (case start_one req c of
           None \<Rightarrow> None
         | Some (c', new) \<Rightarrow> start_loop cnt (started + int (length new)) q (c', ops @ new)))"

definition start_writebacks :: "int \<Rightarrow> writeback_cache \<Rightarrow> (writeback_cache \<times> flush_op list) option" where
  "start_writebacks cnt c =
     (if writeback_queue c = [] then Some (c, [])
      else map_option (\<lambda>(rest, c, ops). (c\<lparr>writeback_queue := rest @ writeback_queue c\<rparr>, ops))
             (start_loop cnt 0 (writeback_queue c) (c\<lparr>writeback_queue := []\<rparr>, [])))"

section \<open>Reading\<close>

fun skip_iov :: "(ptr \<times> nat) list \<Rightarrow> nat \<Rightarrow> nat \<Rightarrow> (ptr \<times> nat) list \<times> nat" where
  "skip_iov [] cur off = ([], cur)"
| "skip_iov ((base, l) # iov) cur off = (if cur + l \<le> off then skip_iov iov (cur + l) off else ((base, l) # iov, cur))"

definition mem_zero :: "ptr \<Rightarrow> nat \<Rightarrow> memory \<Rightarrow> memory" where
  "mem_zero p n m = (\<lambda>a. if p \<le> a \<and> a < p + n then 0 else m a)"

fun copy_iov_out :: "(ptr \<times> nat) list \<Rightarrow> nat \<Rightarrow> nat \<Rightarrow> ptr option \<Rightarrow> nat \<Rightarrow> memory \<Rightarrow> memory" where
  "copy_iov_out [] cur off buf len m = m"
| "copy_iov_out ((base, l) # iov) cur off buf len m =
     (if cur < off + len
      then
        let start = (if cur < off then off else cur);
            stop = (if cur + l > off + len then off + len else cur + l);
            dst = base + start - cur
        in copy_iov_out iov (cur + l) off buf len
             (case buf of
                None \<Rightarrow> mem_zero dst (stop - start) m
              | Some b \<Rightarrow> memcpy dst (b + (if cur \<le> off then 0 else cur - off)) (stop - start) m)
      else m)"

function set_bits :: "nat \<Rightarrow> nat \<Rightarrow> u8 list \<Rightarrow> u8 list" where
  "set_bits bt end_bit bmp =
     (if bt < end_bit
      then if bt mod 8 = 0 \<and> bt + 8 \<le> end_bit then set_bits (bt + 8) end_bit (bmp[bt div 8 := 0xFF])
           else set_bits (bt + 1) end_bit (bmp[bt div 8 := bmp ! (bt div 8) OR push_bit (bt mod 8) 1])
      else bmp)"
  by pat_completeness auto
termination
  by (relation "measure (\<lambda>(bt, end_bit, bmp). end_bit - bt)") auto

declare set_bits.simps [simp del]

text \<open>The bitmap of the request is passed along with the memory.\<close>

definition copy_to_op :: "cluster_op \<Rightarrow> nat \<Rightarrow> ptr option \<Rightarrow> nat \<Rightarrow> nat \<Rightarrow> u8 list \<times> memory \<Rightarrow> u8 list \<times> memory" where
  "copy_to_op op off buf len g = (\<lambda>(bmp, m).
     (if buf = None then bmp else set_bits ((off - op_offset op) div g) ((off - op_offset op + len) div g) bmp,
      if op_opcode op = OSD_OP_READ
      then let (iov, cur) = skip_iov (op_iov op) (op_offset op) off in copy_iov_out iov cur off buf len m
      else m))"

text \<open>The loop over the granules of one buffer. The result is the position, the start of the last run, its
  flag, whether something was copied, the bitmap and the memory.\<close>

type_synonym read_state = "nat \<times> nat \<times> bool \<times> bool \<times> u8 list \<times> memory"

function read_loop :: "cluster_op \<Rightarrow> wb_key \<times> cluster_buffer \<Rightarrow> nat \<Rightarrow> nat \<Rightarrow> read_state \<Rightarrow> read_state" where
  "read_loop op e g stop s =
     (case s of (cur, prev, skip_prev, copied, bmp, m) \<Rightarrow>
        if cur < stop \<and> g > 0
        then
          let loc = (cur - op_offset op) div g; skp = bit (bmp ! (loc div 8)) (loc mod 8) in
          if skip_prev \<noteq> skp
          then if cur > prev \<and> \<not> skp
               then
                 let (bmp, m) = copy_to_op op prev (map_option (\<lambda>b. b + prev - buf_start e) (cb_buf (snd e))) (cur - prev) g (bmp, m)
                 in read_loop op e g stop (cur + g, cur, skp, True, bmp, m)
               else read_loop op e g stop (cur + g, cur, skp, copied, bmp, m)
          else read_loop op e g stop (cur + g, prev, skip_prev, copied, bmp, m)
        else s)"
  by pat_completeness auto
termination
  by (relation "measure (\<lambda>(op, e, g, stop, s). stop - fst s)") auto

declare read_loop.simps [simp del]

definition read_one ::
  "cluster_op \<Rightarrow> nat \<Rightarrow> wb_key \<times> cluster_buffer \<Rightarrow> bool \<times> u8 list \<times> memory \<Rightarrow> (bool \<times> u8 list \<times> memory) option"
where
  "read_one op g e = (\<lambda>(copied, bmp, m).
     let start = max (buf_start e) (op_offset op); stop = min (buf_stop e) (op_offset op + op_len op);
         (cur, prev, skip_prev, copied, bmp, m) = read_loop op e g stop (start, start, True, copied, bmp, m)
     in if \<not> cur > prev then None
        else if \<not> skip_prev
        then
          let (bmp, m) = copy_to_op op prev (map_option (\<lambda>b. b + prev - buf_start e) (cb_buf (snd e))) (cur - prev) g (bmp, m)
          in Some (True, bmp, m)
        else Some (copied, bmp, m))"

function read_buffers ::
  "cluster_op \<Rightarrow> nat \<Rightarrow> dirty_map \<Rightarrow> nat \<Rightarrow> bool \<times> u8 list \<times> memory \<Rightarrow> (bool \<times> u8 list \<times> memory) option"
where
  "read_buffers op g d i s =
     (if i < length d \<and> buf_inode (d ! i) = op_inode op \<and> buf_start (d ! i) < op_offset op + op_len op
      then (case read_one op g (d ! i) s of None \<Rightarrow> None | Some s' \<Rightarrow> read_buffers op g d (i + 1) s')
      else Some s)"
  by pat_completeness auto
termination
  by (relation "measure (\<lambda>(op, g, d, i, s). length d - i)") auto

declare read_buffers.simps [simp del]

text \<open>The field \<open>op_inode\<close> of the request stands for \<open>cur_inode\<close> here.\<close>

definition read_from_cache ::
  "cluster_op \<Rightarrow> nat \<Rightarrow> writeback_cache \<Rightarrow> u8 list \<times> memory \<Rightarrow> (bool \<times> u8 list \<times> memory) option"
where
  "read_from_cache op g c = (\<lambda>(bmp, m).
     if dirty_buffers c \<noteq> [] \<and> op_opcode op \<in> {OSD_OP_READ, OSD_OP_READ_BITMAP, OSD_OP_READ_CHAIN_BITMAP}
     then read_buffers op g (dirty_buffers c) (find_dirty (dirty_buffers c) (op_inode op) (op_offset op)) (False, bmp, m)
     else Some (False, bmp, m))"

section \<open>Synchronisation\<close>

definition set_state :: "cache_state \<Rightarrow> cache_state \<Rightarrow> writeback_cache \<Rightarrow> writeback_cache" where
  "set_state from to c =
     c\<lparr>dirty_buffers := map (\<lambda>(k, b). (k, if cb_state b = from then b\<lparr>cb_state := to\<rparr> else b)) (dirty_buffers c)\<rparr>"

definition fsync_start :: "writeback_cache \<Rightarrow> writeback_cache" where
  "fsync_start c = set_state CACHE_WRITTEN CACHE_FLUSHING c"

definition fsync_error :: "writeback_cache \<Rightarrow> writeback_cache" where
  "fsync_error c = set_state CACHE_FLUSHING CACHE_WRITTEN c"

fun fsync_ok_loop :: "dirty_map \<Rightarrow> refcounts \<Rightarrow> (dirty_map \<times> refcounts) option" where
  "fsync_ok_loop [] rc = Some ([], rc)"
| "fsync_ok_loop (e # d) rc =
     (if cb_state (snd e) = CACHE_FLUSHING then Option.bind (unref_buf (snd e) rc) (fsync_ok_loop d)
      else map_option (\<lambda>(d, rc). (e # d, rc)) (fsync_ok_loop d rc))"

definition fsync_ok :: "writeback_cache \<Rightarrow> writeback_cache option" where
  "fsync_ok c =
     map_option (\<lambda>(d, rc). c\<lparr>dirty_buffers := d, refcnts := rc\<rparr>) (fsync_ok_loop (dirty_buffers c) (refcnts c))"

end
