(* ===== verification/Writeback_Props.thy ===== *)
theory Writeback_Props
  imports Writeback "HOL-Library.Multiset"
begin

text \<open>
  Correctness of writing into the write-back cache: which byte of which buffer stands for a byte of an image, and how a
  write changes that.
\<close>

section \<open>Well-formed caches and what they hold\<close>

definition before :: "wb_key \<times> cluster_buffer \<Rightarrow> wb_key \<times> cluster_buffer \<Rightarrow> bool" where
  "before a b \<longleftrightarrow> buf_inode a < buf_inode b \<or> buf_inode a = buf_inode b \<and> buf_stop a \<le> buf_start b"

definition wb_wf :: "dirty_map \<Rightarrow> bool" where
  "wb_wf d \<longleftrightarrow> sorted_wrt before d \<and> (\<forall>e \<in> set d. 0 < cb_len (snd e))"

definition covers_byte :: "u64 \<Rightarrow> nat \<Rightarrow> wb_key \<times> cluster_buffer \<Rightarrow> bool" where
  "covers_byte ino p e \<longleftrightarrow> buf_inode e = ino \<and> buf_start e \<le> p \<and> p < buf_stop e"

text \<open>The address of a byte (none in a deleted range), and the state, flush and reference count of its buffer.\<close>

definition byte_of :: "nat \<Rightarrow> wb_key \<times> cluster_buffer \<Rightarrow> ptr option \<times> cache_state \<times> u64 \<times> ptr" where
  "byte_of p e = (map_option (\<lambda>b. b + (p - buf_start e)) (cb_buf (snd e)), cb_state (snd e), cb_flush_id (snd e), cb_refcnt (snd e))"

definition wb_at :: "dirty_map \<Rightarrow> u64 \<Rightarrow> nat \<Rightarrow> (ptr option \<times> cache_state \<times> u64 \<times> ptr) option" where
  "wb_at d ino p = map_option (byte_of p) (List.find (covers_byte ino p) d)"

lemma wb_at_simps [simp]:
  "wb_at [] ino p = None"
  "wb_at (e # d) ino p = (if covers_byte ino p e then Some (byte_of p e) else wb_at d ino p)"
  by (simp_all add: wb_at_def)

lemma wb_at_append: "wb_at (a @ b) ino p = (case wb_at a ino p of None \<Rightarrow> wb_at b ino p | Some x \<Rightarrow> Some x)"
  by (induction a) simp_all

lemma wb_at_None: "(\<And>e. e \<in> set d \<Longrightarrow> \<not> covers_byte ino p e) \<Longrightarrow> wb_at d ino p = None"
  by (induction d) simp_all

lemma before_trans: "before a b \<Longrightarrow> before b c \<Longrightarrow> 0 < cb_len (snd b) \<Longrightarrow> before a c"
  by (auto simp: before_def)

lemma before_key_lt: "before a b \<Longrightarrow> 0 < cb_len (snd a) \<Longrightarrow> key_lt (fst a) (fst b)"
  by (auto simp: before_def key_lt_def)

lemma key_lt_trans: "key_lt a b \<Longrightarrow> key_lt b c \<Longrightarrow> key_lt a c"
  by (auto simp: key_lt_def)

lemma wb_wf_append:
  "wb_wf (a @ b) \<longleftrightarrow> wb_wf a \<and> wb_wf b \<and> (\<forall>x \<in> set a. \<forall>y \<in> set b. before x y)"
  by (auto simp: wb_wf_def sorted_wrt_append)

lemma wb_wf_Cons: "wb_wf (e # d) \<longleftrightarrow> 0 < cb_len (snd e) \<and> wb_wf d \<and> (\<forall>y \<in> set d. before e y)"
  by (auto simp: wb_wf_def)

lemma wb_wf_Nil [simp]: "wb_wf []"
  by (simp add: wb_wf_def)

section \<open>The ordered map\<close>

lemma takeWhile_split:
  assumes "\<And>x. x \<in> set a \<Longrightarrow> P x" "b = [] \<or> \<not> P (hd b)"
  shows "takeWhile P (a @ b) = a"
  using assms by (cases b) (auto simp: takeWhile_append)

lemma emplace_split:
  assumes "\<And>x. x \<in> set a \<Longrightarrow> key_lt (fst x) k" "\<And>y. y \<in> set b \<Longrightarrow> key_lt k (fst y)"
  shows "emplace k v (a @ b) = (a @ (k, v) # b, length a)"
proof -
  have n: "\<not> key_lt (fst y) k \<and> fst y \<noteq> k" if "y \<in> set b" for y
    using assms(2) [OF that] by (auto simp: key_lt_def)
  have "b = [] \<or> \<not> key_lt (fst (hd b)) k" using n [of "hd b"] by (cases b) simp_all
  then have l: "lower_bound k (a @ b) = length a"
    unfolding lower_bound_def using assms(1) by (subst takeWhile_split) auto
  have "\<not> (length a < length (a @ b) \<and> fst ((a @ b) ! length a) = k)"
    using n by (cases b) (auto simp: nth_append)
  then show ?thesis unfolding emplace_def Let_def l by auto
qed

text \<open>Where \<open>find_dirty\<close> stops: no buffer before reaches the offset, all buffers after it that belong to the inode do.\<close>

definition found :: "dirty_map \<Rightarrow> u64 \<Rightarrow> nat \<Rightarrow> nat \<Rightarrow> bool" where
  "found d ino off i \<longleftrightarrow> i \<le> length d \<and> (\<forall>e \<in> set (take i d). buf_inode e = ino \<longrightarrow> buf_stop e \<le> off) \<and>
     (\<forall>e \<in> set (drop i d). ino \<le> buf_inode e \<and> (buf_inode e = ino \<longrightarrow> off < buf_stop e))"

lemma lower_bound_found:
  assumes "wb_wf d"
  shows "lower_bound (ino, off) d \<le> length d"
    "\<And>e. e \<in> set (take (lower_bound (ino, off) d) d) \<Longrightarrow> key_lt (fst e) (ino, off)"
    "\<And>e. e \<in> set (drop (lower_bound (ino, off) d) d) \<Longrightarrow> ino \<le> buf_inode e \<and> (buf_inode e = ino \<longrightarrow> off < buf_stop e)"
proof -
  let ?P = "\<lambda>e. key_lt (fst e) (ino, off)"
  show "lower_bound (ino, off) d \<le> length d" by (simp add: lower_bound_def length_takeWhile_le)
  show "?P e" if "e \<in> set (take (lower_bound (ino, off) d) d)" for e
    using that set_takeWhileD [of e ?P d] by (simp add: lower_bound_def takeWhile_eq_take [symmetric])
  fix e assume "e \<in> set (drop (lower_bound (ino, off) d) d)"
  then have e: "e \<in> set (dropWhile ?P d)" by (simp add: lower_bound_def dropWhile_eq_drop)
  then obtain h r where hr: "dropWhile ?P d = h # r" by (cases "dropWhile ?P d") auto
  have h: "\<not> ?P h" using hd_dropWhile [of ?P d] hr by simp
  have "wb_wf (takeWhile ?P d @ dropWhile ?P d)" using assms by simp
  then have "wb_wf (h # r)" unfolding wb_wf_append hr by blast
  then have "0 < cb_len (snd h)" "e = h \<or> before h e" "0 < cb_len (snd e)"
    using e hr by (auto simp: wb_wf_Cons wb_wf_def)
  then show "ino \<le> buf_inode e \<and> (buf_inode e = ino \<longrightarrow> off < buf_stop e)"
    using h by (auto simp: key_lt_def before_def)
qed

lemma found_back:
  assumes "wb_wf d" "j \<le> length d" "\<And>e. e \<in> set (take j d) \<Longrightarrow> key_lt (fst e) (ino, off)"
    and "\<And>e. e \<in> set (drop j d) \<Longrightarrow> ino \<le> buf_inode e \<and> (buf_inode e = ino \<longrightarrow> off < buf_stop e)"
  shows "found d ino off (find_dirty_back d ino off j)"
  using assms(2-4)
proof (induction j)
  case 0
  then show ?case by (simp add: found_def)
next
  case (Suc j)
  let ?e = "d ! j"
  have t: "take (Suc j) d = take j d @ [?e]" using Suc.prems(1) by (simp add: take_Suc_conv_app_nth)
  have dr: "drop j d = ?e # drop (Suc j) d" using Suc.prems(1) by (simp add: Cons_nth_drop_Suc)
  show ?case
  proof (cases "buf_inode ?e \<noteq> ino \<or> buf_stop ?e \<le> off")
    case True
    have k: "key_lt (fst ?e) (ino, off)" using Suc.prems(2) t by simp
    have "wb_wf (take j d @ ?e # drop (Suc j) d)" using assms(1) dr by (metis append_take_drop_id)
    then have b: "before x ?e" if "x \<in> set (take j d)" for x
      using that by (simp add: wb_wf_append)
    have "buf_inode x = ino \<longrightarrow> buf_stop x \<le> off" if "x \<in> set (take (Suc j) d)" for x
      using that b [of x] k True unfolding t by (auto simp: before_def key_lt_def)
    then show ?thesis using True Suc.prems by (simp add: found_def)
  next
    case False
    have "found d ino off (find_dirty_back d ino off j)"
      by (rule Suc.IH) (use Suc.prems t dr False in auto)
    then show ?thesis using False by simp
  qed
qed

lemma found_end:
  assumes "wb_wf d" "found d ino off i" "\<not> (i < length d \<and> buf_inode (d ! i) = ino)"
  shows "found d ino off (length d)"
proof -
  have "buf_inode e \<noteq> ino" if e: "e \<in> set (drop i d)" for e
  proof -
    have "i < length d" using e by (cases "i < length d") auto
    then have dr: "drop i d = d ! i # drop (Suc i) d" by (simp add: Cons_nth_drop_Suc)
    have "wb_wf (drop i d)" using assms(1) wb_wf_append [of "take i d" "drop i d"] by simp
    then have "e = d ! i \<or> before (d ! i) e" using e dr by (auto simp: wb_wf_Cons)
    moreover have "ino < buf_inode (d ! i)"
      using assms(2,3) \<open>i < length d\<close> dr by (auto simp: found_def order.strict_iff_order)
    ultimately show ?thesis by (auto simp: before_def)
  qed
  then have "buf_inode e = ino \<longrightarrow> buf_stop e \<le> off" if "e \<in> set d" for e
    using that assms(2) unfolding found_def by (metis Un_iff append_take_drop_id set_append)
  then show ?thesis by (simp add: found_def)
qed

lemma find_dirty_found:
  assumes "wb_wf d"
  shows "found d ino off (find_dirty d ino off)"
  unfolding find_dirty_def Let_def
  using found_back [OF assms lower_bound_found [OF assms, where ino = ino and off = off]] found_end [OF assms]
  by (auto split: if_splits)

section \<open>Cutting a range out of the cache\<close>

definition cut_range :: "u64 \<Rightarrow> nat \<Rightarrow> nat \<Rightarrow> wb_key \<times> cluster_buffer \<Rightarrow> dirty_map" where
  "cut_range ino off len e =
     (if buf_inode e = ino \<and> buf_start e < off + len \<and> off < buf_stop e
      then (if buf_start e < off then [(fst e, (snd e)\<lparr>cb_len := off - buf_start e\<rparr>)] else []) @
           (if off + len < buf_stop e then [((ino, off + len), tail_buf (off + len) e)] else [])
      else [e])"

lemma cut_at:
  "wb_at (cut_range ino off len e) i p = (if i = ino \<and> off \<le> p \<and> p < off + len then None else wb_at [e] i p)"
proof (cases "buf_inode e = ino \<and> buf_start e < off + len \<and> off < buf_stop e")
  case True
  then show ?thesis
    by (cases "cb_buf (snd e)") (auto simp: cut_range_def covers_byte_def byte_of_def tail_buf_def)
next
  case False
  then show ?thesis unfolding cut_range_def if_not_P [OF False] by (auto simp: covers_byte_def)
qed

lemma concat_cut_at:
  "wb_at (concat (map (cut_range ino off len) d)) i p = (if i = ino \<and> off \<le> p \<and> p < off + len then None else wb_at d i p)"
proof (induction d)
  case (Cons e d)
  then show ?case
    by (cases "i = ino \<and> off \<le> p \<and> p < off + len") (auto simp: wb_at_append cut_at split: option.splits)
qed simp

lemma cut_parts:
  assumes "x \<in> set (cut_range ino off len e)" "0 < cb_len (snd e)" "0 < len"
  shows "0 < cb_len (snd x)" "buf_inode x = buf_inode e" "buf_start e \<le> buf_start x" "buf_stop x \<le> buf_stop e"
    "buf_inode e = ino \<Longrightarrow> buf_stop x \<le> off \<or> off + len \<le> buf_start x"
  using assms by (auto simp: cut_range_def tail_buf_def split: if_splits)

lemma cut_wf: "0 < cb_len (snd e) \<Longrightarrow> 0 < len \<Longrightarrow> wb_wf (cut_range ino off len e)"
  by (auto simp: cut_range_def wb_wf_def before_def tail_buf_def)

lemma before_cut:
  "before a b \<Longrightarrow> buf_inode x = buf_inode a \<Longrightarrow> buf_stop x \<le> buf_stop a \<Longrightarrow> buf_inode y = buf_inode b \<Longrightarrow>
    buf_start b \<le> buf_start y \<Longrightarrow> before x y"
  by (auto simp: before_def)

lemma concat_cut_wf:
  assumes "wb_wf d" "0 < len"
  shows "wb_wf (concat (map (cut_range ino off len) d))"
  using assms(1)
proof (induction d)
  case (Cons e d)
  then have e: "0 < cb_len (snd e)" "wb_wf d" "\<And>y. y \<in> set d \<Longrightarrow> before e y \<and> 0 < cb_len (snd y)"
    by (auto simp: wb_wf_Cons wb_wf_def)
  have "before x y" if "x \<in> set (cut_range ino off len e)" "z \<in> set d" "y \<in> set (cut_range ino off len z)" for x y z
    using before_cut [of e z x y] e(3) [OF that(2)] cut_parts(2,4) [OF that(1) e(1) assms(2)]
      cut_parts(2,3) [OF that(3) _ assms(2)] by simp
  then show ?case
    using Cons.IH [OF e(2)] cut_wf [OF e(1) assms(2)] by (auto simp: wb_wf_append)
qed simp

lemma concat_cut_apart:
  assumes "wb_wf d" "0 < len" "x \<in> set (concat (map (cut_range ino off len) d))" "buf_inode x = ino"
  shows "buf_stop x \<le> off \<or> off + len \<le> buf_start x"
proof -
  obtain e where e: "e \<in> set d" "x \<in> set (cut_range ino off len e)" using assms(3) by auto
  have l: "0 < cb_len (snd e)" using assms(1) e(1) by (simp add: wb_wf_def)
  show ?thesis using cut_parts(5) [OF e(2) l assms(2)] cut_parts(2) [OF e(2) l assms(2)] assms(4) by simp
qed

lemma cut_id: "\<not> (buf_inode e = ino \<and> buf_start e < off + len \<and> off < buf_stop e) \<Longrightarrow> cut_range ino off len e = [e]"
  unfolding cut_range_def by (rule if_not_P)

lemma concat_cut_id:
  "(\<And>e. e \<in> set d \<Longrightarrow> \<not> (buf_inode e = ino \<and> buf_start e < off + len \<and> off < buf_stop e)) \<Longrightarrow>
    concat (map (cut_range ino off len) d) = d"
  by (induction d) (simp_all add: cut_id)

lemma shrink_wf:
  assumes "wb_wf (a @ e # b)" "buf_start e < off" "off < buf_stop e"
  shows "wb_wf (a @ (fst e, (snd e)\<lparr>cb_len := off - buf_start e\<rparr>) # b)"
  using assms by (fastforce simp: wb_wf_append wb_wf_Cons before_def)

lemma wb_wf_keys:
  assumes "wb_wf (a @ e # b)"
  shows "\<And>x. x \<in> set a \<Longrightarrow> key_lt (fst x) (fst e)" "\<And>y. y \<in> set b \<Longrightarrow> key_lt (fst e) (fst y)"
proof -
  show "key_lt (fst x) (fst e)" if "x \<in> set a" for x
    by (rule before_key_lt) (use that assms in \<open>auto simp: wb_wf_def sorted_wrt_append\<close>)
  show "key_lt (fst e) (fst y)" if "y \<in> set b" for y
    by (rule before_key_lt) (use that assms in \<open>auto simp: wb_wf_def sorted_wrt_append\<close>)
qed

text \<open>A new entry behind the start of \<open>e\<close> and inside it comes next in the map.\<close>

lemma emplace_after:
  assumes "wb_wf (a @ e # b)" "buf_start e < p" "p < buf_stop e" "fst e' = fst e"
  shows "emplace (buf_inode e, p) v (a @ e' # b) = (a @ e' # ((buf_inode e, p), v) # b, length a + 1)"
proof -
  have k: "key_lt (fst e) (buf_inode e, p)" using assms(2) by (simp add: key_lt_def)
  have "key_lt (fst x) (buf_inode e, p)" if "x \<in> set (a @ [e'])" for x
    using that k assms(4) wb_wf_keys(1) [OF assms(1), of x] by (auto intro: key_lt_trans)
  moreover have "key_lt (buf_inode e, p) (fst y)" if "y \<in> set b" for y
    using that assms(1,3) by (auto simp: wb_wf_append wb_wf_Cons before_def key_lt_def)
  ultimately show ?thesis using emplace_split [of "a @ [e']" "(buf_inode e, p)" b v] by simp
qed

lemma split_middle_list:
  assumes "split_middle ino off len (length a) c = Some c'" "dirty_buffers c = a @ e # b" "wb_wf (a @ e # b)"
    and "buf_inode e = ino" "buf_start e < off" "off + len < buf_stop e"
  shows "dirty_buffers c' = a @ cut_range ino off len e @ b"
proof -
  have u: "upd_buf (length a) f (a @ e # b) = a @ (fst e, f (snd e)) # b" for f by (simp add: upd_buf_def)
  have "dirty_buffers c' = fst (emplace (ino, off + len) (tail_buf (off + len) e)
      (a @ (fst e, (snd e)\<lparr>cb_len := off - buf_start e\<rparr>) # b))"
    using assms(1) unfolding split_middle_def assms(2) u Let_def
    by (auto simp: add_queue_size_def sub_bytes_def split: Option.bind_splits)
  then show ?thesis
    using emplace_after [OF assms(3), of "off + len" "(fst e, (snd e)\<lparr>cb_len := off - buf_start e\<rparr>)" "tail_buf (off + len) e"]
      assms(4-6) by (simp add: cut_range_def)
qed

lemma leave_begin_list:
  assumes "dirty_buffers c = a @ e # b"
  shows "dirty_buffers (leave_begin off (length a) c) = a @ (fst e, (snd e)\<lparr>cb_len := off - buf_start e\<rparr>) # b"
  using assms by (simp add: leave_begin_def Let_def upd_buf_def)

lemma leave_end_list:
  assumes "dirty_buffers c = a @ e # b" "wb_wf (a @ e # b)" "buf_inode e = ino" "off \<le> buf_start e"
    and "buf_start e < off + len" "off + len < buf_stop e"
  shows "dirty_buffers (leave_end ino (off + len) (length a) c) = a @ cut_range ino off len e @ b"
proof -
  have irr: "\<not> key_lt k k" for k by (simp add: key_lt_def)
  have "fst x \<noteq> fst e" if "x \<in> set a \<or> x \<in> set b" for x
    using wb_wf_keys [OF assms(2), of x] that irr [of "fst e"] by metis
  then have "filter (\<lambda>x. fst x \<noteq> fst e) a = a" "filter (\<lambda>x. fst x \<noteq> fst e) b = b"
    by (simp_all add: filter_id_conv)
  moreover have "fst e \<noteq> (ino, off + len)" using assms(5) by auto
  ultimately show ?thesis
    using emplace_after [OF assms(2), of "off + len" e "tail_buf (off + len) e"] assms
    by (simp add: leave_end_def Let_def cut_range_def)
qed

lemma remove_whole_list:
  assumes "remove_whole (length a) c = Some c'" "dirty_buffers c = a @ e # b"
  shows "dirty_buffers c' = a @ b"
  using assms by (auto simp: remove_whole_def Let_def erase_at_def split: if_splits Option.bind_splits)

text \<open>What a round of the loop does with the entry \<open>e\<close> it looks at.\<close>

lemma copy_write_loop_cases [consumes 3, case_names stop middle head rest whole]:
  assumes "copy_write_loop ino off len i c = Some c'" "dirty_buffers c ! i = e" "i < length (dirty_buffers c)"
  obtains (stop) "\<not> (buf_inode e = ino \<and> buf_start e < off + len)" "c' = c"
    | (middle) "buf_inode e = ino" "buf_start e < off" "off + len < buf_stop e" "split_middle ino off len i c = Some c'"
    | (head) "buf_inode e = ino" "buf_start e < off + len" "off < buf_stop e" "buf_start e < off" "\<not> off + len < buf_stop e"
        "copy_write_loop ino off len (i + 1) (leave_begin off i c) = Some c'"
    | (rest) "buf_inode e = ino" "buf_start e < off + len" "off \<le> buf_start e" "off + len < buf_stop e"
        "c' = leave_end ino (off + len) i c"
    | (whole) c1 where "buf_inode e = ino" "buf_start e < off + len" "off < buf_stop e" "off \<le> buf_start e" "\<not> off + len < buf_stop e"
        "remove_whole i c = Some c1" "copy_write_loop ino off len i c1 = Some c'"
  using assms(1) [unfolded copy_write_loop.simps [of ino off len i c] Let_def assms(2)] assms(3)
  by (auto split: if_splits option.splits)

lemma copy_write_loop_cut:
  assumes "copy_write_loop ino off len i c = Some c'" "i \<le> length (dirty_buffers c)" "wb_wf (dirty_buffers c)"
    and "\<And>e. e \<in> set (drop i (dirty_buffers c)) \<Longrightarrow> ino \<le> buf_inode e"
  shows "dirty_buffers c' = take i (dirty_buffers c) @ concat (map (cut_range ino off len) (drop i (dirty_buffers c)))"
  using assms
proof (induction ino off len i c arbitrary: c' rule: copy_write_loop.induct)
  case (1 ino off len i c)
  define a where "a = take i (dirty_buffers c)"
  show ?case
  proof (cases "drop i (dirty_buffers c)")
    case Nil
    then show ?thesis using 1(3) by (subst (asm) copy_write_loop.simps) (auto simp: Let_def split: if_splits)
  next
    case (Cons e b)
    have d: "dirty_buffers c = a @ e # b" by (metis Cons a_def append_take_drop_id)
    have i: "i = length a" "i < length (dirty_buffers c)"
      using 1(4) Cons by (simp add: a_def, cases "i < length (dirty_buffers c)") auto
    have e: "dirty_buffers c ! i = e" using d i(1) by simp
    have wf: "wb_wf (a @ e # b)" using 1(5) d by simp
    have later: "cut_range ino off len y = [y]" if "y \<in> set b" "ino < buf_inode e \<or> off + len \<le> buf_stop e" for y
      using that wf 1(6) [of e] Cons by (intro cut_id) (auto simp: wb_wf_append wb_wf_Cons before_def)
    show ?thesis
      using 1(3) e i(2)
    proof (cases rule: copy_write_loop_cases)
      case stop
      have "ino < buf_inode e \<or> off + len \<le> buf_stop e"
        using stop(1) 1(6) [of e] Cons by auto
      then have "concat (map (cut_range ino off len) b) = b" using later by (induction b) auto
      moreover have "cut_range ino off len e = [e]" by (rule cut_id) (use stop(1) in blast)
      ultimately show ?thesis using stop(2) i(1) by (simp add: d)
    next
      case middle
      then have "concat (map (cut_range ino off len) b) = b" using later by (induction b) auto
      then show ?thesis
        using split_middle_list [OF middle(4) [unfolded i(1)] d wf middle(1-3)] i(1) by (simp add: d)
    next
      case head
      let ?e = "(fst e, (snd e)\<lparr>cb_len := off - buf_start e\<rparr>)"
      have d': "dirty_buffers (leave_begin off i c) = a @ ?e # b" using leave_begin_list [OF d] i(1) by simp
      have "dirty_buffers c' = take (i + 1) (a @ ?e # b) @ concat (map (cut_range ino off len) (drop (i + 1) (a @ ?e # b)))"
        using 1(1) [OF refl refl, of c', unfolded e d'] head i 1(6) [unfolded Cons] shrink_wf [OF wf head(4,3)] by simp
      moreover have "cut_range ino off len e = [?e]" using head by (simp add: cut_range_def)
      ultimately show ?thesis using i(1) by (simp add: d)
    next
      case rest
      then have "concat (map (cut_range ino off len) b) = b" using later by (induction b) auto
      then show ?thesis
        using leave_end_list [OF d wf rest(1,3,2,4)] rest(5) i(1) by (simp add: d)
    next
      case (whole c1)
      have d': "dirty_buffers c1 = a @ b" using remove_whole_list [of a c c1 e b] whole(6) i(1) d by simp
      have "wb_wf (a @ b)" using wf by (auto simp: wb_wf_append wb_wf_Cons)
      then have "dirty_buffers c' = take i (a @ b) @ concat (map (cut_range ino off len) (drop i (a @ b)))"
        using 1(2) [OF refl refl, of c1 c', unfolded e d'] whole i 1(6) [unfolded Cons] by simp
      moreover have "cut_range ino off len e = []" using whole by (simp add: cut_range_def)
      ultimately show ?thesis using i(1) by (simp add: d)
    qed
  qed
qed

section \<open>A write\<close>

lemma emplace_gap:
  assumes "wb_wf d" "\<And>x. x \<in> set d \<Longrightarrow> buf_inode x = ino \<Longrightarrow> buf_stop x \<le> off \<or> off + cb_len v \<le> buf_start x" "0 < cb_len v"
  obtains a b where "d = a @ b" "fst (emplace (ino, off) v d) = a @ ((ino, off), v) # b"
    "\<And>x. x \<in> set a \<Longrightarrow> before x ((ino, off), v)" "\<And>y. y \<in> set b \<Longrightarrow> before ((ino, off), v) y"
proof -
  let ?j = "lower_bound (ino, off) d"
  note L = lower_bound_found [OF assms(1), where ino = ino and off = off]
  have a: "before x ((ino, off), v)" if "x \<in> set (take ?j d)" for x
    using L(2) [OF that] assms(2) [OF in_set_takeD [OF that]] assms(3) by (auto simp: before_def key_lt_def)
  have b: "before ((ino, off), v) y" if "y \<in> set (drop ?j d)" for y
  proof (cases "buf_inode y = ino")
    case True
    then show ?thesis using L(3) [OF that] assms(2) [OF in_set_dropD [OF that]] by (auto simp: before_def)
  next
    case False
    have "ino < buf_inode y" by (rule le_neq_trans) (use L(3) [OF that] False in auto)
    then show ?thesis by (simp add: before_def)
  qed
  have "fst (emplace (ino, off) v (take ?j d @ drop ?j d)) = take ?j d @ ((ino, off), v) # drop ?j d"
    using L(2) before_key_lt [OF b] assms(3) by (subst emplace_split) simp_all
  then have e: "fst (emplace (ino, off) v d) = take ?j d @ ((ino, off), v) # drop ?j d" by simp
  show ?thesis by (rule that [OF _ e a b]) simp
qed

definition new_buf :: "cluster_op \<Rightarrow> cache_state \<Rightarrow> u64 \<Rightarrow> ptr \<Rightarrow> cluster_buffer" where
  "new_buf op state fid mem =
     \<lparr>cb_buf = if op_opcode op = OSD_OP_DELETE then None else Some (mem + 8), cb_len = op_len op, cb_state = state,
      cb_flush_id = fid, cb_refcnt = if op_opcode op = OSD_OP_DELETE then 0 else mem\<rparr>"

lemma insert_write_list:
  assumes "insert_write op state fid mem c = Some c'"
  shows "dirty_buffers c' = fst (emplace (op_inode op, op_offset op) (new_buf op state fid mem) (dirty_buffers c))"
proof -
  obtain d i where e: "emplace (op_inode op, op_offset op) (new_buf op state fid mem) (dirty_buffers c) = (d, i)" by fastforce
  show ?thesis
    using assms unfolding insert_write_def Let_def new_buf_def [symmetric] e prod.case fst_conv
    by (simp split: if_splits) auto
qed

text \<open>A write cuts its range out of the cache and puts the new buffer into the gap.\<close>

lemma copy_write_shape:
  assumes wf: "wb_wf (dirty_buffers c)" and w: "copy_write op state fid mem (c, m) = Some (c', m')" and n: "op_len op \<noteq> 0"
  obtains c1 a b where
    "copy_write_loop (op_inode op) (op_offset op) (op_len op) (find_dirty (dirty_buffers c) (op_inode op) (op_offset op)) c = Some c1"
    "insert_write op state fid mem c1 = Some c'"
    "dirty_buffers c1 = concat (map (cut_range (op_inode op) (op_offset op) (op_len op)) (dirty_buffers c))"
    "dirty_buffers c1 = a @ b" "dirty_buffers c' = a @ ((op_inode op, op_offset op), new_buf op state fid mem) # b"
    "\<And>x. x \<in> set a \<Longrightarrow> before x ((op_inode op, op_offset op), new_buf op state fid mem)"
    "\<And>y. y \<in> set b \<Longrightarrow> before ((op_inode op, op_offset op), new_buf op state fid mem) y"
proof -
  note found_it = that
  let ?d = "dirty_buffers c" and ?o = "op_inode op" and ?f = "op_offset op" and ?l = "op_len op"
  let ?i = "find_dirty ?d ?o ?f"
  define v where "v = new_buf op state fid mem"
  have v: "cb_len v = ?l" "0 < cb_len v" using n by (simp_all add: v_def new_buf_def)
  have found: "found ?d ?o ?f ?i" by (rule find_dirty_found [OF wf])
  obtain c1 where c1: "copy_write_loop ?o ?f ?l ?i c = Some c1" "insert_write op state fid mem c1 = Some c'"
    using w n by (auto simp: copy_write_def split: Option.bind_splits)
  have tk: "concat (map (cut_range ?o ?f ?l) (take ?i ?d)) = take ?i ?d"
    using found by (intro concat_cut_id) (auto simp: found_def)
  have "dirty_buffers c1 = take ?i ?d @ concat (map (cut_range ?o ?f ?l) (drop ?i ?d))"
    by (rule copy_write_loop_cut [OF c1(1) _ wf]) (use found in \<open>auto simp: found_def\<close>)
  also have "\<dots> = concat (map (cut_range ?o ?f ?l) (take ?i ?d @ drop ?i ?d))" by (simp only: tk map_append concat_append)
  finally have d1: "dirty_buffers c1 = concat (map (cut_range ?o ?f ?l) ?d)" by simp
  define d where "d = dirty_buffers c1"
  have wfd: "wb_wf d" unfolding d_def d1 by (rule concat_cut_wf) (use wf n in simp_all)
  have gap: "buf_stop x \<le> ?f \<or> ?f + cb_len v \<le> buf_start x" if "x \<in> set d" "buf_inode x = ?o" for x
    using concat_cut_apart [OF wf _ that(1) [unfolded d_def d1] that(2)] n v(1) by simp
  obtain a b where ab: "d = a @ b" "fst (emplace (?o, ?f) v d) = a @ ((?o, ?f), v) # b"
    "\<And>x. x \<in> set a \<Longrightarrow> before x ((?o, ?f), v)" "\<And>y. y \<in> set b \<Longrightarrow> before ((?o, ?f), v) y"
    by (rule emplace_gap [of d ?o ?f v, OF wfd gap v(2)]) (assumption | rule that)+
  have d': "dirty_buffers c' = a @ ((?o, ?f), v) # b"
    using insert_write_list [OF c1(2)] ab(2) by (simp add: d_def v_def)
  show ?thesis by (rule found_it [OF c1 d1 ab(1) [unfolded d_def] d' [unfolded v_def] ab(3,4) [unfolded v_def]])
qed

lemma copy_write_at:
  assumes wf: "wb_wf (dirty_buffers c)" and w: "copy_write op state fid mem (c, m) = Some (c', m')"
  shows "wb_wf (dirty_buffers c') \<and> (\<forall>ino p. wb_at (dirty_buffers c') ino p =
    (if ino = op_inode op \<and> op_offset op \<le> p \<and> p < op_offset op + op_len op
     then Some (if op_opcode op = OSD_OP_DELETE then (None, state, fid, 0)
                else (Some (mem + 8 + (p - op_offset op)), state, fid, mem))
     else wb_at (dirty_buffers c) ino p))"
proof (cases "op_len op = 0")
  case True
  then show ?thesis using assms by (auto simp: copy_write_def)
next
  case False
  let ?d = "dirty_buffers c" and ?o = "op_inode op" and ?f = "op_offset op" and ?l = "op_len op"
  define v where "v = new_buf op state fid mem"
  have v: "cb_len v = ?l" "0 < cb_len v" using False by (simp_all add: v_def new_buf_def)
  obtain c1 :: writeback_cache and a b where d1: "dirty_buffers c1 = concat (map (cut_range ?o ?f ?l) ?d)"
    and ab: "dirty_buffers c1 = a @ b" and d': "dirty_buffers c' = a @ ((?o, ?f), v) # b"
    and bf: "\<And>x. x \<in> set a \<Longrightarrow> before x ((?o, ?f), v)" "\<And>y. y \<in> set b \<Longrightarrow> before ((?o, ?f), v) y"
    by (rule copy_write_shape [OF assms False, folded v_def]) (rule that)
  have wfd: "wb_wf (a @ b)" unfolding ab [symmetric] d1 by (rule concat_cut_wf) (use wf False in simp_all)
  have "wb_wf (dirty_buffers c')"
    using wfd bf v(2) unfolding d' wb_wf_append wb_wf_Cons by simp
  moreover have "wb_at (dirty_buffers c') ino p =
    (if ino = ?o \<and> ?f \<le> p \<and> p < ?f + ?l
     then Some (if op_opcode op = OSD_OP_DELETE then (None, state, fid, 0) else (Some (mem + 8 + (p - ?f)), state, fid, mem))
     else wb_at ?d ino p)" for ino p
  proof (cases "ino = ?o \<and> ?f \<le> p \<and> p < ?f + ?l")
    case True
    have "\<not> covers_byte ino p x" if "x \<in> set a" for x
      using bf(1) [OF that] True by (auto simp: covers_byte_def before_def)
    then have "wb_at a ino p = None" by (rule wb_at_None)
    moreover have "covers_byte ino p ((?o, ?f), v)" using True v(1) by (simp add: covers_byte_def)
    ultimately have "wb_at (dirty_buffers c') ino p = Some (byte_of p ((?o, ?f), v))" by (simp add: d' wb_at_append)
    then show ?thesis using True by (simp add: byte_of_def v_def new_buf_def)
  next
    case out: False
    then have "\<not> covers_byte ino p ((?o, ?f), v)" using v(1) by (auto simp: covers_byte_def)
    then have "wb_at (dirty_buffers c') ino p = wb_at (a @ b) ino p"
      by (simp add: d' wb_at_append split: option.splits)
    also have "\<dots> = wb_at ?d ino p" unfolding ab [symmetric] d1 concat_cut_at by (rule if_not_P [OF out])
    finally show ?thesis by (simp only: if_not_P [OF out])
  qed
  ultimately show ?thesis by blast
qed

text \<open>C5: the write-back cache refines the map from bytes of images to buffered bytes. A write or delete keeps the buffers
  sorted and disjoint; afterwards the bytes of its range are in the new buffer (or deleted), and every other byte is
  what it was before, at the same address, in the same state.\<close>

theorem copy_write_refines:
  assumes wf: "wb_wf (dirty_buffers c)" and w: "copy_write op state fid mem (c, m) = Some (c', m')"
  shows "wb_wf (dirty_buffers c') \<and> (\<forall>ino p. wb_at (dirty_buffers c') ino p =
    (if ino = op_inode op \<and> op_offset op \<le> p \<and> p < op_offset op + op_len op
     then Some (if op_opcode op = OSD_OP_DELETE then (None, state, fid, 0)
                else (Some (mem + 8 + (p - op_offset op)), state, fid, mem))
     else wb_at (dirty_buffers c) ino p))"
  by (rule copy_write_at [OF assms])

definition example_cache :: writeback_cache where
  "example_cache =
     \<lparr>writeback_bytes = 0, writeback_queue_size = 0, writebacks_active = 0, last_flush_id = 0,
      dirty_buffers = [((1, 0), \<lparr>cb_buf = Some 108, cb_len = 8, cb_state = CACHE_WRITTEN, cb_flush_id = 0, cb_refcnt = 100\<rparr>)],
      writeback_queue = [], flushed_buffers = [], refcnts = (\<lambda>p. if p = 100 then Some 1 else None)\<rparr>"

definition example_write :: cluster_op where
  "example_write = \<lparr>op_opcode = OSD_OP_WRITE, op_inode = 1, op_offset = 2, op_len = 4, op_iov = []\<rparr>"

theorem copy_write_refines_witness:
  "\<exists>c' m'. copy_write example_write CACHE_WRITTEN 0 200 (example_cache, \<lambda>_. 0) = Some (c', m') \<and>
    wb_at (dirty_buffers c') 1 3 = Some (Some 209, CACHE_WRITTEN, 0, 200) \<and>
    wb_at (dirty_buffers c') 1 7 = Some (Some 115, CACHE_WRITTEN, 0, 100)"
proof -
  have "copy_write example_write CACHE_WRITTEN 0 200 (example_cache, \<lambda>_. 0) \<noteq> None"
    by (simp add: copy_write_def example_write_def example_cache_def find_dirty_def lower_bound_def key_lt_def copy_write_loop.simps
      split_middle_def ref_buf_def add_ref_def upd_buf_def emplace_def tail_buf_def sub_bytes_def add_queue_size_def
      insert_write_def Let_def split: prod.splits)
  then obtain c' m' where w: "copy_write example_write CACHE_WRITTEN 0 200 (example_cache, \<lambda>_. 0) = Some (c', m')" by auto
  have "wb_wf (dirty_buffers example_cache)" by (simp add: example_cache_def wb_wf_def)
  from copy_write_refines [OF this w] w show ?thesis
    by (simp add: example_write_def example_cache_def covers_byte_def byte_of_def)
qed

end
