(* ===== verification/Writeback_Refs.thy ===== *)
theory Writeback_Refs
  imports Writeback_Props
begin

text \<open>
  The reference counts of the buffers of the write-back cache: they are exact when the counter of an allocation is the
  number of cached buffers and of running flushes that point into it. Every operation of the cache keeps the counts exact,
  the buffers disjoint, and makes no byte one that a running synchronisation will drop. From exact counts a synchronisation
  and the destructor free what they give up, and nothing else.
\<close>

section \<open>Counting references\<close>

definition ref_of :: "cluster_buffer \<Rightarrow> ptr multiset" where
  "ref_of b = (if cb_buf b = None then {#} else {#cb_refcnt b#})"

primrec buf_refs :: "dirty_map \<Rightarrow> ptr multiset" where
  "buf_refs [] = {#}"
| "buf_refs (e # d) = ref_of (snd e) + buf_refs d"

definition held :: "writeback_cache \<Rightarrow> ptr multiset" where
  "held c = buf_refs (dirty_buffers c) + mset (map snd (flushed_buffers c))"

definition counts :: "ptr multiset \<Rightarrow> refcounts" where
  "counts A = (\<lambda>p. if count A p = 0 then None else Some (count A p))"

definition refs_exact :: "writeback_cache \<Rightarrow> bool" where
  "refs_exact c \<longleftrightarrow> refcnts c = counts (held c)"

lemma buf_refs_append [simp]: "buf_refs (a @ b) = buf_refs a + buf_refs b"
  by (induction a) simp_all

lemma unref_counts: "unref p (counts (A + {#p#})) = Some (counts A)"
  by (auto simp: unref_def counts_def fun_eq_iff not_in_iff)

lemma add_ref_counts: "p \<in># A \<Longrightarrow> add_ref p (counts A) = Some (counts (A + {#p#}))"
  by (auto simp: add_ref_def counts_def fun_eq_iff not_in_iff)

lemma unref_buf_counts: "unref_buf b (counts (A + ref_of b)) = Some (counts A)"
  by (cases "cb_buf b") (simp_all add: unref_buf_def ref_of_def unref_counts del: union_mset_add_mset_right add_mset_add_single)

lemma ref_buf_counts: "ref_of b \<subseteq># A \<Longrightarrow> ref_buf b (counts A) = Some (counts (A + ref_of b))"
  by (cases "cb_buf b") (simp_all add: ref_buf_def ref_of_def add_ref_counts del: union_mset_add_mset_right add_mset_add_single)

lemma counts_fresh: "p \<notin># A \<Longrightarrow> (counts A)(p := Some 1) = counts (A + {#p#})"
  by (auto simp: counts_def fun_eq_iff not_in_iff)

lemma counts_None: "counts A p = None \<longleftrightarrow> p \<notin># A"
  by (simp add: counts_def not_in_iff)

section \<open>Removing buffers\<close>

lemma fsync_ok_loop_counts:
  "fsync_ok_loop d (counts (A + buf_refs d)) =
    Some (filter (\<lambda>e. cb_state (snd e) \<noteq> CACHE_FLUSHING) d,
      counts (A + buf_refs (filter (\<lambda>e. cb_state (snd e) \<noteq> CACHE_FLUSHING) d)))"
proof (induction d arbitrary: A)
  case (Cons e d)
  have "unref_buf (snd e) (counts (A + buf_refs (e # d))) = Some (counts (A + buf_refs d))"
    using unref_buf_counts [of "snd e" "A + buf_refs d"] by (simp add: ac_simps)
  then show ?case using Cons.IH [of A] Cons.IH [of "A + ref_of (snd e)"] by (simp add: ac_simps)
qed simp

lemma unref_all_counts: "unref_all d (counts (A + buf_refs d)) = Some (counts A)"
proof (induction d arbitrary: A)
  case (Cons e d)
  have "unref_buf (snd e) (counts (A + buf_refs (e # d))) = Some (counts (A + buf_refs d))"
    using unref_buf_counts [of "snd e" "A + buf_refs d"] by (simp add: ac_simps)
  then show ?case using Cons.IH by simp
qed simp

lemma unref_list_counts: "unref_list ps (counts (A + mset ps)) = Some (counts A)"
proof (induction ps arbitrary: A)
  case (Cons p ps)
  have "unref p (counts (A + mset (p # ps))) = Some (counts (A + mset ps))"
    using unref_counts [of p "A + mset ps"] by (simp add: ac_simps)
  then show ?case using Cons.IH by simp
qed simp

section \<open>Buffers that only change their state\<close>

text \<open>An entry whose range, data and counter stay, and that does not become one of a running synchronisation.\<close>

definition kept :: "wb_key \<times> cluster_buffer \<Rightarrow> wb_key \<times> cluster_buffer \<Rightarrow> bool" where
  "kept e e' \<longleftrightarrow> fst e' = fst e \<and> cb_len (snd e') = cb_len (snd e) \<and> cb_buf (snd e') = cb_buf (snd e) \<and>
     cb_refcnt (snd e') = cb_refcnt (snd e) \<and> (cb_state (snd e') = CACHE_FLUSHING \<longrightarrow> e' = e)"

lemma kept_refl [simp]: "kept e e"
  by (simp add: kept_def)

lemma kept_trans: "kept a b \<Longrightarrow> kept b c \<Longrightarrow> kept a c"
  by (auto simp: kept_def)

lemma kept_all_refl: "list_all2 kept d d"
  by (simp add: list_all2_refl)

lemma kept_all_trans: "list_all2 kept a b \<Longrightarrow> list_all2 kept b c \<Longrightarrow> list_all2 kept a c"
  by (rule list_all2_trans [of kept kept kept]) (auto intro: kept_trans)

lemma kept_upd: "kept (d ! i) (fst (d ! i), f (snd (d ! i))) \<Longrightarrow> list_all2 kept d (upd_buf i f d)"
  by (cases "i < length d") (auto simp: upd_buf_def list_all2_conv_all_nth nth_list_update)

lemma kept_same: "kept e e' \<Longrightarrow> cb_state (snd e') = CACHE_FLUSHING \<Longrightarrow> e' = e"
  by (simp add: kept_def)

lemma kept_fields:
  assumes "kept e e'"
  shows "fst e' = fst e" "cb_len (snd e') = cb_len (snd e)" "ref_of (snd e') = ref_of (snd e)"
  using assms by (simp_all add: kept_def ref_of_def)

lemma kept_refs: "list_all2 kept d d' \<Longrightarrow> buf_refs d' = buf_refs d"
  by (induction rule: list_all2_induct) (simp_all add: kept_fields)

lemma kept_wf: "list_all2 kept d d' \<Longrightarrow> wb_wf d \<Longrightarrow> wb_wf d'"
proof (induction rule: list_all2_induct)
  case (Cons e d e' d')
  have "before e' y'" if m: "y' \<in> set d'" for y'
  proof -
    obtain i where i: "i < length d'" "y' = d' ! i" using m by (auto simp: in_set_conv_nth)
    define y where "y = d ! i"
    have y: "y \<in> set d" and k: "kept y y'"
      using Cons.hyps(2) i by (simp_all add: y_def list_all2_conv_all_nth)
    have "before e y" using Cons.prems y by (simp add: wb_wf_Cons)
    then show ?thesis unfolding before_def kept_fields(1,2) [OF Cons.hyps(1)] kept_fields(1,2) [OF k] .
  qed
  then show ?case using Cons kept_fields(2) [OF Cons.hyps(1)] by (simp add: wb_wf_Cons)
qed simp

text \<open>The bytes a running synchronisation will drop.\<close>

definition flushing_at :: "dirty_map \<Rightarrow> u64 \<Rightarrow> nat \<Rightarrow> ptr option \<times> u64 \<times> ptr \<Rightarrow> bool" where
  "flushing_at d ino p = (\<lambda>(a, f, r). wb_at d ino p = Some (a, CACHE_FLUSHING, f, r))"

lemma kept_at: "list_all2 kept d d' \<Longrightarrow> flushing_at d' ino p x \<Longrightarrow> flushing_at d ino p x"
proof (induction rule: list_all2_induct)
  case (Cons e d e' d')
  have c: "covers_byte ino p e' = covers_byte ino p e" using kept_fields(1,2) [OF Cons.hyps(1)] by (simp add: covers_byte_def)
  show ?case
  proof (cases "covers_byte ino p e")
    case True
    then have "cb_state (snd e') = CACHE_FLUSHING" using Cons.prems c by (simp add: flushing_at_def split_beta byte_of_def)
    then have "e' = e" by (rule kept_same [OF Cons.hyps(1)])
    then show ?thesis using Cons.prems True by (simp add: flushing_at_def split_beta)
  next
    case False
    then show ?thesis using Cons.IH Cons.prems c by (simp add: flushing_at_def split_beta)
  qed
qed (simp add: flushing_at_def split_beta)

section \<open>Operations that a running synchronisation can meet\<close>

definition tame :: "writeback_cache \<Rightarrow> writeback_cache \<Rightarrow> bool" where
  "tame c c' \<longleftrightarrow> (refs_exact c \<and> wb_wf (dirty_buffers c) \<longrightarrow> refs_exact c' \<and> wb_wf (dirty_buffers c') \<and>
     (\<forall>ino p x. flushing_at (dirty_buffers c') ino p x \<longrightarrow> flushing_at (dirty_buffers c) ino p x))"

lemma tameI:
  assumes "refs_exact c \<Longrightarrow> wb_wf (dirty_buffers c) \<Longrightarrow> refs_exact c'"
    "refs_exact c \<Longrightarrow> wb_wf (dirty_buffers c) \<Longrightarrow> wb_wf (dirty_buffers c')"
    "\<And>ino p x. wb_wf (dirty_buffers c) \<Longrightarrow> flushing_at (dirty_buffers c') ino p x \<Longrightarrow> flushing_at (dirty_buffers c) ino p x"
  shows "tame c c'"
  using assms unfolding tame_def by blast

lemma tame_refl [simp]: "tame c c"
  by (simp add: tame_def)

lemma tame_trans: "tame a b \<Longrightarrow> tame b c \<Longrightarrow> tame a c"
  unfolding tame_def by blast

lemma tame_counters:
  "dirty_buffers c' = dirty_buffers c \<Longrightarrow> refcnts c' = refcnts c \<Longrightarrow> flushed_buffers c' = flushed_buffers c \<Longrightarrow> tame c c'"
  by (simp add: tame_def refs_exact_def held_def)

lemma tame_kept:
  assumes "list_all2 kept (dirty_buffers c) (dirty_buffers c')" "refs_exact c \<Longrightarrow> refs_exact c'"
  shows "tame c c'"
  by (rule tameI) (use assms kept_wf kept_at in blast)+

lemma ref_of_held: "i < length (dirty_buffers c) \<Longrightarrow> ref_of (snd (dirty_buffers c ! i)) \<subseteq># held c"
proof -
  assume "i < length (dirty_buffers c)"
  then have "dirty_buffers c = take i (dirty_buffers c) @ dirty_buffers c ! i # drop (Suc i) (dirty_buffers c)"
    by (rule id_take_nth_drop)
  then have "buf_refs (dirty_buffers c) =
      buf_refs (take i (dirty_buffers c)) + (ref_of (snd (dirty_buffers c ! i)) + buf_refs (drop (Suc i) (dirty_buffers c)))"
    by (metis buf_refs_append buf_refs.simps(2))
  then show ?thesis by (simp add: held_def subset_mset.add_increasing2 subset_mset.add_increasing)
qed

lemma flush_one_tame:
  assumes "flush_one fid i c = Some c'" "i < length (dirty_buffers c)"
  shows "tame c c'"
proof (rule tame_kept)
  let ?b = "snd (dirty_buffers c ! i)"
  have k: "list_all2 kept (dirty_buffers c) (upd_buf i (mark_repeating fid) (dirty_buffers c))"
    by (rule kept_upd) (simp add: kept_def mark_repeating_def)
  obtain rc where rc: "ref_buf ?b (refcnts c) = Some rc" and c': "c' = c\<lparr>dirty_buffers := upd_buf i (mark_repeating fid) (dirty_buffers c),
      refcnts := rc, flushed_buffers := flushed_buffers c @ (if cb_buf ?b \<noteq> None then [(fid, cb_refcnt ?b)] else [])\<rparr>"
    using assms(1) by (auto simp: flush_one_def Let_def split: Option.bind_splits)
  show "list_all2 kept (dirty_buffers c) (dirty_buffers c')" using k by (simp add: c')
  assume "refs_exact c"
  then have "rc = counts (held c + ref_of ?b)"
    using rc ref_buf_counts [OF ref_of_held [OF assms(2)]] by (simp add: refs_exact_def)
  then show "refs_exact c'" by (simp add: refs_exact_def held_def c' kept_refs [OF k] ref_of_def)
qed

lemma flush_range_tame:
  "flush_range fid is c = Some c' \<Longrightarrow> (\<And>i. i \<in> set is \<Longrightarrow> i < length (dirty_buffers c)) \<Longrightarrow> tame c c'"
proof (induction "is" arbitrary: c)
  case (Cons i "is")
  then obtain c1 where c1: "flush_one fid i c = Some c1" "flush_range fid is c1 = Some c'" by (auto split: Option.bind_splits)
  have "flush_range fid [i] c = Some c1" using c1(1) by simp
  then have "length (dirty_buffers c1) = length (dirty_buffers c)" by (rule flush_range_length)
  then have "tame c1 c'" using Cons.IH [OF c1(2)] Cons.prems(2) by simp
  moreover have "tame c c1" by (rule flush_one_tame [OF c1(1)]) (simp add: Cons.prems(2))
  ultimately show ?case by (blast intro: tame_trans)
qed simp

lemma flush_buffers_tame:
  assumes "flush_buffers from to c = Some (c', op)" "to \<le> length (dirty_buffers c)"
  shows "tame c c'"
proof -
  let ?c = "c\<lparr>last_flush_id := last_flush_id c + 1\<rparr>"
  obtain c1 where c1: "flush_range (last_flush_id c + 1) [from..<to] ?c = Some c1"
    "c' = c1\<lparr>writebacks_active := writebacks_active c1 + 1\<rparr>"
    using assms(1) by (auto simp: flush_buffers_def Let_def split: Option.bind_splits if_splits)
  have "tame ?c c1" by (rule flush_range_tame [OF c1(1)]) (use assms(2) in auto)
  moreover have "tame c ?c" "tame c1 c'" by (simp_all add: tame_counters c1(2))
  ultimately show ?thesis by (blast intro: tame_trans)
qed

lemma run_to_le: "run_to d ino is_del i off = (to, off') \<Longrightarrow> i \<le> length d \<Longrightarrow> to \<le> length d"
  by (induction d ino is_del i off rule: run_to.induct) (subst (asm) (2) run_to.simps, auto split: if_splits)

lemma start_one_tame:
  assumes "start_one req c = Some (c', ops)"
  shows "tame c c'"
proof -
  let ?d = "dirty_buffers c"
  define i where "i = find_dirty ?d (fst req) (snd req)"
  define fr where "fr = run_from ?d (fst req) (cb_buf (snd (?d ! i)) = None) i (buf_start (?d ! i))"
  obtain to off where r: "run_to ?d (fst req) (cb_buf (snd (?d ! i)) = None) (i + 1) (buf_stop (?d ! i)) = (to, off)" by fastforce
  define c1 where "c1 = c\<lparr>writeback_queue_size := writeback_queue_size c - 1,
    writeback_bytes := writeback_bytes c - of_nat (off - buf_start (?d ! fr))\<rparr>"
  have eq: "start_one req c =
      (if \<not> (i < length ?d \<and> buf_inode (?d ! i) = fst req \<and> cb_state (snd (?d ! i)) = CACHE_DIRTY) then Some (c, [])
       else if \<not> writeback_queue_size c > 0 then None
       else if writeback_queue_size c1 > 0 \<or> writeback_bytes c1 = 0
       then map_option (\<lambda>(c, op). (c, [op])) (flush_buffers fr to c1) else None)"
    unfolding start_one_def Let_def i_def [symmetric] fr_def [symmetric] r prod.case c1_def ..
  consider "c' = c" | op where "i < length ?d" "flush_buffers fr to c1 = Some (c', op)"
    using assms unfolding eq by (auto split: if_splits)
  then show ?thesis
  proof cases
    case 2
    have "to \<le> length ?d" by (rule run_to_le [OF r]) (use 2(1) in simp)
    then have "tame c1 c'" using flush_buffers_tame [OF 2(2)] by (simp add: c1_def)
    moreover have "tame c c1" by (simp add: c1_def tame_counters)
    ultimately show ?thesis by (blast intro: tame_trans)
  qed simp
qed

lemma start_loop_tame: "start_loop cnt started q (c, ops) = Some (rest, c', ops') \<Longrightarrow> tame c c'"
proof (induction cnt started q "(c, ops)" arbitrary: c ops rule: start_loop.induct)
  case (2 cnt started req q c ops)
  show ?case
  proof (cases "cnt \<noteq> 0 \<and> \<not> started < cnt")
    case False
    then obtain c1 new where s: "start_one req c = Some (c1, new)" and
      l: "start_loop cnt (started + int (length new)) q (c1, ops @ new) = Some (rest, c', ops')"
      using 2(2) by (auto split: option.splits)
    have "tame c1 c'" by (rule 2(1) [OF False s refl l])
    then show ?thesis by (rule tame_trans [OF start_one_tame [OF s]])
  qed (use 2(2) in auto)
qed simp

lemma start_writebacks_tame:
  assumes "start_writebacks cnt c = Some (c', ops)"
  shows "tame c c'"
proof (cases "writeback_queue c = []")
  case False
  then obtain rest c1 where c1: "start_loop cnt 0 (writeback_queue c) (c\<lparr>writeback_queue := []\<rparr>, []) = Some (rest, c1, ops)"
    "c' = c1\<lparr>writeback_queue := rest @ writeback_queue c1\<rparr>"
    using assms by (auto simp: start_writebacks_def)
  have "tame c (c\<lparr>writeback_queue := []\<rparr>)" "tame c1 c'" by (simp_all add: tame_counters c1(2))
  then show ?thesis using start_loop_tame [OF c1(1)] tame_trans by blast
qed (use assms in \<open>simp add: start_writebacks_def\<close>)

lemma repeat_loop_tame:
  "repeat_loop affects wr fl la (c, ops) = Some (c', ops') \<Longrightarrow> wr \<le> length (dirty_buffers c) \<Longrightarrow> tame c c'"
proof (induction affects wr fl la "(c, ops)" arbitrary: c ops rule: repeat_loop.induct)
  case (1 affects wr fl la c ops)
  let ?d = "dirty_buffers c"
  let ?fl = "\<not> length ?d \<le> wr \<and> cb_state (snd (?d ! wr)) \<noteq> CACHE_REPEATING \<and> cb_state (snd (?d ! wr)) \<noteq> CACHE_DIRTY \<and>
    affects (buf_inode (?d ! wr)) (buf_start (?d ! wr)) (cb_len (snd (?d ! wr)))"
  let ?do = "fl \<noteq> wr \<and> (length ?d \<le> wr \<or> \<not> ?fl \<or> buf_inode (?d ! wr) \<noteq> buf_inode (?d ! fl) \<or> buf_start (?d ! wr) \<noteq> buf_stop (?d ! la))"
  let ?s = "if ?do then map_option (\<lambda>(c, op). (c, ops @ [op])) (flush_buffers fl wr c) else Some (c, ops)"
  note eq = 1(2) [unfolded repeat_loop.simps [of affects wr fl la "(c, ops)"] Let_def prod.case]
  obtain c1 ops1 where s: "?s = Some (c1, ops1)" using eq by (cases ?s) auto
  have "c1 = c \<or> (\<exists>op. flush_buffers fl wr c = Some (c1, op))" using s by (auto split: if_splits)
  then have t: "tame c c1" and l: "length (dirty_buffers c1) = length ?d"
    using flush_buffers_tame 1(3) flush_buffers_length by auto
  show ?case
  proof (cases "length ?d \<le> wr")
    case True
    then have "c' = c1" using eq unfolding s by simp
    then show ?thesis using t by simp
  next
    case False
    have "tame c1 c'"
      by (rule 1(1) [OF refl refl refl refl refl refl s refl False])
        (rule eq [unfolded s option.case prod.case if_not_P [OF False]], use False l in simp)
    then show ?thesis using t by (rule tame_trans [rotated])
  qed
qed

lemma repeat_ops_for_tame: "repeat_ops_for ao ap peer_osd pool pgn c = Some (c', ops) \<Longrightarrow> tame c c'"
  using repeat_loop_tame by (auto simp: repeat_ops_for_def split: if_splits)

text \<open>Taking an entry out of a well-formed map changes no other byte.\<close>

lemma wb_at_remove:
  assumes "wb_wf (a @ e # b)"
  shows "wb_at (a @ b) ino p = (if covers_byte ino p e then None else wb_at (a @ e # b) ino p)"
proof (cases "covers_byte ino p e")
  case True
  have b: "\<forall>x \<in> set a. before x e" "\<forall>x \<in> set b. before e x" using assms by (simp_all add: wb_wf_append wb_wf_Cons)
  have "\<not> covers_byte ino p x" if x: "x \<in> set (a @ b)" for x
  proof
    assume c: "covers_byte ino p x"
    have "before x e \<or> before e x" using x b by (metis Un_iff set_append)
    then have "buf_stop x \<le> buf_start e \<or> buf_stop e \<le> buf_start x"
      using True c unfolding before_def covers_byte_def by (metis order_less_irrefl)
    moreover have "buf_start e \<le> p" "p < buf_stop e" "buf_start x \<le> p" "p < buf_stop x"
      using True c unfolding covers_byte_def by blast+
    ultimately show False by linarith
  qed
  then have "wb_at (a @ b) ino p = None" by (rule wb_at_None)
  then show ?thesis using True by simp
qed (simp add: wb_at_append split: option.split)

lemma delete_flush_loop_tame:
  assumes "delete_flush_loop ino stop fid i d rc = Some (d', rc')" "wb_wf d"
  shows "wb_wf d' \<and> (flushing_at d' j p x \<longrightarrow> flushing_at d j p x) \<and> (rc = counts (A + buf_refs d) \<longrightarrow> rc' = counts (A + buf_refs d'))"
  using assms
proof (induction ino stop fid i d rc rule: delete_flush_loop.induct)
  case (1 ino stop fid i d rc)
  let ?e = "d ! i"
  note eq = 1(3) [unfolded delete_flush_loop.simps [of ino stop fid i d rc] Let_def]
  let ?C = "cb_flush_id (snd ?e) = fid \<and> cb_state (snd ?e) = CACHE_REPEATING"
  show ?case
  proof (cases "\<not> (i < length d \<and> buf_inode ?e = ino \<and> buf_start ?e < stop)")
    case True
    then show ?thesis using eq [unfolded if_P [OF True]] 1(4) by simp
  next
    case go: False
    note eq = eq [unfolded if_not_P [OF go]]
    show ?thesis
    proof (cases ?C)
      case False
      show ?thesis by (rule 1(2) [OF refl refl go False eq [unfolded if_not_P [OF False]] 1(4)])
    next
      case C: True
      obtain rc1 where rc1: "unref_buf (snd ?e) rc = Some rc1"
        and l: "delete_flush_loop ino stop fid i (erase_at i d) rc1 = Some (d', rc')"
        using eq [unfolded if_P [OF C]] by (cases "unref_buf (snd ?e) rc") simp_all
      have i: "i < length d" using go by blast
      let ?a = "take i d" and ?b = "drop (Suc i) d"
      note d = id_take_nth_drop [OF i, symmetric]
      have er: "erase_at i d = ?a @ ?b" by (simp add: erase_at_def)
      have w: "wb_wf (?a @ ?e # ?b)" unfolding d by (rule 1(4))
      have wf: "wb_wf (erase_at i d)" using w unfolding er by (simp add: wb_wf_append wb_wf_Cons)
      have "wb_at (erase_at i d) j p = (if covers_byte j p ?e then None else wb_at d j p)"
        using wb_at_remove [OF w, of j p] unfolding d er .
      then have f: "flushing_at (erase_at i d) j p x \<Longrightarrow> flushing_at d j p x"
        by (auto simp: flushing_at_def split: if_splits)
      have r: "rc1 = counts (A + buf_refs (erase_at i d))" if "rc = counts (A + buf_refs d)"
      proof -
        have "buf_refs d = buf_refs (erase_at i d) + ref_of (snd ?e)"
          using arg_cong [OF d, of buf_refs] unfolding er by (simp add: ac_simps)
        then show ?thesis
          using that rc1 unref_buf_counts [of "snd ?e" "A + buf_refs (erase_at i d)"] by (simp add: ac_simps)
      qed
      show ?thesis using 1(1) [OF refl refl go C rc1 l wf] f r by blast
    qed
  qed
qed

lemma mark_written_loop_kept: "list_all2 kept d (mark_written_loop ino stop fid i d)"
proof (induction ino stop fid i d rule: mark_written_loop.induct)
  case (1 ino stop fid i d)
  let ?e = "d ! i"
  let ?d = "if cb_flush_id (snd ?e) = fid \<and> cb_state (snd ?e) = CACHE_REPEATING
    then upd_buf i (\<lambda>b. b\<lparr>cb_flush_id := 0, cb_state := CACHE_WRITTEN\<rparr>) d else d"
  note eq = mark_written_loop.simps [of ino stop fid i d, unfolded Let_def]
  show ?case
  proof (cases "i < length d \<and> buf_inode ?e = ino \<and> buf_start ?e < stop")
    case True
    have "list_all2 kept d ?d" by (simp add: kept_all_refl kept_upd kept_def)
    then have "list_all2 kept d (mark_written_loop ino stop fid (i + 1) ?d)"
      by (rule kept_all_trans) (rule 1 [OF refl refl], use True in simp)
    then show ?thesis unfolding eq using True by simp
  qed (unfold eq, simp add: kept_all_refl)
qed

lemma mark_flush_written_tame: "tame c (mark_flush_written ino off len fid c)"
proof (rule tame_kept)
  show "list_all2 kept (dirty_buffers c) (dirty_buffers (mark_flush_written ino off len fid c))"
    by (simp add: mark_flush_written_def mark_written_loop_kept)
  then show "refs_exact c \<Longrightarrow> refs_exact (mark_flush_written ino off len fid c)"
    using kept_refs by (fastforce simp: refs_exact_def held_def mark_flush_written_def)
qed

lemma delete_flush_tame:
  assumes "delete_flush ino off len fid c = Some c'"
  shows "tame c c'"
proof -
  obtain d rc where l: "delete_flush_loop ino (off + len) fid (find_dirty (dirty_buffers c) ino off) (dirty_buffers c) (refcnts c) = Some (d, rc)"
    and c': "c' = c\<lparr>dirty_buffers := d, refcnts := rc\<rparr>"
    using assms by (auto simp: delete_flush_def)
  show ?thesis
    using delete_flush_loop_tame [OF l, where A = "mset (map snd (flushed_buffers c))"]
    by (intro tameI) (simp_all add: c' refs_exact_def held_def add.commute)
qed

lemma mset_map_split: "mset (map g xs) = mset (map g (filter (\<lambda>x. \<not> P x) xs)) + mset (map g (filter P xs))"
  by (induction xs) simp_all

lemma flush_done_tame:
  assumes "flush_done op retval committed c = Some c'"
  shows "tame c c'"
proof -
  let ?P = "\<lambda>f. fst f = fo_flush_id op" and ?F = "flushed_buffers c"
  obtain rc c2 where rc: "unref_list (map snd (filter ?P ?F)) (refcnts c) = Some rc"
    and c2: "(if committed then delete_flush (op_inode op) (op_offset op) (op_len op) (fo_flush_id op)
                  (c\<lparr>refcnts := rc, flushed_buffers := filter (\<lambda>f. \<not> ?P f) ?F\<rparr>)
              else Some (mark_flush_written (op_inode op) (op_offset op) (op_len op) (fo_flush_id op)
                  (c\<lparr>refcnts := rc, flushed_buffers := filter (\<lambda>f. \<not> ?P f) ?F\<rparr>))) = Some c2"
    and c': "c' = c2\<lparr>writebacks_active := writebacks_active c2 - 1\<rparr>"
    using assms unfolding flush_done_def Let_def by (auto simp del: unref_list.simps split: if_split_asm Option.bind_splits)
  let ?c = "c\<lparr>refcnts := rc, flushed_buffers := filter (\<lambda>f. \<not> ?P f) ?F\<rparr>"
  have F: "held c = buf_refs (dirty_buffers c) + mset (map snd (filter (\<lambda>f. \<not> ?P f) ?F)) + mset (map snd (filter ?P ?F))"
    unfolding held_def mset_map_split [of snd ?F ?P] by (rule add.assoc [symmetric])
  have "refs_exact ?c" if "refs_exact c"
    using that rc unref_list_counts [of "map snd (filter ?P ?F)" "buf_refs (dirty_buffers c) + mset (map snd (filter (\<lambda>f. \<not> ?P f) ?F))"]
    unfolding refs_exact_def F by (simp add: held_def)
  then have "tame c ?c" by (intro tameI) simp_all
  moreover have "tame ?c c2" using c2 delete_flush_tame mark_flush_written_tame by (auto split: if_splits)
  moreover have "tame c2 c'" by (simp add: c' tame_counters)
  ultimately show ?thesis by (blast intro: tame_trans)
qed

text \<open>Cutting a range out of the cache, and the new buffer. The allocation of a write is fresh: no counter is live at its
  address when \<open>malloc\<close> returns, which is after the overlapping buffers have been cut.\<close>

lemma copy_write_loop_refs:
  assumes "copy_write_loop ino off len i c = Some c'" "i \<le> length (dirty_buffers c)" "wb_wf (dirty_buffers c)"
    and "refcnts c = counts (A + buf_refs (dirty_buffers c))"
  shows "refcnts c' = counts (A + buf_refs (dirty_buffers c')) \<and> flushed_buffers c' = flushed_buffers c"
  using assms
proof (induction ino off len i c arbitrary: c' rule: copy_write_loop.induct)
  case (1 ino off len i c)
  show ?case
  proof (cases "i < length (dirty_buffers c)")
    case False
    then have "c' = c" using 1(3) by (subst (asm) copy_write_loop.simps) (auto simp: Let_def split: if_splits)
    then show ?thesis using 1(6) by simp
  next
    case i: True
    define a e b where "a = take i (dirty_buffers c)" "e = dirty_buffers c ! i" "b = drop (Suc i) (dirty_buffers c)"
    have d: "dirty_buffers c = a @ e # b" using id_take_nth_drop [OF i] by (simp add: a_e_b_def)
    have la: "i = length a" using i by (simp add: a_e_b_def)
    have wf: "wb_wf (a @ e # b)" using 1(5) d by simp
    have e: "dirty_buffers c ! i = e" by (simp add: a_e_b_def)
    show ?thesis
      using 1(3) e i
    proof (cases rule: copy_write_loop_cases)
      case stop
      then show ?thesis using 1(6) by simp
    next
      case middle
      let ?e = "(fst e, (snd e)\<lparr>cb_len := off - buf_start e\<rparr>)" and ?t = "((ino, off + len), tail_buf (off + len) e)"
      have d': "dirty_buffers c' = a @ [?e, ?t] @ b"
        using split_middle_list [OF middle(4) [unfolded la] d wf middle(1-3)] middle by (simp add: cut_range_def)
      obtain rc where rc: "ref_buf (snd e) (refcnts c) = Some rc" "refcnts c' = rc" "flushed_buffers c' = flushed_buffers c"
        using middle(4) unfolding split_middle_def e Let_def
        by (auto simp: add_queue_size_def sub_bytes_def split: Option.bind_splits if_splits)
      have s: "ref_of (snd e) \<subseteq># A + buf_refs (dirty_buffers c)"
        by (simp add: d subset_mset.add_increasing subset_mset.add_increasing2)
      have "rc = counts (A + buf_refs (dirty_buffers c) + ref_of (snd e))"
        using rc(1) ref_buf_counts [OF s] 1(6) by simp
      moreover have "ref_of (snd ?e) = ref_of (snd e)" "ref_of (snd ?t) = ref_of (snd e)" by (simp_all add: ref_of_def tail_buf_def)
      ultimately show ?thesis using rc(2,3) by (simp add: d d' ac_simps)
    next
      case head
      let ?e = "(fst e, (snd e)\<lparr>cb_len := off - buf_start e\<rparr>)" and ?c = "leave_begin off i c"
      have d': "dirty_buffers ?c = a @ ?e # b" using leave_begin_list [OF d] la by simp
      have "buf_refs (dirty_buffers ?c) = buf_refs (dirty_buffers c)" by (simp add: d d' ref_of_def)
      moreover have "refcnts ?c = refcnts c" "flushed_buffers ?c = flushed_buffers c"
        by (simp_all add: leave_begin_def Let_def add_queue_size_def sub_bytes_def)
      moreover have "wb_wf (dirty_buffers ?c)" using shrink_wf [OF wf head(4,3)] d' by simp
      ultimately show ?thesis
        using 1(1) [OF refl refl, of c', unfolded e] head i 1(6) leave_begin_length [of off i c] by simp
    next
      case rest
      have d': "dirty_buffers c' = a @ ((ino, off + len), tail_buf (off + len) e) # b"
        using leave_end_list [OF d wf rest(1,3,2,4)] rest la by (simp add: cut_range_def)
      have "refcnts c' = refcnts c" "flushed_buffers c' = flushed_buffers c"
        by (simp_all add: rest(5) leave_end_def Let_def add_queue_size_def sub_bytes_def)
      then show ?thesis using 1(6) by (simp add: d d' ref_of_def tail_buf_def)
    next
      case (whole c1)
      have d': "dirty_buffers c1 = a @ b" using remove_whole_list [of a c c1 e b] whole(6) la d by simp
      obtain rc where rc: "unref_buf (snd e) (refcnts c) = Some rc" "refcnts c1 = rc" "flushed_buffers c1 = flushed_buffers c"
        using whole(6) unfolding remove_whole_def e Let_def
        by (auto simp: add_queue_size_def sub_bytes_def split: Option.bind_splits if_splits)
      have "refcnts c = counts ((A + buf_refs (dirty_buffers c1)) + ref_of (snd e))" using 1(6) by (simp add: d d' ac_simps)
      then have "refcnts c1 = counts (A + buf_refs (dirty_buffers c1))"
        using rc unref_buf_counts [of "snd e" "A + buf_refs (dirty_buffers c1)"] by simp
      moreover have "wb_wf (a @ b)" using wf by (auto simp: wb_wf_append wb_wf_Cons)
      ultimately show ?thesis
        using 1(2) [OF refl refl, of c1 c', unfolded e] whole i la rc(3) d' by simp
    qed
  qed
qed

definition fresh_alloc :: "cluster_op \<Rightarrow> ptr \<Rightarrow> writeback_cache \<Rightarrow> bool" where
  "fresh_alloc op mem c \<longleftrightarrow> op_opcode op = OSD_OP_DELETE \<or>
     (case copy_write_loop (op_inode op) (op_offset op) (op_len op) (find_dirty (dirty_buffers c) (op_inode op) (op_offset op)) c of
        None \<Rightarrow> True | Some c1 \<Rightarrow> refcnts c1 mem = None)"

lemma insert_write_refs:
  assumes "insert_write op state fid mem c = Some c'"
  shows "flushed_buffers c' = flushed_buffers c"
    "refcnts c' = (if op_opcode op = OSD_OP_DELETE then refcnts c else (refcnts c)(mem := Some 1))"
  using assms by (auto simp: insert_write_def Let_def split: prod.splits if_split_asm)

lemma copy_write_exact:
  assumes "copy_write op state fid mem (c, m) = Some (c', m')" "fresh_alloc op mem c" "refs_exact c" "wb_wf (dirty_buffers c)"
  shows "refs_exact c'"
proof (cases "op_len op = 0")
  case True
  then show ?thesis using assms by (simp add: copy_write_def)
next
  case False
  let ?d = "dirty_buffers c" and ?F = "mset (map snd (flushed_buffers c))" and ?v = "new_buf op state fid mem"
  obtain c1 a b where l: "copy_write_loop (op_inode op) (op_offset op) (op_len op) (find_dirty ?d (op_inode op) (op_offset op)) c = Some c1"
    and ins: "insert_write op state fid mem c1 = Some c'" and d1: "dirty_buffers c1 = a @ b"
    and d': "dirty_buffers c' = a @ ((op_inode op, op_offset op), ?v) # b"
    by (rule copy_write_shape [OF assms(4,1) False]) (rule that)
  have "find_dirty ?d (op_inode op) (op_offset op) \<le> length ?d" using find_dirty_found [OF assms(4)] by (simp add: found_def)
  then have r: "refcnts c1 = counts (?F + buf_refs (dirty_buffers c1))" "flushed_buffers c1 = flushed_buffers c"
    using copy_write_loop_refs [OF l _ assms(4), of ?F] assms(3) by (simp_all add: refs_exact_def held_def add.commute)
  note i = insert_write_refs [OF ins]
  have h: "held c' = ?F + buf_refs (dirty_buffers c1) + ref_of ?v"
    using i(1) r(2) by (simp add: held_def d1 d' ac_simps)
  show ?thesis
  proof (cases "op_opcode op = OSD_OP_DELETE")
    case True
    then show ?thesis using i(2) r(1) h by (simp add: refs_exact_def ref_of_def new_buf_def)
  next
    case False
    then have "mem \<notin># ?F + buf_refs (dirty_buffers c1)"
      using assms(2) l r(1) counts_None [of "?F + buf_refs (dirty_buffers c1)" mem] by (simp add: fresh_alloc_def)
    then show ?thesis
      using i(2) r(1) h False counts_fresh [of mem] by (simp add: refs_exact_def ref_of_def new_buf_def)
  qed
qed

lemma copy_write_tame:
  assumes "copy_write op state fid mem (c, m) = Some (c', m')" "fresh_alloc op mem c" "state \<noteq> CACHE_FLUSHING"
  shows "tame c c'"
proof (rule tameI)
  show "refs_exact c \<Longrightarrow> wb_wf (dirty_buffers c) \<Longrightarrow> refs_exact c'" by (rule copy_write_exact [OF assms(1,2)])
  show "wb_wf (dirty_buffers c')" if "wb_wf (dirty_buffers c)" using copy_write_at [OF that assms(1)] by blast
  fix ino p x
  assume wf: "wb_wf (dirty_buffers c)" and f: "flushing_at (dirty_buffers c') ino p x"
  show "flushing_at (dirty_buffers c) ino p x"
  proof (cases "ino = op_inode op \<and> op_offset op \<le> p \<and> p < op_offset op + op_len op")
    case True
    then have "wb_at (dirty_buffers c') ino p = Some (if op_opcode op = OSD_OP_DELETE then (None, state, fid, 0)
                else (Some (mem + 8 + (p - op_offset op)), state, fid, mem))"
      using copy_write_at [OF wf assms(1)] by simp
    then show ?thesis using f assms(3) by (auto simp: flushing_at_def split_beta split: if_splits)
  next
    case False
    have "wb_at (dirty_buffers c') ino p = wb_at (dirty_buffers c) ino p"
      using copy_write_at [OF wf assms(1), THEN conjunct2, THEN spec, THEN spec, of ino p] unfolding if_not_P [OF False] .
    then show ?thesis using f by (simp add: flushing_at_def)
  qed
qed

text \<open>What can happen to the cache while the client waits for the answers to a synchronisation (it runs one at a time): a
  write is buffered (\<open>cluster_client.cpp\<close>, line 778) or saved for repetition (line 794), a write ends (line 1094), write-back is
  started (lines 782 and 826), a flush ends (the callback of \<open>flush_buffers\<close>), or the writes to an OSD or PG are
  repeated.\<close>

inductive wb_step :: "writeback_cache \<Rightarrow> writeback_cache \<Rightarrow> bool" where
  buffered: "copy_write op CACHE_DIRTY 0 mem (c, m) = Some (c', m') \<Longrightarrow> fresh_alloc op mem c \<Longrightarrow> wb_step c c'"
| saved: "copy_write op CACHE_REPEATING (last_flush_id c + 1) mem (c\<lparr>last_flush_id := last_flush_id c + 1\<rparr>, m) = Some (c', m') \<Longrightarrow>
    fresh_alloc op mem (c\<lparr>last_flush_id := last_flush_id c + 1\<rparr>) \<Longrightarrow> wb_step c c'"
| written: "wb_step c (mark_flush_written ino off len fid c)"
| started: "start_writebacks cnt c = Some (c', ops) \<Longrightarrow> wb_step c c'"
| flushed: "flush_done op retval committed c = Some c' \<Longrightarrow> wb_step c c'"
| repeated: "repeat_ops_for affects_osd affects_pg peer_osd pool pgn c = Some (c', ops) \<Longrightarrow> wb_step c c'"

lemma wb_step_tame: "wb_step c c' \<Longrightarrow> tame c c'"
proof (induction rule: wb_step.induct)
  case (saved op c mem m c' m')
  have "tame c (c\<lparr>last_flush_id := last_flush_id c + 1\<rparr>)" by (simp add: tame_counters)
  then show ?case using copy_write_tame [OF saved] tame_trans by blast
qed (auto intro: copy_write_tame mark_flush_written_tame start_writebacks_tame flush_done_tame repeat_ops_for_tame)

lemma wb_steps_tame: "wb_step\<^sup>*\<^sup>* c c' \<Longrightarrow> tame c c'"
  by (induction rule: rtranclp_induct) (auto intro: tame_trans wb_step_tame)

section \<open>Synchronisation\<close>

abbreviation stays :: "wb_key \<times> cluster_buffer \<Rightarrow> bool" where
  "stays e \<equiv> cb_state (snd e) \<noteq> CACHE_FLUSHING"

lemma wb_at_stays:
  "wb_wf d \<Longrightarrow> wb_at (filter stays d) ino p = (if \<exists>x. flushing_at d ino p x then None else wb_at d ino p)"
proof (induction d)
  case (Cons e d)
  then have IH: "wb_at (filter stays d) ino p = (if \<exists>x. flushing_at d ino p x then None else wb_at d ino p)"
    by (simp add: wb_wf_Cons)
  show ?case
  proof (cases "covers_byte ino p e")
    case True
    then have "wb_at d ino p = None" using wb_at_remove [of "[]" e d ino p] Cons.prems by simp
    moreover have "(\<exists>x. flushing_at (e # d) ino p x) \<longleftrightarrow> \<not> stays e"
      using True by (auto simp: flushing_at_def byte_of_def)
    ultimately show ?thesis using True IH by (auto simp: flushing_at_def)
  next
    case False
    then have "flushing_at (e # d) ino p = flushing_at d ino p" by (simp add: flushing_at_def)
    then show ?thesis using False IH by simp
  qed
qed (simp add: flushing_at_def)

definition to_flushing :: "wb_key \<times> cluster_buffer \<Rightarrow> wb_key \<times> cluster_buffer" where
  "to_flushing = (\<lambda>(k, b). (k, if cb_state b = CACHE_WRITTEN then b\<lparr>cb_state := CACHE_FLUSHING\<rparr> else b))"

lemma to_flushing_fields:
  "fst (to_flushing e) = fst e" "cb_len (snd (to_flushing e)) = cb_len (snd e)" "ref_of (snd (to_flushing e)) = ref_of (snd e)"
  by (simp_all add: to_flushing_def ref_of_def split_beta)

lemma fsync_start_list: "dirty_buffers (fsync_start c) = map to_flushing (dirty_buffers c)"
  by (simp add: fsync_start_def set_state_def to_flushing_def)

lemma fsync_start_exact: "refs_exact c \<Longrightarrow> refs_exact (fsync_start c)"
proof -
  have "buf_refs (map to_flushing d) = buf_refs d" for d by (induction d) (simp_all add: to_flushing_fields)
  then have "held (fsync_start c) = held c" by (simp add: held_def fsync_start_list) (simp add: fsync_start_def set_state_def)
  then show "refs_exact c \<Longrightarrow> refs_exact (fsync_start c)" by (simp add: refs_exact_def fsync_start_def set_state_def)
qed

lemma fsync_start_wf: "wb_wf (dirty_buffers c) \<Longrightarrow> wb_wf (dirty_buffers (fsync_start c))"
proof -
  have "before (to_flushing x) (to_flushing y) = before x y" for x y by (simp add: before_def to_flushing_fields)
  then show "wb_wf (dirty_buffers c) \<Longrightarrow> wb_wf (dirty_buffers (fsync_start c))"
    by (simp add: fsync_start_list wb_wf_def sorted_wrt_map to_flushing_fields)
qed

lemma fsync_start_at:
  "flushing_at (dirty_buffers (fsync_start c)) ino p (a, f, r) \<Longrightarrow>
    \<exists>s. (s = CACHE_WRITTEN \<or> s = CACHE_FLUSHING) \<and> wb_at (dirty_buffers c) ino p = Some (a, s, f, r)"
proof -
  have "\<exists>s. (s = CACHE_WRITTEN \<or> s = CACHE_FLUSHING) \<and> wb_at d ino p = Some (a, s, f, r)"
    if "flushing_at (map to_flushing d) ino p (a, f, r)" for d
    using that
  proof (induction d)
    case (Cons e d)
    have "covers_byte ino p (to_flushing e) = covers_byte ino p e" by (simp add: covers_byte_def to_flushing_fields)
    moreover have "byte_of p (to_flushing e) = (case byte_of p e of (a, s, f, r) \<Rightarrow>
        (a, if s = CACHE_WRITTEN then CACHE_FLUSHING else s, f, r))"
      by (simp add: byte_of_def to_flushing_def split_beta)
    ultimately show ?case
      using Cons by (cases "byte_of p e") (auto simp: flushing_at_def split: if_splits)
  qed (simp add: flushing_at_def)
  then show "flushing_at (dirty_buffers (fsync_start c)) ino p (a, f, r) \<Longrightarrow> ?thesis" by (simp add: fsync_start_list)
qed

lemma fsync_ok_exact:
  assumes "refs_exact c" "wb_wf (dirty_buffers c)"
  shows "\<exists>c'. fsync_ok c = Some c' \<and> refs_exact c' \<and> wb_wf (dirty_buffers c') \<and> dirty_buffers c' = filter stays (dirty_buffers c)"
proof -
  let ?F = "mset (map snd (flushed_buffers c))"
  have "fsync_ok c = Some (c\<lparr>dirty_buffers := filter stays (dirty_buffers c), refcnts := counts (?F + buf_refs (filter stays (dirty_buffers c)))\<rparr>)"
    using assms(1) fsync_ok_loop_counts [of "dirty_buffers c" ?F] by (simp add: fsync_ok_def refs_exact_def held_def add.commute)
  then show ?thesis
    using assms(2) by (simp add: refs_exact_def held_def add.commute wb_wf_def sorted_wrt_filter)
qed

text \<open>C10: between the start of a synchronisation and its successful end any number of writes, flushes and repetitions may
  change the cache. The end then never touches a freed counter, leaves the buffers disjoint and the counts exact, and removes
  just the bytes still marked: every byte it removes was, when the synchronisation started, in a buffer already written to the
  OSDs, at the same address. A byte that was buffered, rewritten, or whose write ended meanwhile stays as it is.\<close>

theorem fsync_removes_written:
  assumes "refs_exact c" "wb_wf (dirty_buffers c)" "wb_step\<^sup>*\<^sup>* (fsync_start c) c1"
  shows "\<exists>c'. fsync_ok c1 = Some c' \<and> refs_exact c' \<and> wb_wf (dirty_buffers c') \<and>
    (\<forall>ino p. case wb_at (dirty_buffers c1) ino p of
       None \<Rightarrow> wb_at (dirty_buffers c') ino p = None
     | Some (a, s, f, r) \<Rightarrow>
         if s = CACHE_FLUSHING
         then wb_at (dirty_buffers c') ino p = None \<and>
           (\<exists>s'. (s' = CACHE_WRITTEN \<or> s' = CACHE_FLUSHING) \<and> wb_at (dirty_buffers c) ino p = Some (a, s', f, r))
         else wb_at (dirty_buffers c') ino p = Some (a, s, f, r))"
proof -
  have t: "refs_exact c1" "wb_wf (dirty_buffers c1)"
    "\<And>ino p x. flushing_at (dirty_buffers c1) ino p x \<Longrightarrow> flushing_at (dirty_buffers (fsync_start c)) ino p x"
    using wb_steps_tame [OF assms(3)] fsync_start_exact [OF assms(1)] fsync_start_wf [OF assms(2)] unfolding tame_def by blast+
  obtain c' where c': "fsync_ok c1 = Some c'" "refs_exact c'" "wb_wf (dirty_buffers c')" "dirty_buffers c' = filter stays (dirty_buffers c1)"
    using fsync_ok_exact [OF t(1,2)] by blast
  note at = wb_at_stays [OF t(2)]
  have "case wb_at (dirty_buffers c1) ino p of
       None \<Rightarrow> wb_at (dirty_buffers c') ino p = None
     | Some (a, s, f, r) \<Rightarrow>
         if s = CACHE_FLUSHING
         then wb_at (dirty_buffers c') ino p = None \<and>
           (\<exists>s'. (s' = CACHE_WRITTEN \<or> s' = CACHE_FLUSHING) \<and> wb_at (dirty_buffers c) ino p = Some (a, s', f, r))
         else wb_at (dirty_buffers c') ino p = Some (a, s, f, r)" for ino p
  proof (cases "\<exists>x. flushing_at (dirty_buffers c1) ino p x")
    case True
    then obtain a f r where x: "flushing_at (dirty_buffers c1) ino p (a, f, r)" by auto
    then show ?thesis
      using fsync_start_at [OF t(3) [OF x]] True unfolding c'(4) at by (auto simp: flushing_at_def)
  next
    case False
    then show ?thesis unfolding c'(4) at by (auto simp: flushing_at_def split: option.split)
  qed
  then show ?thesis using c'(1-3) by blast
qed

lemma example_exact: "refs_exact example_cache"
  by (auto simp: refs_exact_def held_def counts_def example_cache_def ref_of_def fun_eq_iff)

lemma example_steps:
  "\<exists>c1. wb_step\<^sup>*\<^sup>* (fsync_start example_cache) c1 \<and> wb_at (dirty_buffers c1) 1 3 = Some (Some 209, CACHE_WRITTEN, 0, 200) \<and>
    wb_at (dirty_buffers c1) 1 7 = Some (Some 115, CACHE_FLUSHING, 0, 100)"
proof -
  let ?c = "fsync_start example_cache"
  let ?n = "?c\<lparr>last_flush_id := last_flush_id ?c + 1\<rparr>"
  let ?b = "\<lambda>a l s f r. \<lparr>cb_buf = Some a, cb_len = l, cb_state = s, cb_flush_id = f, cb_refcnt = r\<rparr>"
  note run = example_write_def example_cache_def fsync_start_def set_state_def find_dirty_def lower_bound_def key_lt_def
    copy_write_loop.simps split_middle_def ref_buf_def add_ref_def upd_buf_def emplace_def tail_buf_def sub_bytes_def add_queue_size_def
  have "map_option (\<lambda>s. dirty_buffers (fst s)) (copy_write example_write CACHE_REPEATING (last_flush_id ?c + 1) 200 (?n, \<lambda>_. 0)) =
      Some [((1, 0), ?b 108 2 CACHE_FLUSHING 0 100), ((1, 2), ?b 208 4 CACHE_REPEATING 1 200), ((1, 6), ?b 114 2 CACHE_FLUSHING 0 100)]"
    by (simp add: copy_write_def run insert_write_def Let_def)
  then obtain c1 m1 where w: "copy_write example_write CACHE_REPEATING (last_flush_id ?c + 1) 200 (?n, \<lambda>_. 0) = Some (c1, m1)"
    and d: "dirty_buffers c1 = [((1, 0), ?b 108 2 CACHE_FLUSHING 0 100), ((1, 2), ?b 208 4 CACHE_REPEATING 1 200), ((1, 6), ?b 114 2 CACHE_FLUSHING 0 100)]"
    by auto
  have "fresh_alloc example_write 200 ?n" by (simp add: fresh_alloc_def run Let_def)
  then have s: "wb_step ?c c1" by (rule wb_step.saved [OF w])
  let ?c2 = "mark_flush_written 1 2 4 1 c1"
  have "wb_step\<^sup>*\<^sup>* ?c ?c2" using s wb_step.written [of c1 1 2 4 1] by (meson converse_rtranclp_into_rtranclp r_into_rtranclp)
  moreover have "dirty_buffers ?c2 =
      [((1, 0), ?b 108 2 CACHE_FLUSHING 0 100), ((1, 2), ?b 208 4 CACHE_WRITTEN 0 200), ((1, 6), ?b 114 2 CACHE_FLUSHING 0 100)]"
    by (simp add: mark_flush_written_def d find_dirty_def lower_bound_def key_lt_def mark_written_loop.simps upd_buf_def)
  ultimately show ?thesis
    by (intro exI [of _ ?c2]) (simp add: covers_byte_def byte_of_def)
qed

theorem fsync_removes_written_witness:
  "\<exists>c1 c'. wb_step\<^sup>*\<^sup>* (fsync_start example_cache) c1 \<and> fsync_ok c1 = Some c' \<and> refs_exact c' \<and>
    wb_at (dirty_buffers c') 1 3 = Some (Some 209, CACHE_WRITTEN, 0, 200) \<and> wb_at (dirty_buffers c') 1 7 = None"
proof -
  obtain c1 where s: "wb_step\<^sup>*\<^sup>* (fsync_start example_cache) c1" and c1: "wb_at (dirty_buffers c1) 1 3 = Some (Some 209, CACHE_WRITTEN, 0, 200)"
    "wb_at (dirty_buffers c1) 1 7 = Some (Some 115, CACHE_FLUSHING, 0, 100)"
    using example_steps by blast
  have "wb_wf (dirty_buffers example_cache)" by (simp add: example_cache_def wb_wf_def)
  from fsync_removes_written [OF example_exact this s]
  obtain c' where c': "fsync_ok c1 = Some c'" "refs_exact c'" and at: "\<And>ino p. case wb_at (dirty_buffers c1) ino p of
       None \<Rightarrow> wb_at (dirty_buffers c') ino p = None
     | Some (a, s, f, r) \<Rightarrow>
         if s = CACHE_FLUSHING
         then wb_at (dirty_buffers c') ino p = None \<and>
           (\<exists>s'. (s' = CACHE_WRITTEN \<or> s' = CACHE_FLUSHING) \<and> wb_at (dirty_buffers example_cache) ino p = Some (a, s', f, r))
         else wb_at (dirty_buffers c') ino p = Some (a, s, f, r)" by blast
  show ?thesis using s c' at [of 1 3] at [of 1 7] c1 by auto
qed

text \<open>C32: when no flush is running, the destructor frees every buffer of the cache.\<close>

theorem destroy_frees_all:
  assumes "refs_exact c" "flushed_buffers c = []"
  shows "\<exists>c'. destroy_cache c = Some c' \<and> dirty_buffers c' = [] \<and> (\<forall>p. refcnts c' p = None)"
  using assms unref_all_counts [of "dirty_buffers c" "{#}"]
  by (simp add: destroy_cache_def refs_exact_def held_def counts_def)

theorem destroy_frees_all_witness:
  "\<exists>c'. destroy_cache example_cache = Some c' \<and> dirty_buffers c' = [] \<and> (\<forall>p. refcnts c' p = None)"
  by (rule destroy_frees_all [OF example_exact]) (simp add: example_cache_def)

end
