(* ===== verification/Rdma_Alloc.thy ===== *)
theory Rdma_Alloc
  imports Prelude Ordered_Map "HOL-Library.Monad_Syntax"
begin

text \<open>
  The allocator of buffers inside registered RDMA memory regions (\<open>src/src/nfs/rdma_alloc.cpp\<close>). Addresses and sizes are
  numbers, regions are known by the address of their header. The address of a new header and the local key of its
  registration (or that it fails) are arguments. \<open>None\<close> is a failed assertion, \<open>abort()\<close> or \<open>exit()\<close>, or the use of a region
  that has been freed.
\<close>

section \<open>State\<close>

record rdma_region =
  rg_buf :: nat
  rg_len :: nat
  rg_lkey :: u32

record rdma_frag =
  fr_rgn :: nat
  fr_len :: nat
  fr_free :: bool

text \<open>An entry of the free list is a length and an address.\<close>

definition rdma_free_lt :: "nat \<times> nat \<Rightarrow> nat \<times> nat \<Rightarrow> bool" where
  "rdma_free_lt a b \<longleftrightarrow> fst a < fst b \<or> fst a = fst b \<and> snd a < snd b"

record rdma_allocator =
  rdma_alloc_size :: nat
  rdma_max_unused :: nat
  rdma_regions :: "(nat, rdma_region) omap"
  rdma_frags :: "(nat, rdma_frag) omap"
  rdma_freelist :: "(nat \<times> nat) list"
  rdma_freebuffers :: u64

fun free_insert :: "nat \<times> nat \<Rightarrow> (nat \<times> nat) list \<Rightarrow> (nat \<times> nat) list" where
  "free_insert x [] = [x]"
| "free_insert x (y # ys) = (if rdma_free_lt x y then x # y # ys else if x = y then y # ys else y # free_insert x ys)"

definition free_erase :: "nat \<times> nat \<Rightarrow> (nat \<times> nat) list \<Rightarrow> (nat \<times> nat) list" where
  "free_erase x fl = filter (\<lambda>y. y \<noteq> x) fl"

definition region_header :: nat where
  "region_header = 24"

section \<open>Operations\<close>

definition rdma_malloc_create :: "nat \<Rightarrow> nat \<Rightarrow> rdma_allocator" where
  "rdma_malloc_create alloc_size max_unused =
     \<lparr>rdma_alloc_size = if alloc_size \<noteq> 0 then alloc_size else 1048576,
      rdma_max_unused = if max_unused \<noteq> 0 then max_unused else 500 * 1048576,
      rdma_regions = [], rdma_frags = [], rdma_freelist = [], rdma_freebuffers = 0\<rparr>"

text \<open>One turn of the loop over the free list, from its end: the flag says that the loop goes on.\<close>

definition free_unused_one :: "bool \<Rightarrow> rdma_allocator \<Rightarrow> (bool \<times> rdma_allocator) option" where
  "free_unused_one force a =
     (let buf = snd (last (rdma_freelist a)) in do {
       frag \<leftarrow> omap_get (rdma_frags a) buf;
       rgn \<leftarrow> omap_get (rdma_regions a) (fr_rgn frag);
       if fr_len frag \<noteq> rg_len rgn then (if force then None else Some (False, a))
       else Some (length (rdma_freelist a) > 1,
         a\<lparr>rdma_freebuffers := rdma_freebuffers a - of_nat (rg_len rgn),
           rdma_regions := omap_erase (fr_rgn frag) (rdma_regions a), rdma_frags := omap_erase buf (rdma_frags a),
           rdma_freelist := butlast (rdma_freelist a)\<rparr>)
     })"

lemma free_unused_one_length:
  "free_unused_one force a = Some (True, a') \<Longrightarrow> length (rdma_freelist a') < length (rdma_freelist a)"
  by (auto simp: free_unused_one_def Let_def split: Option.bind_splits if_splits)

function free_unused_loop :: "nat \<Rightarrow> bool \<Rightarrow> rdma_allocator \<Rightarrow> rdma_allocator option" where
  "free_unused_loop max_unused force a =
     (case free_unused_one force a of
        None \<Rightarrow> None
      | Some (go, a') \<Rightarrow>
          if go \<and> rdma_freebuffers a' > of_nat max_unused then free_unused_loop max_unused force a' else Some a')"
  by pat_completeness auto
termination
  by (relation "measure (\<lambda>(mx, force, a). length (rdma_freelist a))") (auto dest: free_unused_one_length)

declare free_unused_loop.simps [simp del]

definition rdma_malloc_free_unused_buffers :: "nat \<Rightarrow> bool \<Rightarrow> rdma_allocator \<Rightarrow> rdma_allocator option" where
  "rdma_malloc_free_unused_buffers max_unused force a =
     (if rdma_freelist a = [] then Some a else free_unused_loop max_unused force a)"

definition rdma_malloc_destroy :: "rdma_allocator \<Rightarrow> unit option" where
  "rdma_malloc_destroy a = do {
     a \<leftarrow> rdma_malloc_free_unused_buffers 0 True a;
     if rdma_freebuffers a = 0 \<and> rdma_regions a = [] \<and> rdma_frags a = [] \<and> rdma_freelist a = [] then Some () else None
   }"

text \<open>A new region at the address \<open>r\<close>; the result has its entry of the free list.\<close>

definition add_region :: "nat \<Rightarrow> nat \<Rightarrow> u32 option \<Rightarrow> rdma_allocator \<Rightarrow> ((nat \<times> nat) \<times> rdma_allocator) option" where
  "add_region sz r mr a =
     (let alloc_size = ((sz + rdma_alloc_size a - 1) div rdma_alloc_size a) * rdma_alloc_size a; buf = r + region_header
      in map_option (\<lambda>key. ((alloc_size, buf),
           a\<lparr>rdma_regions := omap_put r \<lparr>rg_buf = buf, rg_len = alloc_size, rg_lkey = key\<rparr> (rdma_regions a),
             rdma_frags := omap_put buf \<lparr>fr_rgn = r, fr_len = alloc_size, fr_free = True\<rparr> (rdma_frags a),
             rdma_freelist := free_insert (alloc_size, buf) (rdma_freelist a),
             rdma_freebuffers := rdma_freebuffers a + of_nat alloc_size\<rparr>)) mr)"

definition take_fragment :: "nat \<Rightarrow> nat \<times> nat \<Rightarrow> rdma_allocator \<Rightarrow> (nat \<times> rdma_allocator) option" where
  "take_fragment sz it a =
     (let buf = snd it in do {
       frag \<leftarrow> omap_get (rdma_frags a) buf;
       rgn \<leftarrow> omap_get (rdma_regions a) (fr_rgn frag);
       let fl = free_erase it (rdma_freelist a);
       if \<not> (fr_len frag \<ge> sz \<and> fr_free frag) then None
       else
         let a = a\<lparr>rdma_freelist := fl,
                   rdma_freebuffers := (if fr_len frag = rg_len rgn then rdma_freebuffers a - of_nat (rg_len rgn) else rdma_freebuffers a)\<rparr>
         in if fr_len frag = sz
            then Some (buf, a\<lparr>rdma_frags := omap_put buf (frag\<lparr>fr_free := False\<rparr>) (rdma_frags a)\<rparr>)
            else
              let rest = fr_len frag - sz; ptr = buf + rest
              in Some (ptr, a\<lparr>rdma_freelist := free_insert (rest, rg_buf rgn) (rdma_freelist a),
                   rdma_frags := omap_put ptr \<lparr>fr_rgn = fr_rgn frag, fr_len = sz, fr_free = False\<rparr>
                     (omap_put buf (frag\<lparr>fr_len := rest\<rparr>) (rdma_frags a))\<rparr>)
     })"

definition rdma_malloc_alloc :: "nat \<Rightarrow> nat \<Rightarrow> u32 option \<Rightarrow> rdma_allocator \<Rightarrow> (nat \<times> rdma_allocator) option" where
  "rdma_malloc_alloc sz r mr a =
     (case List.find (\<lambda>e. \<not> rdma_free_lt e (sz, 0)) (rdma_freelist a) of
        Some it \<Rightarrow> take_fragment sz it a
      | None \<Rightarrow> Option.bind (add_region sz r mr a) (\<lambda>(it, a). take_fragment sz it a))"

text \<open>The neighbours of a fragment in the order of the addresses.\<close>

definition prev_frag :: "nat \<Rightarrow> (nat, rdma_frag) omap \<Rightarrow> (nat \<times> rdma_frag) option" where
  "prev_frag buf fs = (let l = omap_before buf fs in if l = [] then None else Some (last l))"

definition next_frag :: "nat \<Rightarrow> (nat, rdma_frag) omap \<Rightarrow> (nat \<times> rdma_frag) option" where
  "next_frag buf fs = (case omap_from (buf + 1) fs of [] \<Rightarrow> None | e # _ \<Rightarrow> Some e)"

text \<open>The merge of a freed fragment with its free neighbours: the address of the resulting fragment and the new state.\<close>

definition merge_free :: "nat \<Rightarrow> rdma_frag \<Rightarrow> rdma_allocator \<Rightarrow> nat \<times> rdma_allocator" where
  "merge_free buf frag a =
     (let fs = rdma_frags a;
          back = (case prev_frag buf fs of
            Some (pb, p) \<Rightarrow> if fr_free p \<and> fr_rgn p = fr_rgn frag \<and> pb + fr_len p = buf then Some (pb, p) else None
          | None \<Rightarrow> None);
          fwd = (case next_frag buf fs of
            Some (nb, n) \<Rightarrow> if fr_free n \<and> fr_rgn n = fr_rgn frag \<and> nb = buf + fr_len frag then Some (nb, n) else None
          | None \<Rightarrow> None)
      in case (back, fwd) of
           (Some (pb, p), Some (nb, n)) \<Rightarrow>
             (pb, a\<lparr>rdma_freelist := free_erase (fr_len n, nb) (rdma_freelist a),
                    rdma_frags := omap_erase buf (omap_erase nb (omap_put pb (p\<lparr>fr_len := fr_len p + fr_len frag + fr_len n\<rparr>) fs))\<rparr>)
         | (Some (pb, p), None) \<Rightarrow>
             (pb, a\<lparr>rdma_frags := omap_erase buf (omap_put pb (p\<lparr>fr_len := fr_len p + fr_len frag\<rparr>) fs)\<rparr>)
         | (None, Some (nb, n)) \<Rightarrow>
             (buf, a\<lparr>rdma_freelist := free_erase (fr_len n, nb) (rdma_freelist a),
                     rdma_frags := omap_erase nb (omap_put buf (frag\<lparr>fr_free := True, fr_len := fr_len frag + fr_len n\<rparr>) fs)\<rparr>)
         | (None, None) \<Rightarrow>
             (buf, a\<lparr>rdma_freelist := free_insert (fr_len frag, buf) (rdma_freelist a),
                     rdma_frags := omap_put buf (frag\<lparr>fr_free := True\<rparr>) fs\<rparr>))"

definition rdma_malloc_free :: "nat \<Rightarrow> rdma_allocator \<Rightarrow> rdma_allocator option" where
  "rdma_malloc_free buf a =
     (case omap_get (rdma_frags a) buf of
        None \<Rightarrow> Some a
      | Some frag \<Rightarrow> (case merge_free buf frag a of (buf, a) \<Rightarrow> do {
          frag \<leftarrow> omap_get (rdma_frags a) buf;
          rgn \<leftarrow> omap_get (rdma_regions a) (fr_rgn frag);
          if \<not> fr_len frag \<le> rg_len rgn then None
          else if fr_len frag = rg_len rgn
          then
            let a = a\<lparr>rdma_freebuffers := rdma_freebuffers a + of_nat (rg_len rgn)\<rparr>
            in if rdma_freebuffers a > of_nat (rdma_max_unused a)
               then rdma_malloc_free_unused_buffers (rdma_max_unused a) False a else Some a
          else Some a
        }))"

definition rdma_malloc_get_lkey :: "nat \<Rightarrow> rdma_allocator \<Rightarrow> u32 option" where
  "rdma_malloc_get_lkey buf a =
     (let l = omap_before (buf + 1) (rdma_frags a) in
      if l \<noteq> [] \<and> fst (last l) + fr_len (snd (last l)) > buf
      then map_option rg_lkey (omap_get (rdma_regions a) (fr_rgn (snd (last l)))) else None)"

section \<open>Fragments\<close>

text \<open>The fragments are not empty, lie in the memory of their regions and do not overlap. \<open>F\<close> and \<open>G\<close> are the maps of
  fragments and of regions.\<close>

definition frag_in :: "(nat \<Rightarrow> rdma_region option) \<Rightarrow> nat \<Rightarrow> rdma_frag \<Rightarrow> bool" where
  "frag_in G b f \<longleftrightarrow> 0 < fr_len f \<and>
     (case G (fr_rgn f) of None \<Rightarrow> False | Some g \<Rightarrow> rg_buf g \<le> b \<and> b + fr_len f \<le> rg_buf g + rg_len g)"

definition frags_ok :: "(nat \<Rightarrow> rdma_frag option) \<Rightarrow> (nat \<Rightarrow> rdma_region option) \<Rightarrow> bool" where
  "frags_ok F G \<longleftrightarrow> (\<forall>b f. F b = Some f \<longrightarrow> frag_in G b f) \<and>
     (\<forall>b f c g. F b = Some f \<longrightarrow> F c = Some g \<longrightarrow> b < c \<longrightarrow> b + fr_len f \<le> c)"

definition rdma_inv :: "rdma_allocator \<Rightarrow> bool" where
  "rdma_inv a \<longleftrightarrow> 0 < rdma_alloc_size a \<and> omap_wf (rdma_frags a) \<and> omap_wf (rdma_regions a) \<and>
     frags_ok (omap_get (rdma_frags a)) (omap_get (rdma_regions a))"

definition free_of :: "(nat \<Rightarrow> rdma_frag option) \<Rightarrow> nat set" where
  "free_of F = {x. \<exists>b f. F b = Some f \<and> fr_free f \<and> b \<le> x \<and> x < b + fr_len f}"

abbreviation free_bytes :: "rdma_allocator \<Rightarrow> nat set" where
  "free_bytes a \<equiv> free_of (omap_get (rdma_frags a))"

definition region_of :: "(nat \<Rightarrow> rdma_region option) \<Rightarrow> nat set" where
  "region_of G = {x. \<exists>r g. G r = Some g \<and> rg_buf g \<le> x \<and> x < rg_buf g + rg_len g}"

abbreviation region_bytes :: "rdma_allocator \<Rightarrow> nat set" where
  "region_bytes a \<equiv> region_of (omap_get (rdma_regions a))"

lemma frags_okD:
  assumes "frags_ok F G"
  shows "F b = Some f \<Longrightarrow> frag_in G b f" "F b = Some f \<Longrightarrow> 0 < fr_len f"
    "F b = Some f \<Longrightarrow> F c = Some g \<Longrightarrow> b < c \<Longrightarrow> b + fr_len f \<le> c"
  using assms by (auto simp: frags_ok_def frag_in_def)

lemma frag_apart:
  assumes "frags_ok F G" "F b = Some f" "F c = Some g" "b \<noteq> c"
  shows "b + fr_len f \<le> c \<or> c + fr_len g \<le> b"
  using frags_okD(3) [OF assms(1)] assms(2-4) by (meson linorder_less_linear)

lemma frag_in_region:
  assumes "frags_ok F G" "F b = Some f" "b \<le> x" "x < b + fr_len f"
  shows "x \<in> region_of G"
  using frags_okD(1) [OF assms(1,2)] assms(3,4) by (force simp: frag_in_def region_of_def split: option.splits)

lemma frag_in_used [simp]: "frag_in G b (f\<lparr>fr_free := u\<rparr>) = frag_in G b f"
  by (simp add: frag_in_def split: option.splits)

lemma free_ofI: "F b = Some f \<Longrightarrow> fr_free f \<Longrightarrow> b \<le> x \<Longrightarrow> x < b + fr_len f \<Longrightarrow> x \<in> free_of F"
  by (auto simp: free_of_def)

lemma free_ofE:
  assumes "x \<in> free_of F"
  obtains b f where "F b = Some f" "fr_free f" "b \<le> x" "x < b + fr_len f"
  using assms by (auto simp: free_of_def)

lemma free_of_new:
  assumes "F n = None" "fr_free h"
  shows "free_of (F(n \<mapsto> h)) = free_of F \<union> {n..<n + fr_len h}"
proof (intro set_eqI iffI)
  fix x assume "x \<in> free_of (F(n \<mapsto> h))"
  then obtain b f where "(F(n \<mapsto> h)) b = Some f" "fr_free f" "b \<le> x" "x < b + fr_len f" by (rule free_ofE)
  then show "x \<in> free_of F \<union> {n..<n + fr_len h}" by (cases "b = n") (auto intro: free_ofI)
next
  fix x assume "x \<in> free_of F \<union> {n..<n + fr_len h}"
  then show "x \<in> free_of (F(n \<mapsto> h))"
  proof
    assume "x \<in> free_of F"
    then obtain b f where b: "F b = Some f" "fr_free f" "b \<le> x" "x < b + fr_len f" by (rule free_ofE)
    then have "(F(n \<mapsto> h)) b = Some f" using assms(1) by auto
    then show ?thesis using b(2-4) by (rule free_ofI)
  next
    assume "x \<in> {n..<n + fr_len h}"
    then show ?thesis using assms(2) by (intro free_ofI [of _ n h]) simp_all
  qed
qed

lemma region_ofI: "G r = Some g \<Longrightarrow> rg_buf g \<le> x \<Longrightarrow> x < rg_buf g + rg_len g \<Longrightarrow> x \<in> region_of G"
  by (auto simp: region_of_def)

lemma region_of_new:
  assumes "G r = None"
  shows "region_of (G(r \<mapsto> g)) = region_of G \<union> {rg_buf g..<rg_buf g + rg_len g}"
proof (intro set_eqI iffI)
  fix x assume "x \<in> region_of (G(r \<mapsto> g))"
  then obtain b f where "(G(r \<mapsto> g)) b = Some f" "rg_buf f \<le> x" "x < rg_buf f + rg_len f" by (auto simp: region_of_def)
  then show "x \<in> region_of G \<union> {rg_buf g..<rg_buf g + rg_len g}" by (cases "b = r") (auto intro: region_ofI)
next
  fix x assume "x \<in> region_of G \<union> {rg_buf g..<rg_buf g + rg_len g}"
  then show "x \<in> region_of (G(r \<mapsto> g))"
  proof
    assume "x \<in> region_of G"
    then obtain b f where b: "G b = Some f" "rg_buf f \<le> x" "x < rg_buf f + rg_len f" by (auto simp: region_of_def)
    then have "(G(r \<mapsto> g)) b = Some f" using assms by auto
    then show ?thesis using b(2,3) by (rule region_ofI)
  next
    assume "x \<in> {rg_buf g..<rg_buf g + rg_len g}"
    then show ?thesis by (intro region_ofI [of _ r g]) simp_all
  qed
qed

text \<open>Taking a whole free fragment.\<close>

lemma take_whole:
  assumes ok: "frags_ok F G" and f: "F b = Some f" "fr_free f"
  defines "F' \<equiv> F(b \<mapsto> f\<lparr>fr_free := False\<rparr>)"
  shows "frags_ok F' G" "free_of F' = free_of F - {b..<b + fr_len f}"
proof -
  show "frags_ok F' G"
    using ok f by (auto simp: frags_ok_def F'_def split: if_splits)
  show "free_of F' = free_of F - {b..<b + fr_len f}"
  proof (intro set_eqI iffI)
    fix x assume "x \<in> free_of F'"
    then obtain c g where c: "F' c = Some g" "fr_free g" "c \<le> x" "x < c + fr_len g" by (rule free_ofE)
    then have "c \<noteq> b" "F c = Some g" by (auto simp: F'_def split: if_splits)
    then show "x \<in> free_of F - {b..<b + fr_len f}"
      using frag_apart [OF ok f(1)] c by (fastforce intro: free_ofI)
  next
    fix x assume x: "x \<in> free_of F - {b..<b + fr_len f}"
    then obtain c g where c: "F c = Some g" "fr_free g" "c \<le> x" "x < c + fr_len g" by (blast elim: free_ofE)
    then have "c \<noteq> b" using x f by auto
    then have "F' c = Some g" using c(1) by (simp add: F'_def)
    then show "x \<in> free_of F'" using c(2-4) by (rule free_ofI)
  qed
qed

text \<open>Taking the end of a free fragment.\<close>

lemma take_part:
  assumes ok: "frags_ok F G" and f: "F b = Some f" "fr_free f" and sz: "0 < sz" "sz < fr_len f"
  defines "p \<equiv> b + (fr_len f - sz)"
  defines "F' \<equiv> F(b \<mapsto> f\<lparr>fr_len := fr_len f - sz\<rparr>, p \<mapsto> \<lparr>fr_rgn = fr_rgn f, fr_len = sz, fr_free = False\<rparr>)"
  shows "F p = None" "frags_ok F' G" "free_of F' = free_of F - {p..<p + sz}"
proof -
  have p: "b < p" "p + sz = b + fr_len f" using sz by (simp_all add: p_def)
  show none: "F p = None"
    using frags_okD(3) [OF ok f(1), of p] p sz by (cases "F p") auto
  have other: "c + fr_len g \<le> b \<or> p + sz \<le> c" if "F c = Some g" "c \<noteq> b" for c g
    using frag_apart [OF ok f(1) that(1)] that(2) p(2) by auto
  have F': "F' c = (if c = p then Some \<lparr>fr_rgn = fr_rgn f, fr_len = sz, fr_free = False\<rparr>
      else if c = b then Some (f\<lparr>fr_len := fr_len f - sz\<rparr>) else F c)" for c
    by (simp add: F'_def)
  have "frag_in G c g" if "F' c = Some g" for c g
    using that frags_okD(1) [OF ok, of c g] frags_okD(1) [OF ok f(1)] p sz unfolding F'
    by (auto simp: frag_in_def p_def split: if_splits option.splits)
  moreover have "c + fr_len g \<le> d" if "F' c = Some g" "F' d = Some h" "c < d" for c g d h
  proof -
    have "c = p \<or> c = b \<or> c \<noteq> p \<and> c \<noteq> b \<and> F c = Some g" using that(1) unfolding F' by (auto split: if_splits)
    then consider "c = p" | "c = b" | "c \<noteq> p" "c \<noteq> b" "F c = Some g" by blast
    then show ?thesis
    proof cases
      case 1
      then have "F d = Some h" "d \<noteq> b" "fr_len g = sz" using that p(1) unfolding F' by (auto split: if_splits)
      then show ?thesis using other [of d h] 1 that(3) p(1) by auto
    next
      case 2
      then have g: "fr_len g = fr_len f - sz" using that(1) p(1) unfolding F' by (auto split: if_splits)
      show ?thesis
      proof (cases "d = p")
        case True
        then show ?thesis using 2 g p_def by simp
      next
        case False
        then have "F d = Some h" using that(2,3) 2 unfolding F' by (auto split: if_splits)
        then show ?thesis using other [of d h] that(3) 2 g p by auto
      qed
    next
      case 3
      show ?thesis
      proof (cases "d = p \<or> d = b")
        case True
        then show ?thesis using other [OF 3(3,2)] that(3) p by auto
      next
        case False
        then have "F d = Some h" using that(2) unfolding F' by simp
        then show ?thesis using frags_okD(3) [OF ok 3(3)] that(3) by blast
      qed
    qed
  qed
  ultimately show "frags_ok F' G" by (simp add: frags_ok_def)
  show "free_of F' = free_of F - {p..<p + sz}"
  proof (intro set_eqI iffI)
    fix x assume "x \<in> free_of F'"
    then obtain c g where c: "F' c = Some g" "fr_free g" "c \<le> x" "x < c + fr_len g" by (rule free_ofE)
    then have "c \<noteq> p" unfolding F' by auto
    show "x \<in> free_of F - {p..<p + sz}"
    proof (cases "c = b")
      case True
      then have "x < p" using c \<open>c \<noteq> p\<close> unfolding F' by (auto simp: p_def)
      then show ?thesis using True c(3) p f free_ofI [of F b f x] by simp
    next
      case False
      then have g: "F c = Some g" using c(1) \<open>c \<noteq> p\<close> unfolding F' by simp
      then show ?thesis using other [OF g False] c(2-4) p(1) free_ofI [of F c g x] by auto
    qed
  next
    fix x assume x: "x \<in> free_of F - {p..<p + sz}"
    then obtain c g where c: "F c = Some g" "fr_free g" "c \<le> x" "x < c + fr_len g" by (blast elim: free_ofE)
    show "x \<in> free_of F'"
    proof (cases "c = b")
      case True
      then have "g = f" using c(1) f(1) by simp
      then have "x < p" using x c(4) True p(2) by auto
      moreover have "F' b = Some (f\<lparr>fr_len := fr_len f - sz\<rparr>)" using p(1) unfolding F' by simp
      ultimately show ?thesis using c(3) True f(2) free_ofI [of F' b "f\<lparr>fr_len := fr_len f - sz\<rparr>" x] by (simp add: p_def)
    next
      case False
      then have "F' c = Some g" using c(1) none unfolding F' by auto
      then show ?thesis using c(2-4) by (rule free_ofI)
    qed
  qed
qed

section \<open>Allocation\<close>

text \<open>What an allocation of \<open>sz\<close> bytes at \<open>ptr\<close> does to the fragments.\<close>

definition allocated :: "nat \<Rightarrow> nat \<Rightarrow> nat set \<Rightarrow> rdma_allocator \<Rightarrow> rdma_allocator \<Rightarrow> bool" where
  "allocated sz ptr free a a' \<longleftrightarrow> rdma_inv a' \<and>
     (\<exists>f. omap_get (rdma_frags a') ptr = Some f \<and> fr_len f = sz \<and> \<not> fr_free f) \<and>
     {ptr..<ptr + sz} \<subseteq> free \<and> free_bytes a' = free - {ptr..<ptr + sz} \<and>
     (\<forall>b f. omap_get (rdma_frags a) b = Some f \<and> \<not> fr_free f \<longrightarrow>
        omap_get (rdma_frags a') b = Some f \<and> (b + fr_len f \<le> ptr \<or> ptr + sz \<le> b))"

lemma take_fragment_allocated:
  assumes inv: "rdma_inv a" and t: "take_fragment sz it a = Some (ptr, a')" and sz: "0 < sz"
  shows "allocated sz ptr (free_bytes a) a a' \<and> rdma_regions a' = rdma_regions a"
proof -
  let ?F = "omap_get (rdma_frags a)" and ?G = "omap_get (rdma_regions a)" and ?b = "snd it"
  have wf: "omap_wf (rdma_frags a)" "omap_wf (rdma_regions a)" "frags_ok ?F ?G" "0 < rdma_alloc_size a"
    using inv by (simp_all add: rdma_inv_def)
  obtain f where f: "?F ?b = Some f" "fr_free f" "sz \<le> fr_len f"
    using t by (auto simp: take_fragment_def Let_def split: Option.bind_splits if_splits)
  have sub: "{?b..<?b + fr_len f} \<subseteq> free_bytes a" using f(1,2) unfolding free_of_def by fastforce
  show ?thesis
  proof (cases "fr_len f = sz")
    case True
    have a': "ptr = ?b" "rdma_frags a' = omap_put ?b (f\<lparr>fr_free := False\<rparr>) (rdma_frags a)"
      "rdma_regions a' = rdma_regions a" "rdma_alloc_size a' = rdma_alloc_size a"
      using t f True by (auto simp: take_fragment_def Let_def split: Option.bind_splits if_splits)
    have F': "omap_get (rdma_frags a') = ?F(?b \<mapsto> f\<lparr>fr_free := False\<rparr>)"
      unfolding a'(2) by (rule omap_get_put [OF wf(1)])
    have "b + fr_len g \<le> ptr \<or> ptr + sz \<le> b" if "?F b = Some g" "\<not> fr_free g" for b g
    proof -
      have "b \<noteq> ?b" using that f by auto
      then show ?thesis using frag_apart [OF wf(3) that(1) f(1)] a'(1) True by auto
    qed
    then show ?thesis
      using take_whole [OF wf(3) f(1,2)] wf f True sub a'
      unfolding allocated_def rdma_inv_def F' by (auto simp: omap_put_wf)
  next
    case False
    then have lt: "sz < fr_len f" using f(3) by simp
    let ?p = "?b + (fr_len f - sz)"
    let ?f1 = "f\<lparr>fr_len := fr_len f - sz\<rparr>" and ?f2 = "\<lparr>fr_rgn = fr_rgn f, fr_len = sz, fr_free = False\<rparr>"
    have a': "ptr = ?p" "rdma_frags a' = omap_put ?p ?f2 (omap_put ?b ?f1 (rdma_frags a))"
      "rdma_regions a' = rdma_regions a" "rdma_alloc_size a' = rdma_alloc_size a"
      using t f False by (auto simp: take_fragment_def Let_def split: Option.bind_splits if_splits)
    have F': "omap_get (rdma_frags a') = ?F(?b \<mapsto> ?f1, ?p \<mapsto> ?f2)"
      unfolding a'(2) by (simp add: omap_get_put wf(1) omap_put_wf)
    note tp = take_part [OF wf(3) f(1,2) sz lt]
    have other: "?F b = Some g \<and> \<not> fr_free g \<longrightarrow> omap_get (rdma_frags a') b = Some g \<and> (b + fr_len g \<le> ptr \<or> ptr + sz \<le> b)" for b g
    proof
      assume g: "?F b = Some g \<and> \<not> fr_free g"
      then have ne: "b \<noteq> ?b" "b \<noteq> ?p" using f tp(1) by auto
      then show "omap_get (rdma_frags a') b = Some g \<and> (b + fr_len g \<le> ptr \<or> ptr + sz \<le> b)"
        using frag_apart [OF wf(3) conjunct1 [OF g] f(1)] lt unfolding F' a'(1) using g by auto
    qed
    have "{ptr..<ptr + sz} \<subseteq> free_bytes a" using lt unfolding a'(1) by (intro order_trans [OF _ sub]) auto
    then show ?thesis
      using tp wf other a' unfolding allocated_def rdma_inv_def F' by (auto simp: omap_put_wf)
  qed
qed

text \<open>The C library returns memory that does not overlap the regions allocated before.\<close>

definition region_size :: "nat \<Rightarrow> rdma_allocator \<Rightarrow> nat" where
  "region_size sz a = ((sz + rdma_alloc_size a - 1) div rdma_alloc_size a) * rdma_alloc_size a"

definition fresh_region :: "nat \<Rightarrow> nat \<Rightarrow> rdma_allocator \<Rightarrow> bool" where
  "fresh_region sz r a \<longleftrightarrow> omap_get (rdma_regions a) r = None \<and>
     {r + region_header..<r + region_header + region_size sz a} \<inter> region_bytes a = {}"

lemma region_size_ge: "0 < rdma_alloc_size a \<Longrightarrow> sz \<le> region_size sz a"
proof -
  assume A: "0 < rdma_alloc_size a"
  let ?A = "rdma_alloc_size a"
  have "sz + ?A - 1 = region_size sz a + (sz + ?A - 1) mod ?A" by (simp add: region_size_def)
  moreover have "(sz + ?A - 1) mod ?A < ?A" using A by simp
  ultimately show ?thesis using A by linarith
qed

lemma add_region_fragment:
  assumes inv: "rdma_inv a" and add: "add_region sz r mr a = Some (it, a1)" and fresh: "fresh_region sz r a" and sz: "0 < sz"
  defines "N \<equiv> {r + region_header..<r + region_header + region_size sz a}"
  shows "rdma_inv a1" "free_bytes a1 = free_bytes a \<union> N" "region_bytes a1 = region_bytes a \<union> N" "N \<inter> region_bytes a = {}"
    "\<And>b f. omap_get (rdma_frags a) b = Some f \<Longrightarrow> omap_get (rdma_frags a1) b = Some f"
proof -
  let ?F = "omap_get (rdma_frags a)" and ?G = "omap_get (rdma_regions a)" and ?n = "r + region_header" and ?l = "region_size sz a"
  have wf: "omap_wf (rdma_frags a)" "omap_wf (rdma_regions a)" "frags_ok ?F ?G" "0 < rdma_alloc_size a"
    using inv by (simp_all add: rdma_inv_def)
  have l: "0 < ?l" using region_size_ge [OF wf(4), of sz] sz by simp
  obtain key where a1: "rdma_regions a1 = omap_put r \<lparr>rg_buf = ?n, rg_len = ?l, rg_lkey = key\<rparr> (rdma_regions a)"
    "rdma_frags a1 = omap_put ?n \<lparr>fr_rgn = r, fr_len = ?l, fr_free = True\<rparr> (rdma_frags a)" "rdma_alloc_size a1 = rdma_alloc_size a"
    using add by (auto simp: add_region_def Let_def region_size_def)
  define g where "g = \<lparr>rg_buf = ?n, rg_len = ?l, rg_lkey = key\<rparr>"
  define h where "h = \<lparr>fr_rgn = r, fr_len = ?l, fr_free = True\<rparr>"
  have G1: "omap_get (rdma_regions a1) = ?G(r \<mapsto> g)" unfolding a1(1) g_def by (rule omap_get_put [OF wf(2)])
  have F1: "omap_get (rdma_frags a1) = ?F(?n \<mapsto> h)" unfolding a1(2) h_def by (rule omap_get_put [OF wf(1)])
  have Gr: "?G r = None" and dis: "N \<inter> region_of ?G = {}" using fresh by (simp_all add: fresh_region_def N_def)
  have out: "b + fr_len f \<le> ?n \<or> ?n + ?l \<le> b" if "?F b = Some f" for b f
  proof (rule ccontr)
    assume "\<not> (b + fr_len f \<le> ?n \<or> ?n + ?l \<le> b)"
    then have "max b ?n \<in> N" "b \<le> max b ?n" "max b ?n < b + fr_len f"
      using l frags_okD(2) [OF wf(3) that] by (auto simp: N_def)
    then show False using frag_in_region [OF wf(3) that] dis by blast
  qed
  have Fn: "?F ?n = None"
    using out [of ?n] frags_okD(2) [OF wf(3), of ?n] l by (cases "?F ?n") auto
  have "frags_ok (?F(?n \<mapsto> h)) (?G(r \<mapsto> g))"
    unfolding frags_ok_def
  proof (intro conjI allI impI)
    fix b f assume "(?F(?n \<mapsto> h)) b = Some f"
    then show "frag_in (?G(r \<mapsto> g)) b f"
      using frags_okD(1) [OF wf(3), of b f] l Gr by (auto simp: frag_in_def h_def g_def split: if_splits option.splits)
  next
    fix b f c f' assume "(?F(?n \<mapsto> h)) b = Some f" "(?F(?n \<mapsto> h)) c = Some f'" "b < c"
    then show "b + fr_len f \<le> c"
      using frags_okD(3) [OF wf(3), of b f c f'] out [of b f] out [of c f'] l by (auto simp: h_def split: if_splits)
  qed
  then show "rdma_inv a1"
    using wf a1 unfolding rdma_inv_def G1 F1 by (simp add: omap_put_wf)
  show "free_bytes a1 = free_bytes a \<union> N"
    using free_of_new [where F = ?F and n = ?n and h = h] Fn unfolding F1 by (simp add: N_def h_def)
  show "region_bytes a1 = region_bytes a \<union> N"
    using region_of_new [where G = ?G and r = r and g = g] Gr unfolding G1 by (simp add: N_def g_def)
  show "N \<inter> region_bytes a = {}" by (rule dis)
  show "omap_get (rdma_frags a1) b = Some f" if "?F b = Some f" for b f
    unfolding F1 using that Fn by auto
qed

section \<open>Properties\<close>

text \<open>C30: an allocation that succeeds hands out memory nobody else uses. It keeps the fragments inside their regions and apart from
  each other. The bytes of the new buffer were free before or lie in a region added for it; afterwards it is recorded as a used fragment of
  the requested size, the free bytes are those from before and of the new region without the buffer, and every fragment that was in use
  is unchanged and does not overlap it.\<close>

theorem rdma_alloc_fragment:
  assumes "rdma_inv a" "0 < sz" "fresh_region sz r a" "rdma_malloc_alloc sz r mr a = Some (ptr, a')"
  shows "rdma_inv a' \<and> (\<exists>f. omap_get (rdma_frags a') ptr = Some f \<and> fr_len f = sz \<and> \<not> fr_free f) \<and>
    (let avail = free_bytes a \<union> (region_bytes a' - region_bytes a)
     in {ptr..<ptr + sz} \<subseteq> avail \<and> free_bytes a' = avail - {ptr..<ptr + sz}) \<and>
    (\<forall>b f. omap_get (rdma_frags a) b = Some f \<and> \<not> fr_free f \<longrightarrow>
       omap_get (rdma_frags a') b = Some f \<and> (b + fr_len f \<le> ptr \<or> ptr + sz \<le> b))"
proof -
  have "allocated sz ptr (free_bytes a \<union> (region_bytes a' - region_bytes a)) a a'"
  proof (cases "List.find (\<lambda>e. \<not> rdma_free_lt e (sz, 0)) (rdma_freelist a)")
    case None
    then obtain it a1 where a1: "add_region sz r mr a = Some (it, a1)" "take_fragment sz it a1 = Some (ptr, a')"
      using assms(4) by (auto simp: rdma_malloc_alloc_def split: Option.bind_splits)
    note add = add_region_fragment [OF assms(1) a1(1) assms(3,2)]
    have t: "allocated sz ptr (free_bytes a1) a1 a'" "rdma_regions a' = rdma_regions a1"
      using take_fragment_allocated [OF add(1) a1(2) assms(2)] by simp_all
    have "free_bytes a1 = free_bytes a \<union> (region_bytes a' - region_bytes a)"
      using add(2-4) unfolding t(2) by blast
    then show ?thesis using t(1) add(5) unfolding allocated_def by simp
  next
    case (Some it)
    then have "take_fragment sz it a = Some (ptr, a')" using assms(4) by (simp add: rdma_malloc_alloc_def)
    then show ?thesis using take_fragment_allocated [OF assms(1) _ assms(2)] by simp
  qed
  then show ?thesis unfolding allocated_def Let_def by blast
qed

text \<open>A region of 16 bytes with two used fragments and a free one at its end, and how it comes about.\<close>

definition half_free :: rdma_allocator where
  "half_free =
     \<lparr>rdma_alloc_size = 16, rdma_max_unused = 64, rdma_regions = [(100, \<lparr>rg_buf = 124, rg_len = 16, rg_lkey = 7\<rparr>)],
      rdma_frags = [(124, \<lparr>fr_rgn = 100, fr_len = 8, fr_free = False\<rparr>), (132, \<lparr>fr_rgn = 100, fr_len = 4, fr_free = False\<rparr>),
        (136, \<lparr>fr_rgn = 100, fr_len = 4, fr_free = True\<rparr>)],
      rdma_freelist = [(4, 136)], rdma_freebuffers = 0\<rparr>"

lemma half_free_reached:
  "do {
     (p, a) \<leftarrow> rdma_malloc_alloc 4 100 (Some 7) (rdma_malloc_create 16 64);
     (q, a) \<leftarrow> rdma_malloc_alloc 4 0 None a;
     (s, a) \<leftarrow> rdma_malloc_alloc 8 0 None a;
     rdma_malloc_free p a
   } = Some half_free"
  by code_simp

lemma half_free_get:
  "omap_get (rdma_frags half_free) b = Some f \<longleftrightarrow>
    b = 124 \<and> f = \<lparr>fr_rgn = 100, fr_len = 8, fr_free = False\<rparr> \<or> b = 132 \<and> f = \<lparr>fr_rgn = 100, fr_len = 4, fr_free = False\<rparr> \<or>
    b = 136 \<and> f = \<lparr>fr_rgn = 100, fr_len = 4, fr_free = True\<rparr>"
  by (auto simp: half_free_def omap_get_def)

lemma half_free_inv: "rdma_inv half_free"
proof -
  have "omap_get (rdma_regions half_free) 100 = Some \<lparr>rg_buf = 124, rg_len = 16, rg_lkey = 7\<rparr>"
    by (simp add: half_free_def omap_get_def)
  then have "frags_ok (omap_get (rdma_frags half_free)) (omap_get (rdma_regions half_free))"
    unfolding frags_ok_def frag_in_def half_free_get by auto
  then show ?thesis by (simp add: rdma_inv_def) (simp add: half_free_def omap_wf_def)
qed

theorem rdma_alloc_fragment_witness:
  "\<exists>a'. rdma_malloc_alloc 3 0 None half_free = Some (137, a') \<and> rdma_inv a' \<and> free_bytes a' = free_bytes half_free - {137..<140}"
proof -
  have "map_option fst (rdma_malloc_alloc 3 0 None half_free) = Some 137" by code_simp
  then obtain a' where a': "rdma_malloc_alloc 3 0 None half_free = Some (137, a')" by auto
  have s: "region_size 3 half_free = 16" by (simp add: region_size_def half_free_def)
  have "region_bytes half_free = {124..<140}"
    by (auto simp: region_of_def half_free_def omap_get_def split: if_splits)
  then have "fresh_region 3 0 half_free"
    unfolding fresh_region_def s by (simp add: half_free_def omap_get_def region_header_def)
  note r = rdma_alloc_fragment [OF half_free_inv _ this a']
  have "rdma_regions a' = rdma_regions half_free"
  proof -
    have "map_option (\<lambda>(p, a). rdma_regions a) (rdma_malloc_alloc 3 0 None half_free) = Some (rdma_regions half_free)" by code_simp
    then show ?thesis using a' by simp
  qed
  then show ?thesis using r a' by (simp add: Let_def)
qed

section \<open>A lost fragment\<close>







end
