(* ===== verification/Scrub_Props.thy ===== *)
theory Scrub_Props
  imports Rmw_Scrub
begin

text \<open>
  The subsets the scrub search goes through: from the first one \<open>next_combination\<close> reaches every subset
  of the given size exactly once, in lexicographic order, and \<open>c_n_k\<close> is their number as long as its
  product fits 64 bits.
\<close>

section \<open>One step\<close>

definition combination :: "nat \<Rightarrow> nat \<Rightarrow> nat list \<Rightarrow> bool" where
  "combination k n s = (length s = k \<and> sorted_wrt (<) s \<and> set s \<subseteq> {..<n})"

lemma next_combination_pos_spec:
  assumes "p < k" "length s = k"
  shows "case next_combination_pos s k n p of
      (r, None) \<Rightarrow> \<forall>j\<le>p. n + j < s ! j + 1 + k
    | (r, Some q) \<Rightarrow> q \<le> p \<and> s ! q + k + 1 \<le> n + q \<and> (\<forall>j. q < j \<and> j \<le> p \<longrightarrow> n + j < s ! j + 1 + k)
        \<and> length r = k \<and> (\<forall>i<q. r ! i = s ! i) \<and> r ! q = s ! q + 1"
  using assms
proof (induction p arbitrary: s)
  case 0
  then show ?case by (subst next_combination_pos.simps) (auto simp: Let_def)
next
  case (Suc p)
  show ?case
  proof (cases "int (s ! Suc p + 1) \<ge> int n - (int k - 1 - int (Suc p))")
    case True
    let ?s = "s[Suc p := s ! Suc p + 1]"
    have step: "next_combination_pos s k n (Suc p) = next_combination_pos ?s k n p"
      using True Suc.prems by (subst next_combination_pos.simps) (simp add: Let_def)
    have last: "n + Suc p < s ! Suc p + 1 + k"
      using True Suc.prems by linarith
    have old: "?s ! j = s ! j" if "j \<le> p" for j
      using that by simp
    show ?thesis
      using Suc.IH [of ?s] Suc.prems last
      by (auto simp: step old le_Suc_eq split: prod.splits option.splits)
  next
    case False
    then have "next_combination_pos s k n (Suc p) = (s[Suc p := s ! Suc p + 1], Some (Suc p))"
      using Suc.prems by (subst next_combination_pos.simps) (simp add: Let_def)
    moreover have "s ! Suc p + k + 1 \<le> n + Suc p"
      using False Suc.prems by linarith
    ultimately show ?thesis
      using Suc.prems by simp
  qed
qed

lemma fill_spec:
  assumes "q < m" "m \<le> length s"
  shows "let r = fold (\<lambda>p s. s[p := s ! (p - 1) + 1]) [q + 1..<m] s
    in length r = length s \<and> (\<forall>i<q. r ! i = s ! i) \<and> (\<forall>i. q \<le> i \<and> i < m \<longrightarrow> r ! i = s ! q + (i - q))"
  using assms
proof (induction m)
  case 0
  then show ?case by simp
next
  case (Suc m)
  show ?case
  proof (cases "q = m")
    case True
    then show ?thesis by (auto simp: Let_def le_less_Suc_eq)
  next
    case False
    then have "q < m" using Suc.prems by simp
    moreover have "[q + 1..<Suc m] = [q + 1..<m] @ [m]"
      using \<open>q < m\<close> by (simp add: upt_Suc_append)
    ultimately show ?thesis
      using Suc by (auto simp: Let_def nth_list_update less_Suc_eq)
  qed
qed

lemma next_combination_True:
  assumes "next_combination s k n = (r, True)" "0 < k" "length s = k"
  obtains q where "q < k" "s ! q + k + 1 \<le> n + q" "\<forall>j. q < j \<and> j < k \<longrightarrow> n + j < s ! j + 1 + k"
    "length r = k" "\<forall>i<q. r ! i = s ! i" "\<forall>i. q \<le> i \<and> i < k \<longrightarrow> r ! i = s ! q + 1 + (i - q)"
proof -
  obtain t q where p: "next_combination_pos s k n (k - 1) = (t, Some q)"
    and r: "r = fold (\<lambda>p s. s[p := s ! (p - 1) + 1]) [q + 1..<k] t"
    using assms(1) by (auto simp: next_combination_def split: prod.splits option.splits)
  have a: "q \<le> k - 1" "s ! q + k + 1 \<le> n + q" "\<forall>j. q < j \<and> j \<le> k - 1 \<longrightarrow> n + j < s ! j + 1 + k"
    "length t = k" "\<forall>i<q. t ! i = s ! i" "t ! q = s ! q + 1"
    using next_combination_pos_spec [of "k - 1" k s n] assms(2,3) unfolding p by simp_all
  have "q < k" using a(1) assms(2) by simp
  have b: "length r = k" "\<forall>i<q. r ! i = t ! i" "\<forall>i. q \<le> i \<and> i < k \<longrightarrow> r ! i = t ! q + (i - q)"
    using fill_spec [of q k t] \<open>q < k\<close> a(4) by (simp_all add: r Let_def)
  show thesis
  proof (rule that [of q])
    have "j \<le> k - 1" if "j < k" for j using that by simp
    then show "\<forall>j. q < j \<and> j < k \<longrightarrow> n + j < s ! j + 1 + k" using a(3) by blast
  qed (use a b \<open>q < k\<close> in simp_all)
qed

lemma next_combination_False:
  assumes "next_combination s k n = (r, False)" "0 < k" "length s = k" "j < k"
  shows "n + j < s ! j + 1 + k"
proof -
  obtain t where p: "next_combination_pos s k n (k - 1) = (t, None)"
    using assms(1) by (auto simp: next_combination_def split: prod.splits option.splits)
  show ?thesis
    using next_combination_pos_spec [of "k - 1" k s n] assms(2-4) unfolding p by simp
qed

section \<open>Lexicographic order\<close>

definition comb_less :: "nat list \<Rightarrow> nat list \<Rightarrow> bool" where
  "comb_less s t = (\<exists>q<length s. (\<forall>i<q. s ! i = t ! i) \<and> s ! q < t ! q)"

lemma comb_lessI: "q < length s \<Longrightarrow> \<forall>i<q. s ! i = t ! i \<Longrightarrow> s ! q < t ! q \<Longrightarrow> comb_less s t"
  by (auto simp: comb_less_def)

lemma comb_less_or_eq:
  assumes "length s = length t" "p \<le> length s" "\<forall>i<p. s ! i = t ! i" "\<forall>i. p \<le> i \<and> i < length s \<longrightarrow> s ! i \<le> t ! i"
  shows "s = t \<or> comb_less s t"
proof (cases "s = t")
  case False
  then have "\<exists>i<length s. s ! i \<noteq> t ! i"
    using assms(1) by (auto simp: list_eq_iff_nth_eq)
  then obtain q where q: "q < length s \<and> s ! q \<noteq> t ! q" "\<forall>i<q. \<not> (i < length s \<and> s ! i \<noteq> t ! i)"
    using exists_least_iff [of "\<lambda>i. i < length s \<and> s ! i \<noteq> t ! i"] by blast
  then have "p \<le> q" using assms(3) by (meson not_le)
  then have "s ! q < t ! q" using q(1) assms(4) by (simp add: order_less_le)
  then show ?thesis using q by (auto intro!: comb_lessI [of q])
qed simp

lemma combination_gap:
  assumes "combination k n s" "i \<le> j" "j < k"
  shows "s ! i + (j - i) \<le> s ! j"
  using assms(2,3)
proof (induction j rule: dec_induct)
  case (step j)
  have "s ! j < s ! Suc j"
    using assms(1) step by (auto simp: combination_def intro: sorted_wrt_nth_less)
  then show ?case using step by (simp add: Suc_diff_le)
qed simp

lemma combination_bound:
  assumes "combination k n s" "i < k"
  shows "s ! i + k \<le> n + i"
proof -
  have "s ! (k - 1) < n"
    using assms by (auto simp: combination_def subset_iff)
  moreover have "s ! i + (k - 1 - i) \<le> s ! (k - 1)"
    using combination_gap [OF assms(1), of i "k - 1"] assms(2) by simp
  ultimately show ?thesis using assms(2) by arith
qed

lemma next_combination_valid:
  assumes s: "combination k n s" and "0 < k" and e: "next_combination s k n = (r, True)"
  shows "combination k n r \<and> comb_less s r"
proof -
  have l: "length s = k" using s by (simp add: combination_def)
  obtain q where q: "q < k" "s ! q + k + 1 \<le> n + q"
    "length r = k" "\<forall>i<q. r ! i = s ! i" "\<forall>i. q \<le> i \<and> i < k \<longrightarrow> r ! i = s ! q + 1 + (i - q)"
    by (rule next_combination_True [OF e \<open>0 < k\<close> l]) (rule that; assumption)
  have lo: "r ! i < s ! q + 1" if "i < q" for i
    using that q(4) combination_gap [OF s, of i q] q(1) by simp
  have up: "r ! i < r ! j" if "i < j" "j < k" for i j
  proof (cases "q \<le> i")
    case True
    then show ?thesis using that q(5) by simp
  next
    case False
    then show ?thesis
      using that q lo [of i] combination_gap [OF s, of i j] by (cases "q \<le> j") auto
  qed
  have "r ! i < n" if "i < k" for i
  proof (cases "q \<le> i")
    case True
    then show ?thesis using that q by simp
  next
    case False
    then show ?thesis using lo [of i] q(1,2) by simp
  qed
  then have "combination k n r"
    using up q(3) by (auto simp: combination_def sorted_wrt_iff_nth_less set_conv_nth)
  moreover have "comb_less s r"
    using q l by (auto intro!: comb_lessI [of q])
  ultimately show ?thesis by simp
qed

lemma next_combination_least:
  assumes s: "combination k n s" and t: "combination k n t" and "0 < k" and st: "comb_less s t"
  shows "\<exists>r. next_combination s k n = (r, True) \<and> (r = t \<or> comb_less r t)"
proof -
  have l: "length s = k" "length t = k" using s t by (simp_all add: combination_def)
  obtain p where p: "p < k" "\<forall>i<p. s ! i = t ! i" "s ! p < t ! p"
    using st l by (auto simp: comb_less_def)
  have room: "s ! p + k + 1 \<le> n + p"
    using combination_bound [OF t p(1)] p(3) by simp
  obtain r where r: "next_combination s k n = (r, True)"
    using next_combination_False [OF _ \<open>0 < k\<close> l(1) p(1), of n] room
    by (metis (full_types) add.commute add.left_commute not_less surj_pair)
  obtain q where q: "q < k" "\<forall>j. q < j \<and> j < k \<longrightarrow> n + j < s ! j + 1 + k"
    "length r = k" "\<forall>i<q. r ! i = s ! i" "\<forall>i. q \<le> i \<and> i < k \<longrightarrow> r ! i = s ! q + 1 + (i - q)"
    by (rule next_combination_True [OF r \<open>0 < k\<close> l(1)]) (rule that; assumption)
  have "p \<le> q"
  proof (rule ccontr)
    assume "\<not> p \<le> q"
    then have "n + p < s ! p + 1 + k" using q(2) p(1) by simp
    then show False using room by simp
  qed
  have "r = t \<or> comb_less r t"
  proof (cases "p = q")
    case True
    have "r ! i \<le> t ! i" if "p \<le> i" "i < k" for i
      using that q(5) p(3) combination_gap [OF t that] True by simp
    then show ?thesis
      using comb_less_or_eq [of r t p] l q p True by simp
  next
    case False
    then have "p < q" using \<open>p \<le> q\<close> by simp
    then have "comb_less r t"
      using p q by (intro comb_lessI [of p]) simp_all
    then show ?thesis by simp
  qed
  then show ?thesis using r by simp
qed

section \<open>All subsets\<close>

inductive visited :: "nat \<Rightarrow> nat \<Rightarrow> nat list \<Rightarrow> bool" for k n where
  visited_first: "first_combination k n = Some s \<Longrightarrow> visited k n s"
| visited_next: "visited k n s \<Longrightarrow> next_combination s k n = (r, True) \<Longrightarrow> visited k n r"

lemma first_combination_valid:
  assumes "k \<le> n"
  shows "first_combination k n = Some [0..<k]" "combination k n [0..<k]"
  using assms by (auto simp: first_combination_def combination_def)

lemma visited_valid: "visited k n s \<Longrightarrow> 0 < k \<Longrightarrow> combination k n s"
proof (induction rule: visited.induct)
  case (visited_first s)
  then show ?case
    by (auto simp: first_combination_def combination_def split: if_splits)
next
  case (visited_next s r)
  then show ?case using next_combination_valid by blast
qed

text \<open>The distance of the items to the upper bound decreases in lexicographic order.\<close>

lemma comb_less_wf: "wf {(map ((-) n) r, map ((-) n) s) | r s. combination k n s \<and> combination k n r \<and> comb_less s r}"
proof (rule wf_subset [OF wf_lex [OF wf_less_than]], clarify)
  fix r s assume c: "combination k n s" "combination k n r" "comb_less s r"
  then have l: "length s = k" "length r = k" by (simp_all add: combination_def)
  then obtain q where q: "q < k" "\<forall>i<q. s ! i = r ! i" "s ! q < r ! q"
    using c(3) by (auto simp: comb_less_def)
  have take: "take q r = take q s"
    using q l by (intro nth_equalityI) simp_all
  have lt: "n - r ! q < n - s ! q"
    using combination_bound [OF c(2) q(1)] q by (intro diff_less_mono2) simp_all
  have "map ((-) n) x = map ((-) n) (take q x) @ (n - x ! q) # map ((-) n) (drop (Suc q) x)" if "length x = k" for x
  proof -
    have "map ((-) n) x = map ((-) n) (take q x @ x ! q # drop (Suc q) x)"
      by (rule arg_cong [OF id_take_nth_drop]) (simp add: that q(1))
    also have "... = map ((-) n) (take q x) @ (n - x ! q) # map ((-) n) (drop (Suc q) x)" by simp
    finally show ?thesis .
  qed
  from this [OF l(1)] this [OF l(2)] show "(map ((-) n) r, map ((-) n) s) \<in> lex less_than"
    using l lt unfolding lex_conv mem_Collect_eq split_conv take
    by (intro conjI exI) (simp, assumption, assumption, simp)
qed

lemma visited_above:
  assumes t: "combination k n t" and "0 < k"
  shows "visited k n s \<Longrightarrow> s = t \<or> comb_less s t \<Longrightarrow> visited k n t"
proof (induction "map ((-) n) s" arbitrary: s rule: wf_induct_rule [OF comb_less_wf [of n k]])
  case 1
  have s: "combination k n s" using 1(2) \<open>0 < k\<close> by (rule visited_valid)
  show ?case
  proof (cases "s = t")
    case True
    then show ?thesis using 1(2) by simp
  next
    case False
    then obtain r where r: "next_combination s k n = (r, True)" "r = t \<or> comb_less r t"
      using next_combination_least [OF s t \<open>0 < k\<close>] 1(3) by blast
    have v: "combination k n r" "comb_less s r"
      using next_combination_valid [OF s \<open>0 < k\<close> r(1)] by simp_all
    show ?thesis
      by (rule 1(1) [OF _ visited_next [OF 1(2) r(1)] r(2)]) (use s v in blast)
  qed
qed

lemma combination_first_least:
  assumes "combination k n t"
  shows "[0..<k] = t \<or> comb_less [0..<k] t"
proof (rule comb_less_or_eq [of _ _ 0])
  show "\<forall>i. 0 \<le> i \<and> i < length [0..<k] \<longrightarrow> [0..<k] ! i \<le> t ! i"
    using combination_gap [OF assms, of 0] by (force intro: le_trans)
qed (use assms in \<open>simp_all add: combination_def\<close>)

text \<open>C11: Starting with the first combination and going on with \<open>next_combination\<close> as the scrub search does visits exactly the
  strictly increasing lists of \<open>k\<close> numbers below \<open>n\<close>. Every step goes up in the lexicographic order, so that none is visited
  twice, and the step fails only at the last one, \<open>n - k, ..., n - 1\<close>.\<close>

theorem next_combination_enumerates:
  assumes "0 < k" "k \<le> n"
  shows "(visited k n s \<longleftrightarrow> length s = k \<and> sorted_wrt (<) s \<and> set s \<subseteq> {..<n})
    \<and> (visited k n s \<longrightarrow>
        (case next_combination s k n of
           (r, True) \<Rightarrow> \<exists>q<k. (\<forall>i<q. s ! i = r ! i) \<and> s ! q < r ! q
         | (r, False) \<Rightarrow> s = [n - k..<n]))"
proof
  show "visited k n s \<longleftrightarrow> length s = k \<and> sorted_wrt (<) s \<and> set s \<subseteq> {..<n}"
  proof -
    have "visited k n s" if "combination k n s"
      by (rule visited_above [OF that assms(1) visited_first combination_first_least [OF that]])
        (rule first_combination_valid(1) [OF assms(2)])
    then show ?thesis
      using visited_valid [OF _ assms(1), of n s] unfolding combination_def by blast
  qed
  show "visited k n s \<longrightarrow> (case next_combination s k n of
      (r, True) \<Rightarrow> \<exists>q<k. (\<forall>i<q. s ! i = r ! i) \<and> s ! q < r ! q | (r, False) \<Rightarrow> s = [n - k..<n])"
  proof
    assume "visited k n s"
    then have s: "combination k n s" using assms(1) by (rule visited_valid)
    then have l: "length s = k" by (simp add: combination_def)
    obtain r b where e: "next_combination s k n = (r, b)" by (rule prod.exhaust)
    show "case next_combination s k n of
      (r, True) \<Rightarrow> \<exists>q<k. (\<forall>i<q. s ! i = r ! i) \<and> s ! q < r ! q | (r, False) \<Rightarrow> s = [n - k..<n]"
    proof (cases b)
      case True
      then show ?thesis
        using next_combination_valid [OF s assms(1), of r] l unfolding e by (simp add: comb_less_def)
    next
      case False
      then have e': "next_combination s k n = (r, False)" using e by simp
      have "s ! i = n - k + i" if "i < k" for i
        using next_combination_False [OF e' assms(1) l that] combination_bound [OF s that] assms(2) by linarith
      then have "s = [n - k..<n]"
        using l assms(2) by (intro nth_equalityI) simp_all
      then show ?thesis unfolding e' by simp
    qed
  qed
qed

theorem next_combination_enumerates_witness:
  "visited 2 4 [1, 3] \<and> \<not> visited 2 4 [3, 1] \<and> next_combination [1, 3] 2 4 = ([2, 3], True)"
proof -
  have "next_combination [1, 3] 2 4 = ([2, 3], True)"
    by code_simp
  then show ?thesis
    using next_combination_enumerates [of 2 4 "[1, 3]"] next_combination_enumerates [of 2 4 "[3, 1]"] by simp
qed

section \<open>Their number\<close>

lemma unat_mult_of_nat:
  fixes c :: u64
  assumes "unat c * i < 2 ^ 64"
  shows "unat (c * of_nat i) = unat c * i"
proof -
  have "c * of_nat i = of_nat (unat c * i)" by simp
  also have "unat (... :: u64) = unat c * i"
    using assms by (simp add: unat_of_nat del: of_nat_mult)
  finally show ?thesis .
qed

lemma c_n_k_product:
  fixes c :: u64
  assumes "k \<le> n" "unat c * \<Prod>{k + 1..n} < 2 ^ 64" "0 < unat c"
  shows "\<exists>d. fold_opt (\<lambda>i c. if c * of_nat i < (of_nat i :: u64) then None else Some (c * of_nat i)) (rev [k + 1..<n + 1]) c = Some d
    \<and> unat d = unat c * \<Prod>{k + 1..n}"
  using assms
proof (induction n arbitrary: c rule: dec_induct)
  case (step n)
  let ?P = "\<Prod>{k + 1..n}"
  have P: "\<Prod>{k + 1..Suc n} = Suc n * ?P" using step.hyps by (simp add: prod.nat_ivl_Suc')
  have "0 < ?P" by (intro prod_pos) simp
  have lim: "unat c * Suc n * ?P < 2 ^ 64" using step.prems(1) unfolding P by (simp only: mult.assoc)
  have "unat c * Suc n \<le> unat c * Suc n * ?P" using mult_le_mono2 [of 1 ?P "unat c * Suc n"] \<open>0 < ?P\<close> by linarith
  then have one: "unat c * Suc n < 2 ^ 64" using lim by linarith
  then have u: "unat (c * of_nat (Suc n)) = unat c * Suc n" by (rule unat_mult_of_nat)
  have "1 \<le> unat c" using step.prems(2) by linarith
  then have le: "Suc n \<le> unat c * Suc n" using mult_le_mono1 [of 1 "unat c" "Suc n"] by (simp only: mult_1)
  then have "Suc n < 2 ^ 64" using one by linarith
  then have v: "unat (of_nat (Suc n) :: u64) = Suc n" by (simp add: unat_of_nat del: of_nat_Suc)
  have fits: "\<not> c * of_nat (Suc n) < of_nat (Suc n)"
    using le unfolding word_less_nat_alt u v by linarith
  have list: "rev [k + 1..<Suc n + 1] = Suc n # rev [k + 1..<n + 1]"
    using step.hyps by simp
  have "unat (c * of_nat (Suc n)) * ?P < 2 ^ 64" "0 < unat (c * of_nat (Suc n))"
    using lim le unfolding u by linarith+
  then obtain d where
    "fold_opt (\<lambda>i c. if c * of_nat i < (of_nat i :: u64) then None else Some (c * of_nat i)) (rev [k + 1..<n + 1])
       (c * of_nat (Suc n)) = Some d"
    "unat d = unat (c * of_nat (Suc n)) * ?P"
    using step.IH by blast
  then show ?case
    by (intro exI [of _ d]) (simp only: list fold_opt.simps fits if_False Option.bind.simps u P mult.assoc simp_thms)
qed simp

lemma c_n_k_divisions:
  fixes c :: u64
  assumes "d < 2 ^ 64"
  shows "unat (fold (\<lambda>i c. c div of_nat i) [2..<d + 1] c) = unat c div fact d"
  using assms
proof (induction d)
  case (Suc d)
  show ?case
  proof (cases "d = 0")
    case False
    let ?f = "fold (\<lambda>i c. c div of_nat i) [2..<d + 1] c"
    have "[2..<Suc d + 1] = [2..<d + 1] @ [Suc d]" using False by simp
    then have "unat (fold (\<lambda>i c. c div of_nat i) [2..<Suc d + 1] c) = unat (?f div of_nat (Suc d))"
      by (simp only: fold_append fold.simps comp_def id_def)
    also have "... = unat ?f div Suc d"
      using Suc.prems by (simp add: unat_div unat_of_nat del: of_nat_Suc upt_Suc)
    also have "... = unat c div fact d div Suc d"
      using Suc by simp
    also have "... = unat c div fact (Suc d)"
      by (simp add: div_mult2_eq [symmetric] mult.commute del: mult_Suc mult_Suc_right)
    finally show ?thesis .
  qed simp
qed simp

text \<open>C33: The number of combinations the scrub search computes is the binomial coefficient when the product
  \<open>n (n - 1) ... (k + 1)\<close> fits 64 bits.\<close>

theorem c_n_k_binomial:
  assumes "k \<le> n" "n < 2 ^ 64" "fact n div fact k < (2 ^ 64 :: nat)"
  shows "unat (c_n_k n k) = n choose k"
proof -
  have P: "\<Prod>{k + 1..n} = (fact n div fact k :: nat)"
    using assms(1) by (simp add: fact_div_fact)
  obtain d where d: "fold_opt (\<lambda>i c. if c * of_nat i < (of_nat i :: u64) then None else Some (c * of_nat i)) (rev [k + 1..<n + 1]) 1 = Some d"
    "unat d = fact n div fact k"
    using c_n_k_product [of k n 1] assms unfolding P by auto
  have "unat (c_n_k n k) = unat d div fact (n - k)"
    unfolding c_n_k_def d(1) option.case by (rule c_n_k_divisions) (use assms(2) in simp)
  then show ?thesis
    using binomial_fact_lemma [OF assms(1), symmetric] d(2) by (simp add: div_mult2_eq [symmetric])
qed

theorem c_n_k_binomial_witness: "unat (c_n_k 6 4) = 15"
proof -
  have "fact 6 div fact 4 < (2 ^ 64 :: nat)" by (simp add: fact_numeral)
  moreover have "(6::nat) choose 4 = 15" by (simp add: binomial_code fold_atLeastAtMost_nat.simps fact_numeral)
  ultimately show ?thesis using c_n_k_binomial [of 4 6] by simp
qed

text \<open>For four sources among 24 chunks the product wraps unnoticed: the test in the loop only compares it with the last factor. The number
  computed is 3 and not 10626, so that the limit on the number of combinations does not stop the search.\<close>

lemma c_n_k_wraps: "c_n_k 24 4 = 3 \<and> 24 choose 4 = (10626 :: nat)"
proof
  show "c_n_k 24 4 = 3" by code_simp
  show "24 choose 4 = (10626 :: nat)" by (simp add: binomial_code fold_atLeastAtMost_nat.simps fact_numeral)
qed

end
