(* ===== verification/Spec2Isabelle.thy ===== *)
theory Spec2Isabelle
  imports Allocator Bitmap Disk_Resize Object_Id Pg_States Base64 Pg_Peering_Props Rmw_Props Str_Props
    Writeback_Refs Rdma_Alloc Scrub_Props
begin

text \<open>
  A verification of parts of Vitastor, a distributed block storage system written in C++.

  \<^bold>\<open>Parts of the program.\<close> Clients read and write images; an image is cut into objects, objects belong to
  placement groups (PGs), and a PG is served by a primary OSD that stores the copies or the erasure coded chunks of
  its objects on several OSDs. When the set of OSDs changes the primary peers: it collects the object
  versions all OSDs hold, decides which version of every object to keep, rolls back or makes stable the others, and
  files objects that lost chunks (\<open>src/src/osd/osd_peering_pg.cpp\<close>). A write to an erasure coded object reads what the new
  parity needs, reconstructs what is lost and computes the parity (\<open>src/src/osd/osd_rmw.cpp\<close>). An OSD keeps its chunks in a
  local block store; the blocks in use are recorded in a hierarchical bitmap allocator and the written parts of an
  object in a bitmap (\<open>src/src/util/allocator.cpp\<close>). The disk tool moves blocks out of the parts of a device that a resize
  gives up (\<open>src/src/disk_tool/disk_tool_resize.cpp\<close>) and finds the new places with the allocator. The client may
  hold writes back in a cache (\<open>src/src/client/cluster_client_wb.cpp\<close>). The state of PGs is published in etcd as keywords, in
  JSON with base64 strings (\<open>src/src/client/pg_states.cpp\<close>, \<open>src/src/util/str_util.cpp\<close>). The NFS proxy takes its buffers from
  registered RDMA memory (\<open>src/src/nfs/rdma_alloc.cpp\<close>).

  \<^bold>\<open>Conventions.\<close> Integers are words of the width of the source wherever the source computes with them and they may wrap;
  where a theory uses natural numbers instead, its introduction says so. A failed \<open>assert\<close>, an exception and an abort are
  \<open>None\<close>, or a value of an error type where the source tells errors apart. Operations take and return the state of their
  object as a record with the fields of the class.

  \<^bold>\<open>Shared theories.\<close>
  \<^item> \<open>Prelude\<close>: word types, error values and the lemmas on bits and lists.
  \<^item> \<open>Ordered_Map\<close>: the operations of \<open>std::map\<close> the code uses, on sorted association lists.
  \<^item> \<open>Memory\<close>: a flat memory of bytes, \<open>memcpy\<close>, \<open>memcmp\<close> and \<open>memxor\<close> (\<open>src/src/util/xor.h\<close>) on it.
  \<^item> \<open>Block_Pool\<close>: the contract of a block allocator, a locale; the lemmas a client needs are proved in it.

  \<^bold>\<open>Components.\<close>
  \<^item> \<open>Allocator\<close>: \<open>allocator_t\<close>. \<open>allocator_new\<close>, \<open>allocator_get\<close>, \<open>allocator_set\<close>, \<open>allocator_find_free\<close> and \<open>get_free_count\<close> are its
    methods. Every operation keeps the invariant of the summary levels, implements the set of used blocks,
    and the search returns the least free block. \<open>block_pool\<close> is interpreted on these operations.
  \<^item> \<open>Bitmap\<close>: \<open>bitmap_set\<close>, \<open>bitmap_clear\<close>, \<open>bitmap_check\<close>; their word and byte paths act on exactly the bits of the range.
  \<^item> \<open>Disk_Resize\<close>: \<open>disk_tool_t::resize_remap_blocks\<close>. Proved against the contract and used through its interpretation: used
    blocks of the removed ranges move to distinct free blocks outside of them, all in the kept part of the data area exactly when
    there is room.
  \<^item> \<open>Object_Id\<close>: \<open>object_id.h\<close> and \<open>osd_id.h\<close>. The comparison operators are strict total orders; pool numbers and inode
    numbers convert without loss.
  \<^item> \<open>Pg_States\<close>: the flags of \<open>pg_states.h\<close>, how \<open>osd_cluster.cpp\<close> reports them and \<open>etcd_state_client.cpp\<close> reads them; reading gives
    back what was reported, and is ignored for the mixtures of flags that are spelled out.
  \<^item> \<open>Base64\<close> and \<open>Str_Util\<close>: the functions of \<open>str_util.cpp\<close>. \<open>Str_Props\<close> has the round trip of quoting, what splitting
    returns, reading of sizes, which loops end, and when \<open>str_replace\<close> does not or throws.
  \<^item> \<open>Pg_Peering\<close>: \<open>pg_obj_state_check_t\<close> and \<open>pg_t::calc_object_states\<close>. \<open>Pg_Peering_Target\<close> gives the version the walk over one
    object keeps, \<open>Pg_Peering_Walk\<close> a reference account object by object that the single pass is equal to,
    \<open>Pg_Peering_Flush\<close> the actions for each copy. \<open>Pg_Peering_Props\<close> states the results: equality with the reference, safety of the
    flush actions, counts and maps of objects by the fate of each object, and the epoch.
  \<^item> \<open>Rmw\<close>: the planning of requests, the XOR scheme and the placement of buffers. \<open>Rmw_Plan\<close>, \<open>Rmw_Ranges\<close> and \<open>Rmw_Layout\<close>
    show what \<open>calc_rmw\<close> decides, \<open>Rmw_Buffers\<close> where its buffers lie, \<open>Rmw_Reconstruct\<close> that a lost chunk is
    restored, \<open>Rmw_Parity\<close>, \<open>Rmw_Modify\<close> and \<open>Rmw_Xor\<close> what the computation of the parity leaves in memory. \<open>Rmw_Props\<close> puts
    them together: for writes that do not move chunks, planning, reading and \<open>calc_rmw_parity_xor\<close> give the parity of the new data.
  \<^item> \<open>Rmw_Ec\<close>: the Reed-Solomon scheme; the functions of jerasure and ISA-L are fields of the record \<open>ec_lib\<close> that the
    definitions take. \<open>Rmw_Scrub\<close>: the search for the good chunks of an object. \<open>Scrub_Props\<close> shows that the
    search visits every subset of the chunks once, and when their number is computed right.
  \<^item> \<open>Writeback\<close>: \<open>writeback_cache_t\<close>. \<open>Writeback_Props\<close> shows that a write updates the cached image at the bytes of the request only;
    \<open>Writeback_Refs\<close> that every operation keeps the reference counts exact, that a synchronisation drops only bytes that were written
    when it started, whatever else happens to the cache before it ends, and that destruction frees every buffer.
  \<^item> \<open>Rdma_Alloc\<close>: \<open>rdma_alloc.cpp\<close>. An allocation returns memory nobody uses and keeps the fragments disjoint; freeing next to a free
    fragment loses the merged fragment from the free list.

  \<^bold>\<open>Bounds.\<close> No definition takes fuel. Loops that end are functions with a termination proof. The loops of \<open>str_replace\<close>, \<open>explode\<close> and
  of the scrub search are partial functions with the value \<open>None\<close> when they do not return; \<open>Str_Props\<close> proves for the first two
  when they do. Results on 64-bit offsets assume that the requests fit their object or image.

  \<^bold>\<open>Not modelled.\<close>
  \<^item> Code that is mostly I/O and event handling: the event loop and timers, the messenger (TCP and RDMA), the HTTP and etcd clients, the
    block store with its journal and flusher, the primary and secondary OSD request handlers, NBD, ublk, QEMU and fio drivers, the
    NFS proxy and the key-value store over it, command line tools. What they compute in between is interleaved with
    callbacks into the kernel or the network.
  \<^item> The build of \<open>osd_rmw.cpp\<close> without ISA-L, which copies buffers for alignment around calls of jerasure.
  \<^item> The functions of \<open>str_util.cpp\<close> that format with \<open>printf\<close> or \<open>strftime\<close> or access files.
  \<^item> Vendored and generated code: liburing, SHA-256, CRC32C, the XDR code of the NFS protocol. Code in other languages: the monitor and the bindings
    (JavaScript), the CSI driver (Go).
\<close>

end
